(* ===== verification/Prelude.thy ===== *)
theory Prelude
  imports Main "HOL-Library.Word" "HOL-Library.Monad_Syntax"
begin

text \<open>
  What every component of the development shares.

  The kernel is written in C++ with assertions: \<open>ASSERT\<close> and \<open>ENSURE\<close>
  (\<^verbatim>\<open>src/ustd/assert.hh\<close>) call the non-returning \<open>assertion_failed\<close>. The model
  follows the build with the \<open>assertions\<close> option on, so a failed assertion is the
  value \<open>None\<close> of an option, and \<open>Some\<close> is an ordinary return. Fallible kernel
  operations (\<open>SysResult<T>\<close>) return \<open>kerror + 'a\<close> inside it.

  A \<open>size_t\<close> or \<open>uintptr_t\<close> is a natural number below \<open>2 ^ 64\<close>; where the code can
  wrap around, the arithmetic is \<open>add64\<close>, \<open>sub64\<close> or \<open>mul64\<close>. Bit sets and flag
  words are \<open>64 word\<close> values.
\<close>

unbundle bit_operations_syntax

named_theorems bit_ops \<open>reading a bit after a bit of a bucket was set or cleared\<close>
named_theorems wrap_simps \<open>wrap-around arithmetic away from the wrap\<close>

section \<open>Types\<close>

type_synonym u8 = "8 word"
type_synonym u16 = "16 word"
type_synonym u32 = "32 word"
type_synonym u64 = "64 word"

text \<open>The error codes of the system call interface, \<^verbatim>\<open>kernel/api/errors.in\<close>.\<close>

datatype kerror =
    BadFd
  | NonExistent
  | BrokenHandle
  | Invalid
  | NoExec
  | NotDirectory
  | AlreadyExists
  | Busy

fun error_value :: "kerror \<Rightarrow> int" where
  "error_value BadFd = -1"
| "error_value NonExistent = -2"
| "error_value BrokenHandle = -3"
| "error_value Invalid = -4"
| "error_value NoExec = -5"
| "error_value NotDirectory = -6"
| "error_value AlreadyExists = -7"
| "error_value Busy = -8"

section \<open>Assertions\<close>

definition ensure :: "bool \<Rightarrow> unit option" where
  "ensure b = (if b then Some () else None)"

lemma ensure_True [simp]: "ensure True = Some ()"
  by (simp add: ensure_def)

lemma ensure_False [simp]: "ensure False = None"
  by (simp add: ensure_def)

lemma ensure_bind_eq_Some [simp]:
  "(ensure b \<bind> f) = Some x \<longleftrightarrow> b \<and> f () = Some x"
  by (simp add: ensure_def)

lemma ensure_bind_eq_None [simp]:
  "(ensure b \<bind> f) = None \<longleftrightarrow> (b \<longrightarrow> f () = None)"
  by (simp add: ensure_def)

section \<open>Loops\<close>

text \<open>A \<open>for\<close> loop whose body may fail an assertion.\<close>

fun for_each :: "('i \<Rightarrow> 's \<Rightarrow> 's option) \<Rightarrow> 'i list \<Rightarrow> 's \<Rightarrow> 's option" where
  "for_each body [] s = Some s"
| "for_each body (i # is') s = do { s' \<leftarrow> body i s; for_each body is' s' }"

lemma for_each_append:
  "for_each body (xs @ ys) s = do { s' \<leftarrow> for_each body xs s; for_each body ys s' }"
  by (induction xs arbitrary: s) (auto split: Option.bind_split)

lemma for_each_invariant:
  assumes "for_each body xs s = Some s'" and "P s"
    and "\<And>i t t'. i \<in> set xs \<Longrightarrow> P t \<Longrightarrow> body i t = Some t' \<Longrightarrow> P t'"
  shows "P s'"
  using assms
proof (induction xs arbitrary: s)
  case (Cons x xs)
  obtain t where t: "body x s = Some t" "for_each body xs t = Some s'"
    using Cons.prems(1) by (auto split: Option.bind_splits)
  then have "P t"
    using Cons.prems(2,3) by (meson list.set_intros(1))
  then show ?case
    using Cons.IH [OF t(2)] Cons.prems(3) by (meson list.set_intros(2))
qed simp

lemma for_each_total:
  assumes "P s" and "\<And>i t. i \<in> set xs \<Longrightarrow> P t \<Longrightarrow> \<exists>t'. body i t = Some t' \<and> P t'"
  shows "\<exists>s'. for_each body xs s = Some s' \<and> P s'"
  using assms
proof (induction xs arbitrary: s)
  case (Cons x xs)
  obtain t where "body x s = Some t" "P t"
    using Cons.prems by (meson list.set_intros(1))
  then show ?case
    using Cons.IH [of t] Cons.prems(2) by auto
qed simp

section \<open>Wrap-around arithmetic on \<open>size_t\<close>\<close>

definition add64 :: "nat \<Rightarrow> nat \<Rightarrow> nat" where
  "add64 a b = (a + b) mod 2 ^ 64"

definition sub64 :: "nat \<Rightarrow> nat \<Rightarrow> nat" where
  "sub64 a b = (a + (2 ^ 64 - b mod 2 ^ 64)) mod 2 ^ 64"

definition mul64 :: "nat \<Rightarrow> nat \<Rightarrow> nat" where
  "mul64 a b = (a * b) mod 2 ^ 64"

lemma add64_exact [wrap_simps]: "a + b < 2 ^ 64 \<Longrightarrow> add64 a b = a + b"
  by (simp add: add64_def)

lemma mul64_exact [wrap_simps]: "a * b < 2 ^ 64 \<Longrightarrow> mul64 a b = a * b"
  by (simp add: mul64_def)

lemma sub64_exact [wrap_simps]:
  assumes "b \<le> a" and "a < 2 ^ 64"
  shows "sub64 a b = a - b"
proof -
  have "a + (2 ^ 64 - b) = (a - b) + 2 ^ 64" and "b mod 2 ^ 64 = b"
    using assms by simp_all
  then have "sub64 a b = (a - b + 2 ^ 64) mod 2 ^ 64"
    by (simp only: sub64_def)
  also have "\<dots> = a - b"
    using assms by (simp only: mod_add_self2) simp
  finally show ?thesis .
qed

lemma sub64_wrap:
  assumes "a < b" and "b < 2 ^ 64"
  shows "sub64 a b = 2 ^ 64 - (b - a)"
  using assms by (simp add: sub64_def)

lemma add64_less [simp]: "add64 a b < 2 ^ 64"
  by (simp add: add64_def)

lemma sub64_less [simp]: "sub64 a b < 2 ^ 64"
  by (simp add: sub64_def)

lemma mul64_less [simp]: "mul64 a b < 2 ^ 64"
  by (simp add: mul64_def)

text \<open>The same on a \<open>uint32_t\<close>, where one is kept as a natural number below \<open>2 ^ 32\<close>.\<close>

definition add32 :: "nat \<Rightarrow> nat \<Rightarrow> nat" where
  "add32 a b = (a + b) mod 2 ^ 32"

definition sub32 :: "nat \<Rightarrow> nat \<Rightarrow> nat" where
  "sub32 a b = (a + (2 ^ 32 - b mod 2 ^ 32)) mod 2 ^ 32"

definition mul32 :: "nat \<Rightarrow> nat \<Rightarrow> nat" where
  "mul32 a b = (a * b) mod 2 ^ 32"

lemma add32_exact [wrap_simps]: "a + b < 2 ^ 32 \<Longrightarrow> add32 a b = a + b"
  by (simp add: add32_def)

lemma mul32_exact [wrap_simps]: "a * b < 2 ^ 32 \<Longrightarrow> mul32 a b = a * b"
  by (simp add: mul32_def)

lemma sub32_exact [wrap_simps]:
  assumes "b \<le> a" and "a < 2 ^ 32"
  shows "sub32 a b = a - b"
proof -
  have "a + (2 ^ 32 - b) = (a - b) + 2 ^ 32" and "b mod 2 ^ 32 = b"
    using assms by simp_all
  then have "sub32 a b = (a - b + 2 ^ 32) mod 2 ^ 32"
    by (simp only: sub32_def)
  also have "\<dots> = a - b"
    using assms by (simp only: mod_add_self2) simp
  finally show ?thesis .
qed

section \<open>Single bits of a word\<close>

text \<open>
  The three idioms of the bit sets of the kernel: \<^verbatim>\<open>b |= 1ul << k\<close>,
  \<^verbatim>\<open>b &= ~(1ul << k)\<close> and \<^verbatim>\<open>(b & (1ul << k)) != 0\<close>.
\<close>

definition word_set_bit :: "u64 \<Rightarrow> nat \<Rightarrow> u64" where
  "word_set_bit w k = w OR push_bit k 1"

definition word_clear_bit :: "u64 \<Rightarrow> nat \<Rightarrow> u64" where
  "word_clear_bit w k = w AND NOT (push_bit k 1)"

definition word_test_bit :: "u64 \<Rightarrow> nat \<Rightarrow> bool" where
  "word_test_bit w k \<longleftrightarrow> w AND push_bit k 1 \<noteq> 0"

lemma word_test_bit_iff [bit_ops]: "k < 64 \<Longrightarrow> word_test_bit w k \<longleftrightarrow> bit w k"
proof -
  assume "k < 64"
  have "w AND push_bit k 1 = (if bit w k then push_bit k 1 else 0)"
    by (rule bit_eqI) (auto simp add: bit_simps)
  moreover have "bit (push_bit k (1 :: u64)) k"
    using \<open>k < 64\<close> by (simp add: bit_simps)
  then have "push_bit k (1 :: u64) \<noteq> 0"
    by (metis bit_0_eq bot_apply bot_bool_def)
  ultimately show ?thesis
    by (simp add: word_test_bit_def)
qed

lemma bit_word_set_bit [bit_ops]:
  "k < 64 \<Longrightarrow> bit (word_set_bit w k) n \<longleftrightarrow> bit w n \<or> n = k"
  by (auto simp add: word_set_bit_def bit_simps)

lemma bit_word_clear_bit [bit_ops]:
  "k < 64 \<Longrightarrow> bit (word_clear_bit w k) n \<longleftrightarrow> bit w n \<and> n \<noteq> k"
  by (auto simp add: word_clear_bit_def bit_simps dest: bit_imp_le_length)

section \<open>Lists\<close>

lemma take_append_drop_upto:
  "i \<le> j \<Longrightarrow> take i xs @ take (j - i) (drop i xs) = take j xs"
  by (metis le_add_diff_inverse take_add)

text \<open>\<open>memcpy\<close> out of and into an array.\<close>

definition mem_read :: "nat \<Rightarrow> nat \<Rightarrow> 'a list \<Rightarrow> 'a list" where
  "mem_read src n mem = take n (drop src mem)"

definition mem_write :: "nat \<Rightarrow> 'a list \<Rightarrow> 'a list \<Rightarrow> 'a list" where
  "mem_write dst bytes mem = take dst mem @ bytes @ drop (dst + length bytes) mem"

lemma length_mem_read [simp]: "src + n \<le> length mem \<Longrightarrow> length (mem_read src n mem) = n"
  by (simp add: mem_read_def)

lemma length_mem_write [simp]:
  "dst + length bytes \<le> length mem \<Longrightarrow> length (mem_write dst bytes mem) = length mem"
  by (simp add: mem_write_def)

lemma mem_read_0 [simp]: "mem_read a 0 mem = []"
  by (simp add: mem_read_def)

lemma mem_read_split: "k \<le> n \<Longrightarrow> mem_read a n mem = mem_read a k mem @ mem_read (a + k) (n - k) mem"
  unfolding mem_read_def by (metis add.commute drop_drop le_add_diff_inverse take_add)

lemma drop_mem_read: "k \<le> n \<Longrightarrow> drop k (mem_read a n mem) = mem_read (a + k) (n - k) mem"
  by (simp add: mem_read_def drop_take add.commute)

lemma nth_mem_read: "i < n \<Longrightarrow> a + n \<le> length mem \<Longrightarrow> mem_read a n mem ! i = mem ! (a + i)"
  by (simp add: mem_read_def)

lemma nth_mem_write:
  "dst + length bytes \<le> length mem \<Longrightarrow> i < length mem \<Longrightarrow>
     mem_write dst bytes mem ! i =
       (if dst \<le> i \<and> i < dst + length bytes then bytes ! (i - dst) else mem ! i)"
  by (auto simp: mem_write_def nth_append)

lemma mem_read_write_disjoint:
  assumes "dst + length bytes \<le> length mem" and "a + n \<le> length mem"
    and "a + n \<le> dst \<or> dst + length bytes \<le> a"
  shows "mem_read a n (mem_write dst bytes mem) = mem_read a n mem"
  using assms by (intro nth_equalityI) (auto simp: nth_mem_read nth_mem_write)

lemma mem_read_write_append:
  assumes "a + m + length bytes \<le> length mem"
  shows "mem_read a (m + length bytes) (mem_write (a + m) bytes mem) = mem_read a m mem @ bytes"
  using assms by (intro nth_equalityI) (auto simp: nth_mem_read nth_mem_write nth_append)

lemma mem_read_write_same:
  "dst + length bytes \<le> length mem \<Longrightarrow>
     mem_read dst (length bytes) (mem_write dst bytes mem) = bytes"
  using mem_read_write_append [of dst 0 bytes mem] by simp

lemma list_all_nth_upt:
  "(\<forall>i \<in> set [a..<b]. P i) \<longleftrightarrow> (\<forall>i. a \<le> i \<and> i < b \<longrightarrow> P i)"
  by auto

end
