(* ===== verification/Numeric.thy ===== *)
theory Numeric
  imports Prelude
begin

text \<open>
  The numeric helpers of \<^verbatim>\<open>src/ustd/numeric.hh\<close> and the comb sort of
  \<^verbatim>\<open>src/ustd/algorithm.hh\<close>. \<open>ustd::min\<close> and \<open>ustd::max\<close> are HOL's own.
  \<open>align_up\<close> is computed on 64-bit words as the code does; the lemmas give its value
  on naturals, including the wrap to zero near \<open>2 ^ 64\<close>.
\<close>

section \<open>Sizes\<close>

definition KiB :: "nat \<Rightarrow> nat" where "KiB n = n * 1024"
definition MiB :: "nat \<Rightarrow> nat" where "MiB n = n * 1048576"
definition GiB :: "nat \<Rightarrow> nat" where "GiB n = n * 1073741824"
definition TiB :: "nat \<Rightarrow> nat" where "TiB n = n * 1099511627776"

lemmas size_units = KiB_def MiB_def GiB_def TiB_def

section \<open>Division and alignment\<close>

definition ceil_div :: "nat \<Rightarrow> nat \<Rightarrow> nat" where
  "ceil_div x y = x div y + (if x mod y \<noteq> 0 then 1 else 0)"

definition align_up :: "nat \<Rightarrow> nat \<Rightarrow> nat option" where
  "align_up value alignment =
     (let a = (of_nat alignment :: u64) in do {
        ensure (a AND (a - 1) = 0);
        Some (unat ((of_nat value + a - 1) AND NOT (a - 1)))
      })"

definition align_down :: "nat \<Rightarrow> nat \<Rightarrow> nat option" where
  "align_down value alignment =
     (let a = (of_nat alignment :: u64) in do {
        ensure (a AND (a - 1) = 0);
        Some (unat (of_nat value AND NOT (a - 1)))
      })"

lemma pow2_minus_1_eq_mask: "(2 ^ k :: u64) - 1 = mask k"
  by (simp add: mask_eq_exp_minus_1)

lemma pow2_and_mask: "k < 64 \<Longrightarrow> (2 ^ k :: u64) AND mask k = 0"
  by (rule bit_eqI) (auto simp add: bit_simps)

lemma unat_and_not_mask: "unat (w AND NOT (mask k)) = unat w div 2 ^ k * 2 ^ k"
  for w :: u64
proof -
  have "push_bit k (drop_bit k w) = w AND NOT (mask k)"
    by (rule bit_eqI) (auto simp add: bit_simps)
  moreover have "w = push_bit k (drop_bit k w) + take_bit k w"
    by (simp add: bits_ident)
  ultimately have "w AND NOT (mask k) = w - take_bit k w"
    by (simp add: algebra_simps)
  moreover have "take_bit k w \<le> w"
    by (simp add: word_le_nat_alt unsigned_take_bit_eq)
  ultimately have "unat (w AND NOT (mask k)) = unat w - unat (take_bit k w)"
    by (simp add: unat_sub)
  also have "\<dots> = unat w - unat w mod 2 ^ k"
    by (simp add: unsigned_take_bit_eq) (simp add: take_bit_eq_mod)
  finally show ?thesis
    by (metis minus_mod_eq_div_mult)
qed

lemma align_up_value:
  assumes "k < 64" and "v < 2 ^ 64"
  shows "align_up v (2 ^ k) = Some (((v + (2 ^ k - 1)) mod 2 ^ 64) div 2 ^ k * 2 ^ k)"
proof -
  have "of_nat (2 ^ k - 1) = (2 ^ k - 1 :: u64)"
    by (subst of_nat_diff) simp_all
  then have "(of_nat v + 2 ^ k - 1 :: u64) = of_nat (v + (2 ^ k - 1))"
    by (simp only: of_nat_add add_diff_eq)
  then have "unat (of_nat v + 2 ^ k - 1 :: u64) = (v + (2 ^ k - 1)) mod 2 ^ 64"
    by (simp add: unat_of_nat)
  then show ?thesis
    using assms(1)
    by (simp add: align_up_def Let_def pow2_minus_1_eq_mask pow2_and_mask unat_and_not_mask)
qed

lemma align_down_value:
  assumes "k < 64" and "v < 2 ^ 64"
  shows "align_down v (2 ^ k) = Some (v div 2 ^ k * 2 ^ k)"
  using assms
  by (simp add: align_down_def Let_def pow2_minus_1_eq_mask pow2_and_mask unat_and_not_mask
      unat_of_nat)

text \<open>The alignment most of the kernel uses: a page of 4 KiB.\<close>

lemma align_up_page:
  assumes "v + 4095 < 2 ^ 64"
  shows "align_up v 4096 = Some ((v + 4095) div 4096 * 4096)"
  using align_up_value [of 12 v] assms by simp

lemma align_up_page_wraps:
  assumes "2 ^ 64 \<le> v + 4095" and "v < 2 ^ 64"
  shows "align_up v 4096 = Some 0"
proof -
  have "(v + 4095) mod 2 ^ 64 = v + 4095 - 2 ^ 64"
    using assms by (simp add: le_mod_geq)
  moreover have "v + 4095 - 2 ^ 64 < 4096"
    using assms by simp
  ultimately show ?thesis
    using align_up_value [of 12 v] assms by simp
qed

lemma align_up_page_bounds:
  assumes "align_up v 4096 = Some r" and "v + 4095 < 2 ^ 64"
  shows "v \<le> r" and "r < v + 4096" and "4096 dvd r"
proof -
  have r: "r = (v + 4095) div 4096 * 4096"
    using assms align_up_page by simp
  have "v + 4095 = r + (v + 4095) mod 4096" and "(v + 4095) mod 4096 < 4096"
    by (simp_all add: r)
  then show "v \<le> r" and "r < v + 4096"
    by linarith+
  show "4096 dvd r"
    by (simp add: r)
qed

end
