(* ===== verification/Algorithm.thy ===== *)
theory Algorithm
  imports Numeric "HOL-Library.Multiset"
begin

text \<open>
  The generic algorithms of \<^verbatim>\<open>src/ustd/algorithm.hh\<close>: linear search and the comb
  sort that \<open>qsort\<close> and \<^verbatim>\<open>ls\<close> use. The sort is a loop over a caller's \<open>gt\<close>, so
  it may run forever (an \<open>gt\<close> that always answers true): it is a partial function, and
  the lemmas prove that it returns when \<open>gt\<close> compares a key.
\<close>

section \<open>Linear search\<close>

fun index_of_from :: "nat \<Rightarrow> 'a list \<Rightarrow> 'a \<Rightarrow> nat option" where
  "index_of_from i [] v = None"
| "index_of_from i (x # xs) v = (if x = v then Some i else index_of_from (Suc i) xs v)"

definition index_of :: "'a list \<Rightarrow> 'a \<Rightarrow> nat option" where
  "index_of xs v = index_of_from 0 xs v"

lemma index_of_from_Some:
  "index_of_from k xs v = Some i \<Longrightarrow>
     k \<le> i \<and> i - k < length xs \<and> xs ! (i - k) = v \<and> v \<notin> set (take (i - k) xs)"
proof (induction xs arbitrary: k)
  case (Cons x xs)
  show ?case
  proof (cases "x = v")
    case True
    then show ?thesis using Cons.prems by simp
  next
    case False
    with Cons have "Suc k \<le> i \<and> i - Suc k < length xs \<and> xs ! (i - Suc k) = v
        \<and> v \<notin> set (take (i - Suc k) xs)"
      by simp
    moreover obtain m where "i = Suc k + m"
      using calculation le_Suc_ex by blast
    ultimately show ?thesis using False by simp
  qed
qed simp

lemma index_of_from_None: "index_of_from k xs v = None \<longleftrightarrow> v \<notin> set xs"
  by (induction xs arbitrary: k) auto

section \<open>Comb sort\<close>

definition next_gap :: "nat \<Rightarrow> nat" where
  "next_gap gap =
     (let g = mul64 gap 10 div 13;
          g = (if g = 9 \<or> g = 10 then 11 else g)
      in if g < 1 then 1 else g)"

fun comb_pass :: "('a \<Rightarrow> 'a \<Rightarrow> bool) \<Rightarrow> nat \<Rightarrow> nat list \<Rightarrow> 'a list \<Rightarrow> bool \<Rightarrow> 'a list \<times> bool" where
  "comb_pass gt gap [] xs swapped = (xs, swapped)"
| "comb_pass gt gap (i # ixs) xs swapped =
     (let j = i + gap in
      if gt (xs ! i) (xs ! j)
      then comb_pass gt gap ixs (xs[i := xs ! j, j := xs ! i]) True
      else comb_pass gt gap ixs xs swapped)"

partial_function (option) comb_loop ::
    "('a \<Rightarrow> 'a \<Rightarrow> bool) \<Rightarrow> nat \<Rightarrow> 'a list \<Rightarrow> 'a list option" where
  "comb_loop gt gap xs =
     (let g = next_gap gap;
          (xs', swapped) = comb_pass gt g [0..<sub64 (length xs) g] xs False
      in if g > 1 \<or> swapped then comb_loop gt g xs' else Some xs')"

definition comb_sort :: "('a \<Rightarrow> 'a \<Rightarrow> bool) \<Rightarrow> 'a list \<Rightarrow> 'a list option" where
  "comb_sort gt xs = (if length xs = 0 then Some xs else comb_loop gt (length xs) xs)"

subsection \<open>Gaps\<close>

lemma next_gap_less:
  assumes "1 < gap" and "gap * 10 < 2 ^ 64"
  shows "next_gap gap < gap" and "1 \<le> next_gap gap"
proof -
  have g: "mul64 gap 10 = gap * 10"
    using assms by (simp add: mul64_exact)
  have "gap * 10 div 13 < gap"
    using assms by simp
  moreover have "gap * 10 div 13 = 9 \<or> gap * 10 div 13 = 10 \<Longrightarrow> 11 < gap"
    by auto
  ultimately show "next_gap gap < gap" and "1 \<le> next_gap gap"
    using assms by (auto simp: next_gap_def Let_def g)
qed

lemma next_gap_1 [simp]: "next_gap 1 = 1" "next_gap (Suc 0) = Suc 0"
  by (simp_all add: next_gap_def mul64_def)

lemma next_gap_bounds:
  assumes "1 \<le> gap" and "gap * 10 < 2 ^ 64"
  shows "1 \<le> next_gap gap \<and> next_gap gap \<le> gap"
proof (cases "gap = 1")
  case False
  then show ?thesis
    using assms next_gap_less [of gap] by simp
qed simp

subsection \<open>A pass\<close>

lemma swap_mset:
  "i < length xs \<Longrightarrow> j < length xs \<Longrightarrow> mset (xs[i := xs ! j, j := xs ! i]) = mset xs"
  by (rule mset_swap)

lemma comb_pass_length: "length (fst (comb_pass gt g ixs xs s)) = length xs"
  by (induction gt g ixs xs s rule: comb_pass.induct) (auto simp: Let_def)

lemma comb_pass_mset:
  "\<forall>i \<in> set ixs. i + g < length xs \<Longrightarrow> mset (fst (comb_pass gt g ixs xs s)) = mset xs"
  by (induction gt g ixs xs s rule: comb_pass.induct) (auto simp: Let_def swap_mset)

lemma comb_pass_swapped: "snd (comb_pass gt g ixs xs True)"
  by (induction gt g ixs xs True rule: comb_pass.induct) (auto simp: Let_def)

lemma comb_pass_no_swap:
  "\<not> snd (comb_pass gt g ixs xs s) \<Longrightarrow>
     fst (comb_pass gt g ixs xs s) = xs \<and> (\<forall>i \<in> set ixs. \<not> gt (xs ! i) (xs ! (i + g)))"
proof (induction gt g ixs xs s rule: comb_pass.induct)
  case (2 gt g i ixs xs s)
  have no_gt: "\<not> gt (xs ! i) (xs ! (i + g))"
    using "2.prems" comb_pass_swapped [of gt g ixs] by (auto simp: Let_def)
  then show ?case
    using "2.IH"(2) "2.prems" by (simp add: Let_def)
qed simp

subsection \<open>Inversions bound the passes with gap one\<close>

fun inversions :: "('a \<Rightarrow> 'k::linorder) \<Rightarrow> 'a list \<Rightarrow> nat" where
  "inversions key [] = 0"
| "inversions key (x # xs) = size (filter_mset (\<lambda>y. key y < key x) (mset xs)) + inversions key xs"

lemma inversions_adjacent_swap:
  "Suc i < length xs \<Longrightarrow> key (xs ! Suc i) < key (xs ! i) \<Longrightarrow>
     inversions key (xs[i := xs ! Suc i, Suc i := xs ! i]) < inversions key xs"
proof (induction xs arbitrary: i)
  case (Cons x xs)
  show ?case
  proof (cases i)
    case 0
    then obtain y ys where "xs = y # ys"
      using Cons.prems by (cases xs) auto
    then show ?thesis using 0 Cons.prems by auto
  next
    case (Suc k)
    have "mset (xs[k := xs ! Suc k, Suc k := xs ! k]) = mset xs"
      using Cons.prems Suc by (intro swap_mset) auto
    moreover have "inversions key (xs[k := xs ! Suc k, Suc k := xs ! k]) < inversions key xs"
      using Cons.prems Suc by (intro Cons.IH) auto
    ultimately show ?thesis using Suc by simp
  qed
qed simp

lemma comb_pass_inversions:
  fixes key :: "'a \<Rightarrow> 'k::linorder"
  assumes gt: "\<And>a b. gt a b \<longleftrightarrow> key b < key a"
  shows "\<forall>i \<in> set ixs. Suc i < length xs \<Longrightarrow>
     inversions key (fst (comb_pass gt 1 ixs xs s)) \<le> inversions key xs \<and>
     (snd (comb_pass gt 1 ixs xs s) \<longrightarrow> s \<or>
        inversions key (fst (comb_pass gt 1 ixs xs s)) < inversions key xs)"
proof (induction ixs arbitrary: xs s)
  case (Cons i ixs)
  show ?case
  proof (cases "gt (xs ! i) (xs ! Suc i)")
    case True
    let ?ys = "xs[i := xs ! Suc i, Suc i := xs ! i]"
    have "inversions key ?ys < inversions key xs"
      using Cons.prems True gt by (intro inversions_adjacent_swap) auto
    moreover have "inversions key (fst (comb_pass gt 1 ixs ?ys True)) \<le> inversions key ?ys"
      using Cons.IH [of ?ys True] Cons.prems by simp
    ultimately show ?thesis using True by (simp add: Let_def)
  next
    case False
    then show ?thesis using Cons.IH [of xs s] Cons.prems by (simp add: Let_def)
  qed
qed simp

lemma sorted_from_adjacent:
  assumes "\<And>i. Suc i < length xs \<Longrightarrow> \<not> key (xs ! Suc i) < (key (xs ! i) :: 'k::linorder)"
  shows "sorted (map key xs)"
  using assms by (auto simp: sorted_iff_nth_Suc not_less)

subsection \<open>The loop returns a sorted permutation\<close>

lemma comb_loop_sorts:
  fixes key :: "'a \<Rightarrow> 'k::linorder"
  assumes gt: "\<And>a b. gt a b \<longleftrightarrow> key b < key a"
  shows "1 \<le> gap \<Longrightarrow> gap \<le> length xs \<Longrightarrow> length xs * 10 < 2 ^ 64 \<Longrightarrow>
     \<exists>ys. comb_loop gt gap xs = Some ys \<and> mset ys = mset xs \<and> sorted (map key ys)"
proof (induction "(gap, inversions key xs)" arbitrary: gap xs
    rule: wf_induct_rule [OF wf_measures [of "[fst, snd]"]])
  case 1
  let ?g = "next_gap gap"
  let ?p = "comb_pass gt ?g [0..<length xs - ?g] xs False"
  have g: "1 \<le> ?g" "?g \<le> gap" "?g = 1 \<longrightarrow> gap = 1 \<or> ?g < gap" "gap \<noteq> 1 \<longrightarrow> ?g < gap"
    using 1(2-4) next_gap_bounds [of gap] next_gap_less [of gap] by auto
  have loop: "comb_loop gt gap xs =
      (if ?g > 1 \<or> snd ?p then comb_loop gt ?g (fst ?p) else Some (fst ?p))"
    using 1(2-4) g
    by (subst comb_loop.simps) (simp add: Let_def sub64_exact split: prod.split)
  have idx: "\<forall>i \<in> set [0..<length xs - ?g]. i + ?g < length xs"
    by auto
  have len: "length (fst ?p) = length xs" and mset: "mset (fst ?p) = mset xs"
    using comb_pass_length comb_pass_mset [OF idx] by auto
  show ?case
  proof (cases "?g > 1 \<or> snd ?p")
    case True
    have "((?g, inversions key (fst ?p)), (gap, inversions key xs)) \<in> measures [fst, snd]"
    proof (cases "gap = 1")
      case True
      have "\<forall>i \<in> set [0..<length xs - 1]. Suc i < length xs"
        by auto
      with True show ?thesis
        using \<open>?g > 1 \<or> snd ?p\<close> comb_pass_inversions [where gt = gt and key = key and xs = xs and s = False
            and ixs = "[0..<length xs - 1]", OF gt]
        by auto
    next
      case False
      then show ?thesis using g by auto
    qed
    then have "\<exists>ys. comb_loop gt ?g (fst ?p) = Some ys \<and> mset ys = mset (fst ?p)
        \<and> sorted (map key ys)"
      using 1(2-4) g len by (intro 1(1)) auto
    then show ?thesis using True loop mset by auto
  next
    case False
    then have "?g = 1" using g by auto
    then have "fst ?p = xs" and "\<forall>i \<in> set [0..<length xs - 1]. \<not> gt (xs ! i) (xs ! (i + 1))"
      using False comb_pass_no_swap [of gt ?g "[0..<length xs - ?g]" xs False] by auto
    then have "sorted (map key xs)"
      using gt by (intro sorted_from_adjacent) auto
    then show ?thesis using False loop \<open>fst ?p = xs\<close> by auto
  qed
qed

text \<open>
  C31. The comb sort behind \<open>qsort\<close> and \<^verbatim>\<open>ls\<close> is total and correct: when the caller's
  \<open>gt\<close> compares a key of any linear order, the loop ends (although its exit depends on
  what the passes swap) and returns a permutation of the input, sorted by the key.
\<close>

theorem comb_sort_correct:
  fixes key :: "'a \<Rightarrow> 'k::linorder"
  assumes "\<And>a b. gt a b \<longleftrightarrow> key b < key a" and "length xs * 10 < 2 ^ 64"
  shows "\<exists>ys. comb_sort gt xs = Some ys \<and> mset ys = mset xs \<and> sorted (map key ys)"
proof (cases "xs = []")
  case True
  then show ?thesis by (simp add: comb_sort_def)
next
  case False
  then show ?thesis
    using comb_loop_sorts [OF assms(1), of "length xs" xs] assms(2)
    by (cases xs) (auto simp: comb_sort_def)
qed

theorem comb_sort_correct_witness:
  "\<exists>ys. comb_sort (\<lambda>a b. b < a) [3, 1, 2 :: nat] = Some ys
     \<and> mset ys = mset [3, 1, 2 :: nat] \<and> sorted (map id ys)"
  by (rule comb_sort_correct [where key = id]) simp_all

end
