(* ===== verification/Ring_Buffer.thy ===== *)
theory Ring_Buffer
  imports Numeric
begin

text \<open>
  \<open>ustd::RingBuffer\<close> (\<^verbatim>\<open>src/ustd/ring_buffer.hh\<close>), a fixed array that forgets its
  oldest element when it is full, and its one client, the kernel log of
  \<^verbatim>\<open>src/kernel/dev/dmesg_device.cc\<close>. The template argument \<open>Capacity\<close> is the length of
  the array. The locale \<open>bounded_log\<close> is the contract of the ring buffer; the log's
  property is proved from the contract only.
\<close>

section \<open>The buffer\<close>

record 'a ring_buffer =
  rb_data :: "'a list"
  rb_head :: nat
  rb_size :: nat

definition rb_enqueue :: "'a \<Rightarrow> 'a ring_buffer \<Rightarrow> 'a ring_buffer" where
  "rb_enqueue elem rb =
     (let cap = length (rb_data rb);
          rb' = rb\<lparr>rb_data := (rb_data rb)[add64 (rb_head rb) (rb_size rb) mod cap := elem]\<rparr>
      in if rb_size rb = cap
         then rb'\<lparr>rb_head := add64 (rb_head rb) 1 mod cap\<rparr>
         else rb'\<lparr>rb_size := add64 (rb_size rb) 1\<rparr>)"

definition rb_dequeue :: "'a ring_buffer \<Rightarrow> 'a option \<times> 'a ring_buffer" where
  "rb_dequeue rb =
     (let cap = length (rb_data rb)
      in (if rb_head rb < cap then Some (rb_data rb ! rb_head rb) else None,
          rb\<lparr>rb_head := add64 (rb_head rb) 1 mod cap, rb_size := sub64 (rb_size rb) 1\<rparr>))"

definition rb_empty :: "'a ring_buffer \<Rightarrow> bool" where
  "rb_empty rb \<longleftrightarrow> rb_size rb = 0"

definition rb_index :: "'a ring_buffer \<Rightarrow> nat \<Rightarrow> 'a option" where
  "rb_index rb i = do { ensure (i < length (rb_data rb)); Some (rb_data rb ! i) }"

text \<open>A new buffer: the array is value-initialised.\<close>

definition rb_new :: "'a \<Rightarrow> nat \<Rightarrow> 'a ring_buffer" where
  "rb_new z cap = \<lparr>rb_data = replicate cap z, rb_head = 0, rb_size = 0\<rparr>"

section \<open>Its contents, oldest first\<close>

definition rb_contents :: "'a ring_buffer \<Rightarrow> 'a list" where
  "rb_contents rb =
     map (\<lambda>i. rb_data rb ! ((rb_head rb + i) mod length (rb_data rb))) [0..<rb_size rb]"

definition rb_inv :: "'a ring_buffer \<Rightarrow> bool" where
  "rb_inv rb \<longleftrightarrow>
     0 < length (rb_data rb) \<and> length (rb_data rb) < 2 ^ 63 \<and>
     rb_head rb < length (rb_data rb) \<and> rb_size rb \<le> length (rb_data rb)"

lemma rb_contents_length [simp]: "length (rb_contents rb) = rb_size rb"
  by (simp add: rb_contents_def)

lemma rb_contents_nth:
  "i < rb_size rb \<Longrightarrow>
     rb_contents rb ! i = rb_data rb ! ((rb_head rb + i) mod length (rb_data rb))"
  by (simp add: rb_contents_def)

lemma rb_inv_size: "rb_inv rb \<Longrightarrow> rb_size rb \<le> length (rb_data rb)"
  by (simp add: rb_inv_def)

lemma rb_new_inv: "0 < cap \<Longrightarrow> cap < 2 ^ 63 \<Longrightarrow> rb_inv (rb_new z cap)"
  by (simp add: rb_inv_def rb_new_def)

lemma rb_new_contents [simp]: "rb_contents (rb_new z cap) = []"
  by (simp add: rb_contents_def rb_new_def)

lemma rb_new_data [simp]: "length (rb_data (rb_new z cap)) = cap"
  by (simp add: rb_new_def)

lemma rb_index_add64 [simp]:
  assumes "rb_inv rb"
  shows "add64 (rb_head rb) (rb_size rb) = rb_head rb + rb_size rb"
    and "add64 (rb_head rb) 1 = rb_head rb + 1"
    and "add64 (rb_head rb) (Suc 0) = Suc (rb_head rb)"
    and "add64 (rb_size rb) 1 = rb_size rb + 1"
    and "add64 (rb_size rb) (Suc 0) = Suc (rb_size rb)"
  using assms by (auto simp: rb_inv_def add64_def)

lemma rb_enqueue_capacity [simp]: "length (rb_data (rb_enqueue x rb)) = length (rb_data rb)"
  by (simp add: rb_enqueue_def Let_def)

lemma rb_enqueue_inv: "rb_inv rb \<Longrightarrow> rb_inv (rb_enqueue x rb)"
  by (auto simp: rb_enqueue_def Let_def rb_inv_def add64_exact)

lemma mod_ring_distinct:
  fixes c :: nat
  assumes "i < j" and "j < c"
  shows "(h + i) mod c \<noteq> (h + j) mod c"
proof
  assume "(h + i) mod c = (h + j) mod c"
  then have "c dvd (h + j) - (h + i)"
    using assms by (metis add_le_cancel_left less_imp_le mod_eq_dvd_iff_nat)
  then have "c dvd j - i"
    by simp
  then show False
    using assms by (auto dest: dvd_imp_le)
qed

lemma rb_enqueue_contents:
  assumes inv: "rb_inv rb"
  shows "rb_contents (rb_enqueue x rb) =
     (if rb_size rb = length (rb_data rb) then tl (rb_contents rb) else rb_contents rb) @ [x]"
proof (cases "rb_size rb = length (rb_data rb)")
  case full: True
  let ?c = "length (rb_data rb)" and ?h = "rb_head rb"
  have c: "0 < ?c" "?h < ?c"
    using inv by (auto simp: rb_inv_def)
  have e: "rb_enqueue x rb = rb\<lparr>rb_data := (rb_data rb)[?h := x], rb_head := Suc ?h mod ?c\<rparr>"
    using full inv c rb_index_add64(1) [OF inv] by (simp add: rb_enqueue_def Let_def)
  show ?thesis
  proof (rule nth_equalityI)
    show "length (rb_contents (rb_enqueue x rb)) =
        length ((if rb_size rb = ?c then tl (rb_contents rb) else rb_contents rb) @ [x])"
      using full c by (simp add: e)
  next
    fix i
    assume "i < length (rb_contents (rb_enqueue x rb))"
    then have i: "i < ?c" by (simp add: e full)
    have l: "rb_contents (rb_enqueue x rb) ! i = (rb_data rb)[?h := x] ! ((?h + Suc i) mod ?c)"
      using i full by (simp add: e rb_contents_nth mod_simps)
    show "rb_contents (rb_enqueue x rb) ! i =
        ((if rb_size rb = ?c then tl (rb_contents rb) else rb_contents rb) @ [x]) ! i"
    proof (cases "Suc i = ?c")
      case True
      then have "(?h + Suc i) mod ?c = ?h"
        using c by simp
      then show ?thesis
        using l c True full by (auto simp: nth_append)
    next
      case False
      then have "Suc i < ?c" and "i < ?c - Suc 0" using i by simp_all
      then have "(?h + Suc i) mod ?c \<noteq> ?h"
        using mod_ring_distinct [of 0 "Suc i" ?c ?h] c by simp
      then show ?thesis
        using l full \<open>Suc i < ?c\<close> \<open>i < ?c - Suc 0\<close> by (simp add: nth_append nth_tl rb_contents_nth)
    qed
  qed
next
  case False
  let ?c = "length (rb_data rb)" and ?h = "rb_head rb" and ?n = "rb_size rb"
  have c: "?n < ?c"
    using inv False by (auto simp: rb_inv_def)
  have e: "rb_enqueue x rb = rb\<lparr>rb_data := (rb_data rb)[(?h + ?n) mod ?c := x], rb_size := Suc ?n\<rparr>"
    using False inv by (simp add: rb_enqueue_def Let_def)
  show ?thesis
  proof (rule nth_equalityI)
    show "length (rb_contents (rb_enqueue x rb)) =
        length ((if ?n = ?c then tl (rb_contents rb) else rb_contents rb) @ [x])"
      using False by (simp add: e)
  next
    fix i
    assume "i < length (rb_contents (rb_enqueue x rb))"
    then have "i < Suc ?n" by (simp add: e)
    then consider "i = ?n" | "i < ?n" by linarith
    then show "rb_contents (rb_enqueue x rb) ! i =
        ((if ?n = ?c then tl (rb_contents rb) else rb_contents rb) @ [x]) ! i"
    proof cases
      case 1
      have "(?h + ?n) mod ?c < ?c"
        using c by (intro mod_less_divisor) linarith
      then show ?thesis
        using 1 False by (simp add: e rb_contents_nth nth_append)
    next
      case 2
      then show ?thesis
        using False c mod_ring_distinct [of i ?n ?c ?h]
        by (simp add: e rb_contents_nth nth_append)
    qed
  qed
qed

lemma rb_dequeue_contents:
  assumes inv: "rb_inv rb" and "0 < rb_size rb"
  shows "\<exists>rb'. rb_dequeue rb = (Some (hd (rb_contents rb)), rb') \<and> rb_inv rb'
     \<and> rb_contents rb' = tl (rb_contents rb) \<and> length (rb_data rb') = length (rb_data rb)"
proof -
  let ?c = "length (rb_data rb)" and ?h = "rb_head rb"
  let ?rb = "rb\<lparr>rb_head := Suc ?h mod ?c, rb_size := rb_size rb - 1\<rparr>"
  have h: "?h < ?c" and s: "rb_size rb < 2 ^ 64"
    using inv by (auto simp: rb_inv_def)
  have "sub64 (rb_size rb) 1 = rb_size rb - 1"
    using assms s by (intro sub64_exact) auto
  moreover have "hd (rb_contents rb) = rb_data rb ! ?h"
    using assms h by (simp add: hd_conv_nth rb_contents_nth flip: length_greater_0_conv)
  ultimately have "rb_dequeue rb = (Some (hd (rb_contents rb)), ?rb)"
    using inv h by (simp add: rb_dequeue_def Let_def)
  moreover have "rb_contents ?rb = tl (rb_contents rb)"
    by (rule nth_equalityI) (auto simp: rb_contents_nth nth_tl mod_simps)
  moreover have "rb_inv ?rb"
    using inv by (auto simp: rb_inv_def)
  ultimately show ?thesis by auto
qed

section \<open>The contract, and what a log gets from it\<close>

locale bounded_log =
  fixes invar :: "'s \<Rightarrow> bool"
    and contents :: "'s \<Rightarrow> 'a list"
    and capacity :: "'s \<Rightarrow> nat"
    and put :: "'a \<Rightarrow> 's \<Rightarrow> 's"
  assumes put_invar: "invar s \<Longrightarrow> invar (put x s)"
    and put_capacity: "invar s \<Longrightarrow> capacity (put x s) = capacity s"
    and bounded: "invar s \<Longrightarrow> length (contents s) \<le> capacity s"
    and put_contents: "invar s \<Longrightarrow> contents (put x s) =
      (if length (contents s) = capacity s then tl (contents s) else contents s) @ [x]"
begin

lemma put_last: "invar s \<Longrightarrow> 0 < capacity s \<Longrightarrow>
    contents (put x s) = drop (length (contents s) + 1 - capacity s) (contents s @ [x])"
  using bounded [of s] by (cases "length (contents s) = capacity s")
    (auto simp: put_contents drop_Suc tl_append split: list.split)

lemma fold_put_last:
  "invar s \<Longrightarrow> 0 < capacity s \<Longrightarrow>
     invar (fold put xs s) \<and> capacity (fold put xs s) = capacity s \<and>
     contents (fold put xs s) =
       drop (length (contents s) + length xs - capacity s) (contents s @ xs)"
proof (induction xs arbitrary: s)
  case Nil
  then show ?case using bounded [of s] by simp
next
  case (Cons x xs)
  let ?d = "length (contents s) + 1 - capacity s"
  have p: "contents (put x s) = drop ?d (contents s @ [x])"
    using Cons.prems by (rule put_last)
  have "contents (fold put (x # xs) s) =
      drop (length (contents (put x s)) + length xs - capacity s) (contents (put x s) @ xs)"
    using Cons.IH [of "put x s"] Cons.prems by (simp add: put_invar put_capacity)
  also have "contents (put x s) @ xs = drop ?d (contents s @ x # xs)"
    using bounded [of s] Cons.prems by (simp add: p)
  also have "drop (length (contents (put x s)) + length xs - capacity s) \<dots> =
      drop (length (contents s) + length (x # xs) - capacity s) (contents s @ x # xs)"
    using bounded [of s] Cons.prems
    by (cases "length (contents s) = capacity s") (simp_all only: drop_drop p, simp_all)
  finally show ?case
    using Cons.IH [of "put x s"] Cons.prems by (simp add: put_invar put_capacity)
qed

end

interpretation ring_log: bounded_log rb_inv rb_contents "\<lambda>rb. length (rb_data rb)" rb_enqueue
  by unfold_locales (simp_all add: rb_enqueue_inv rb_enqueue_contents rb_inv_size)

section \<open>The kernel log\<close>

definition put_char :: "char \<Rightarrow> char ring_buffer \<Rightarrow> char ring_buffer" where
  "put_char ch buffer = rb_enqueue ch buffer"

definition early_initialise :: "char ring_buffer" where
  "early_initialise = rb_new (CHR 0x00) (KiB 128)"

text \<open>
  \<open>DmesgDevice::read\<close> copies from the array at the caller's offset, without regard to the
  head. \<open>None\<close>: the index is outside the array, or the copy runs past its end.
\<close>

definition dmesg_read :: "char ring_buffer \<Rightarrow> nat \<Rightarrow> nat \<Rightarrow> char list option" where
  "dmesg_read buffer data_size offset =
     (let sz = min data_size (sub64 (rb_size buffer) offset) in do {
        rb_index buffer offset;
        ensure (offset + sz \<le> length (rb_data buffer));
        Some (take sz (drop offset (rb_data buffer)))
      })"

text \<open>
  C32. The kernel log keeps exactly the most recent characters: after any text was printed
  into a fresh log, its contents, oldest first, are the last 128 KiB of that text.
\<close>

theorem dmesg_keeps_last:
  "rb_contents (fold put_char msg early_initialise) = drop (length msg - 131072) msg"
proof -
  have "put_char = rb_enqueue"
    by (intro ext) (simp add: put_char_def)
  then show ?thesis
    using ring_log.fold_put_last [of early_initialise msg] rb_new_inv [of 131072 "CHR 0x00"]
    by (simp add: early_initialise_def KiB_def)
qed

text \<open>
  Reading the log at an offset past what was written (the reader does not know how much
  that is) does not return zero bytes: the remaining length wraps around, so the copy leaves
  the log's array.
\<close>

theorem dmesg_read_past_end:
  assumes "rb_size buffer < offset" and "offset < 2 ^ 64" and "rb_inv buffer"
    and "length (rb_data buffer) - offset < data_size" and "data_size < 2 ^ 62"
    and "offset < 2 ^ 62"
  shows "dmesg_read buffer data_size offset = None"
proof -
  have "sub64 (rb_size buffer) offset = 2 ^ 64 - (offset - rb_size buffer)"
    using assms by (intro sub64_wrap) auto
  then have "min data_size (sub64 (rb_size buffer) offset) = data_size"
    using assms by simp
  then show ?thesis
    using assms by (auto simp: dmesg_read_def rb_index_def Let_def)
qed

theorem dmesg_read_past_end_witness:
  "dmesg_read (rb_new (CHR ''x'') 4) 8 1 = None"
  by (rule dmesg_read_past_end) (simp_all add: rb_new_def rb_inv_def)

end
