(* ===== verification/Channel.thy ===== *)
theory Channel
  imports Prelude
begin

text \<open>
  The contract of a byte channel: what a reader and a writer of a pipe or a socket rely on.
  The operations are a bounded read and a bounded write; the laws say that a read takes a
  prefix of what is buffered and that a write appends a prefix of what it is given. From the
  laws alone follows the integrity of the stream over any interleaving of reads and writes.
\<close>

datatype 'a chan_op = Send "'a list" | Recv nat

text \<open>Running a sequence of operations: the bytes accepted, the bytes delivered, the end state.\<close>

fun channel_run ::
    "(nat \<Rightarrow> 's \<Rightarrow> 'a list \<times> 's) \<Rightarrow> ('a list \<Rightarrow> 's \<Rightarrow> nat \<times> 's) \<Rightarrow>
     'a chan_op list \<Rightarrow> 's \<Rightarrow> 'a list \<times> 'a list \<times> 's" where
  "channel_run recv send [] s = ([], [], s)"
| "channel_run recv send (Send xs # ops) s =
     (let (k, s1) = send xs s; (sent, got, s2) = channel_run recv send ops s1
      in (take k xs @ sent, got, s2))"
| "channel_run recv send (Recv n # ops) s =
     (let (out, s1) = recv n s; (sent, got, s2) = channel_run recv send ops s1
      in (sent, out @ got, s2))"

locale byte_channel =
  fixes invar :: "'s \<Rightarrow> bool"
    and contents :: "'s \<Rightarrow> 'a list"
    and recv :: "nat \<Rightarrow> 's \<Rightarrow> 'a list \<times> 's"
    and send :: "'a list \<Rightarrow> 's \<Rightarrow> nat \<times> 's"
  assumes recv_law: "invar s \<Longrightarrow> recv n s = (out, s') \<Longrightarrow>
      invar s' \<and> contents s = out @ contents s' \<and> length out \<le> n"
    and recv_progress: "invar s \<Longrightarrow> 0 < n \<Longrightarrow> contents s \<noteq> [] \<Longrightarrow> fst (recv n s) \<noteq> []"
    and send_law: "invar s \<Longrightarrow> send xs s = (k, s') \<Longrightarrow>
      invar s' \<and> k \<le> length xs \<and> contents s' = contents s @ take k xs"
begin

lemma channel_stream:
  "invar s \<Longrightarrow> channel_run recv send ops s = (sent, got, s') \<Longrightarrow>
     invar s' \<and> contents s @ sent = got @ contents s'"
proof (induction ops arbitrary: s sent got)
  case (Cons op ops)
  show ?case
  proof (cases op)
    case (Send xs)
    obtain k s1 where ks: "send xs s = (k, s1)" by fastforce
    obtain sent1 where run: "channel_run recv send ops s1 = (sent1, got, s')"
      and sent: "sent = take k xs @ sent1"
      using Cons.prems Send ks by (auto split: prod.splits)
    have "invar s1 \<and> contents s1 = contents s @ take k xs"
      using send_law [OF Cons.prems(1) ks] by simp
    then show ?thesis using Cons.IH [OF _ run] sent by simp
  next
    case (Recv n)
    obtain out s1 where os: "recv n s = (out, s1)" by fastforce
    obtain got1 where run: "channel_run recv send ops s1 = (sent, got1, s')"
      and got: "got = out @ got1"
      using Cons.prems Recv os by (auto split: prod.splits)
    have "invar s1 \<and> contents s = out @ contents s1"
      using recv_law [OF Cons.prems(1) os] by simp
    then show ?thesis using Cons.IH [OF _ run] got by simp
  qed
qed simp

text \<open>Nothing is lost: a read of a positive size from a channel that holds data returns some.\<close>

lemma recv_nonempty:
  "invar s \<Longrightarrow> 0 < n \<Longrightarrow> contents s \<noteq> [] \<Longrightarrow>
     \<exists>x out s'. recv n s = (x # out, s') \<and> x = hd (contents s)"
proof -
  assume a: "invar s" "0 < n" "contents s \<noteq> []"
  obtain out s' where os: "recv n s = (out, s')" by fastforce
  then have "out \<noteq> []" using recv_progress [OF a] by simp
  then obtain x ys where "out = x # ys" by (cases out) auto
  then show ?thesis using recv_law [OF a(1) os] os by auto
qed

end

end
