(* ===== verification/Double_Buffer.thy ===== *)
theory Double_Buffer
  imports Numeric Channel
begin

text \<open>
  \<open>DoubleBuffer\<close> (\<^verbatim>\<open>src/kernel/ipc/double_buffer.cc\<close>), the storage of pipes and
  sockets: one array split in two halves, a buffer that is being read and a buffer that is
  being written, swapped when the reader has drained its half. The two \<open>Buffer\<close> members
  and the two pointers to them are kept as in the class. The operations hold the lock for
  their whole body, so each is one atomic step.
\<close>

datatype which = Buffer1 | Buffer2

record buffer =
  buf_data :: nat
  buf_size :: nat

record double_buffer =
  db_data :: "u8 list"
  db_size :: nat
  db_buffer1 :: buffer
  db_buffer2 :: buffer
  db_read_buffer :: which
  db_write_buffer :: which
  db_read_position :: nat

fun deref :: "double_buffer \<Rightarrow> which \<Rightarrow> buffer" where
  "deref db Buffer1 = db_buffer1 db"
| "deref db Buffer2 = db_buffer2 db"

fun set_size :: "double_buffer \<Rightarrow> which \<Rightarrow> nat \<Rightarrow> double_buffer" where
  "set_size db Buffer1 n = db\<lparr>db_buffer1 := (db_buffer1 db)\<lparr>buf_size := n\<rparr>\<rparr>"
| "set_size db Buffer2 n = db\<lparr>db_buffer2 := (db_buffer2 db)\<lparr>buf_size := n\<rparr>\<rparr>"

abbreviation read_buffer :: "double_buffer \<Rightarrow> buffer" where
  "read_buffer db \<equiv> deref db (db_read_buffer db)"

abbreviation write_buffer :: "double_buffer \<Rightarrow> buffer" where
  "write_buffer db \<equiv> deref db (db_write_buffer db)"

text \<open>The constructor; the fresh array holds unspecified bytes, here zeros.\<close>

definition db_new :: "nat \<Rightarrow> double_buffer" where
  "db_new sz =
     \<lparr>db_data = replicate (mul64 sz 2) 0, db_size = sz,
      db_buffer1 = \<lparr>buf_data = sz, buf_size = 0\<rparr>,
      db_buffer2 = \<lparr>buf_data = 0, buf_size = 0\<rparr>,
      db_read_buffer = Buffer1, db_write_buffer = Buffer2, db_read_position = 0\<rparr>"

definition db_empty :: "double_buffer \<Rightarrow> bool" where
  "db_empty db \<longleftrightarrow>
     buf_size (read_buffer db) \<le> db_read_position db \<and> buf_size (write_buffer db) = 0"

definition db_full :: "double_buffer \<Rightarrow> bool" where
  "db_full db \<longleftrightarrow> sub64 (db_size db) (buf_size (write_buffer db)) = 0"

definition db_swap :: "double_buffer \<Rightarrow> double_buffer" where
  "db_swap db =
     (let db' = db\<lparr>db_read_buffer := db_write_buffer db, db_write_buffer := db_read_buffer db,
                   db_read_position := 0\<rparr>
      in set_size db' (db_write_buffer db') 0)"

definition db_refill :: "double_buffer \<Rightarrow> double_buffer" where
  "db_refill db =
     (if buf_size (read_buffer db) \<le> db_read_position db \<and> buf_size (write_buffer db) \<noteq> 0
      then db_swap db else db)"

definition db_read :: "nat \<Rightarrow> double_buffer \<Rightarrow> u8 list \<times> double_buffer" where
  "db_read data_size db0 =
     (let db = db_refill db0; rb = read_buffer db; pos = db_read_position db
      in if buf_size rb \<le> pos then ([], db)
         else let read_size = min data_size (sub64 (buf_size rb) pos)
              in (mem_read (add64 (buf_data rb) pos) read_size (db_data db),
                  db\<lparr>db_read_position := add64 pos read_size\<rparr>))"

definition db_write :: "u8 list \<Rightarrow> double_buffer \<Rightarrow> nat \<times> double_buffer" where
  "db_write data db =
     (let wb = write_buffer db;
          write_size = min (length data) (sub64 (db_size db) (buf_size wb));
          db' = db\<lparr>db_data :=
                   mem_write (add64 (buf_data wb) (buf_size wb)) (take write_size data) (db_data db)\<rparr>
      in (write_size, set_size db' (db_write_buffer db) (add64 (buf_size wb) write_size)))"

section \<open>What is buffered\<close>

definition db_bytes :: "double_buffer \<Rightarrow> which \<Rightarrow> u8 list" where
  "db_bytes db w = mem_read (buf_data (deref db w)) (buf_size (deref db w)) (db_data db)"

definition db_contents :: "double_buffer \<Rightarrow> u8 list" where
  "db_contents db =
     drop (db_read_position db) (db_bytes db (db_read_buffer db)) @ db_bytes db (db_write_buffer db)"

definition db_inv :: "double_buffer \<Rightarrow> bool" where
  "db_inv db \<longleftrightarrow>
     length (db_data db) = 2 * db_size db \<and> 2 * db_size db < 2 ^ 64 \<and>
     (buf_data (db_buffer1 db) = 0 \<and> buf_data (db_buffer2 db) = db_size db \<or>
      buf_data (db_buffer1 db) = db_size db \<and> buf_data (db_buffer2 db) = 0) \<and>
     buf_size (db_buffer1 db) \<le> db_size db \<and> buf_size (db_buffer2 db) \<le> db_size db \<and>
     db_read_buffer db \<noteq> db_write_buffer db \<and>
     db_read_position db \<le> buf_size (read_buffer db)"

lemma db_new_inv: "2 * sz < 2 ^ 64 \<Longrightarrow> db_inv (db_new sz)"
  by (auto simp: db_inv_def db_new_def mul64_exact)

lemma db_new_contents [simp]: "db_contents (db_new sz) = []"
  by (simp add: db_contents_def db_bytes_def db_new_def)

lemma which_other: "(w :: which) \<noteq> w' \<Longrightarrow> v = w \<or> v = w'"
  by (cases w; cases w'; cases v) auto

lemma set_size_frame [simp]:
  "db_data (set_size db w n) = db_data db" "db_size (set_size db w n) = db_size db"
  "db_read_buffer (set_size db w n) = db_read_buffer db"
  "db_write_buffer (set_size db w n) = db_write_buffer db"
  "db_read_position (set_size db w n) = db_read_position db"
  by (cases w; simp)+

lemma deref_set_size [simp]:
  "deref (set_size db w n) v =
     (if v = w then (deref db v)\<lparr>buf_size := n\<rparr> else deref db v)"
  by (cases w; cases v) auto

lemma deref_frame [simp]:
  "deref (db\<lparr>db_data := d\<rparr>) w = deref db w"
  "deref (db\<lparr>db_read_buffer := r\<rparr>) w = deref db w"
  "deref (db\<lparr>db_write_buffer := r\<rparr>) w = deref db w"
  "deref (db\<lparr>db_read_position := p\<rparr>) w = deref db w"
  by (cases w; simp)+

text \<open>
  The invariant, without the two member names: the buffer pointed at by \<open>w\<close> lies in one
  half of the array.
\<close>

lemma db_inv_alt:
  "db_inv db \<longleftrightarrow>
     length (db_data db) = 2 * db_size db \<and> 2 * db_size db < 2 ^ 64 \<and>
     db_read_buffer db \<noteq> db_write_buffer db \<and>
     (buf_data (read_buffer db) = 0 \<and> buf_data (write_buffer db) = db_size db \<or>
      buf_data (read_buffer db) = db_size db \<and> buf_data (write_buffer db) = 0) \<and>
     buf_size (read_buffer db) \<le> db_size db \<and> buf_size (write_buffer db) \<le> db_size db \<and>
     db_read_position db \<le> buf_size (read_buffer db)"
  by (cases "db_read_buffer db"; cases "db_write_buffer db") (auto simp: db_inv_def)

lemma db_invD:
  assumes "db_inv db"
  shows "buf_data (deref db w) + db_size db \<le> length (db_data db)"
    and "buf_size (deref db w) \<le> db_size db"
    and "buf_size (deref db w) < 2 ^ 64"
    and "buf_data (deref db w) + db_size db < 2 ^ 64"
  using assms by (cases w; auto simp: db_inv_def)+

lemma db_inv_size: "db_inv db \<Longrightarrow> db_size db < 2 ^ 64"
  by (simp add: db_inv_def)

lemma db_swap_inv: "db_inv db \<Longrightarrow> db_inv (db_swap db)"
  by (auto simp: db_inv_alt db_swap_def Let_def)

lemma length_db_bytes: "db_inv db \<Longrightarrow> length (db_bytes db w) = buf_size (deref db w)"
  using db_invD [of db w] by (simp add: db_bytes_def)

lemma db_swap_contents:
  assumes "db_inv db" and "buf_size (read_buffer db) \<le> db_read_position db"
  shows "db_contents (db_swap db) = db_contents db"
proof -
  have "db_read_buffer db \<noteq> db_write_buffer db"
    using assms(1) by (simp add: db_inv_alt)
  then show ?thesis
    using assms(2) length_db_bytes [OF assms(1), of "db_read_buffer db"]
    by (simp add: db_contents_def db_bytes_def db_swap_def Let_def)
qed

lemma db_refill_inv: "db_inv db \<Longrightarrow> db_inv (db_refill db)"
  by (simp add: db_refill_def db_swap_inv)

lemma db_refill_contents: "db_inv db \<Longrightarrow> db_contents (db_refill db) = db_contents db"
  by (simp add: db_refill_def db_swap_contents)

lemma db_refill_data:
  assumes "db_inv db" and "db_contents db \<noteq> []"
  shows "db_read_position (db_refill db) < buf_size (read_buffer (db_refill db))"
proof (cases "buf_size (read_buffer db) \<le> db_read_position db")
  case True
  then have "db_bytes db (db_write_buffer db) \<noteq> []"
    using assms length_db_bytes [of db "db_read_buffer db"] by (simp add: db_contents_def)
  then have "buf_size (write_buffer db) \<noteq> 0"
    using length_db_bytes [OF assms(1), of "db_write_buffer db"] by (metis length_0_conv)
  moreover have "db_read_buffer db \<noteq> db_write_buffer db"
    using assms(1) by (simp add: db_inv_alt)
  ultimately show ?thesis
    using True by (simp add: db_refill_def db_swap_def Let_def)
next
  case False
  then show ?thesis by (simp add: db_refill_def)
qed

section \<open>The operations on the contents\<close>

lemma db_read_data:
  assumes inv: "db_inv db" and pos: "db_read_position (db_refill db) < buf_size (read_buffer (db_refill db))"
  shows "db_read n db =
     (let d = db_refill db; k = min n (buf_size (read_buffer d) - db_read_position d)
      in (mem_read (buf_data (read_buffer d) + db_read_position d) k (db_data d),
          d\<lparr>db_read_position := db_read_position d + k\<rparr>))"
  using pos db_invD [OF db_refill_inv [OF inv], of "db_read_buffer (db_refill db)"]
  by (simp add: db_read_def Let_def sub64_exact add64_exact)

lemma db_read_law:
  assumes inv: "db_inv db" and rd: "db_read n db = (out, db')"
  shows "db_inv db' \<and> db_contents db = out @ db_contents db' \<and> length out \<le> n"
proof -
  define d where "d = db_refill db"
  have dinv: "db_inv d" and dcont: "db_contents d = db_contents db"
    using inv by (simp_all add: d_def db_refill_inv db_refill_contents)
  let ?p = "db_read_position d" and ?b = "read_buffer d"
  show ?thesis
  proof (cases "buf_size ?b \<le> ?p")
    case True
    then show ?thesis using rd dinv dcont by (simp add: db_read_def Let_def d_def)
  next
    case False
    let ?k = "min n (buf_size ?b - ?p)"
    have out: "out = mem_read (buf_data ?b + ?p) ?k (db_data d)"
      and db': "db' = d\<lparr>db_read_position := ?p + ?k\<rparr>"
      using rd False db_read_data [OF inv, of n] by (auto simp: d_def Let_def)
    have bytes: "db_bytes db' = db_bytes d"
      by (intro ext) (simp add: db' db_bytes_def)
    have "drop ?p (db_bytes d (db_read_buffer d)) = out @ drop (?p + ?k) (db_bytes d (db_read_buffer d))"
      using False mem_read_split [of ?k "buf_size ?b - ?p" "buf_data ?b + ?p" "db_data d"]
      by (simp add: db_bytes_def drop_mem_read out add.assoc)
    then have "db_contents d = out @ db_contents db'"
      unfolding db_contents_def bytes by (simp add: db')
    moreover have "db_inv db'"
      using dinv False by (auto simp: db_inv_alt db')
    moreover have "length out \<le> n"
      by (simp add: out mem_read_def)
    ultimately show ?thesis
      using dcont by simp
  qed
qed

lemma db_read_progress:
  assumes inv: "db_inv db" and "0 < n" and "db_contents db \<noteq> []"
  shows "fst (db_read n db) \<noteq> []"
  using db_read_data [OF inv db_refill_data [OF inv assms(3)], of n] assms(2)
    db_refill_data [OF inv assms(3)]
    db_invD [OF db_refill_inv [OF inv], of "db_read_buffer (db_refill db)"]
  by (auto simp: Let_def mem_read_def)

lemma db_write_law:
  assumes inv: "db_inv db" and wr: "db_write data db = (k, db')"
  shows "db_inv db' \<and> k \<le> length data \<and> db_contents db' = db_contents db @ take k data"
    and "k = min (length data) (db_size db - buf_size (write_buffer db))"
proof -
  let ?w = "write_buffer db"
  let ?k = "min (length data) (db_size db - buf_size ?w)"
  let ?data = "mem_write (buf_data ?w + buf_size ?w) (take ?k data) (db_data db)"
  have b: "buf_data ?w + db_size db \<le> length (db_data db)" "buf_size ?w \<le> db_size db"
    using db_invD [OF inv] by auto
  have k: "k = ?k"
    and db': "db' = set_size (db\<lparr>db_data := ?data\<rparr>) (db_write_buffer db) (buf_size ?w + ?k)"
    using wr b db_invD [OF inv, of "db_write_buffer db"] db_inv_size [OF inv]
    by (auto simp: db_write_def Let_def sub64_exact add64_exact)
  then show "k = ?k" by simp
  have ne: "db_read_buffer db \<noteq> db_write_buffer db"
    using inv by (simp add: db_inv_alt)
  have "buf_data (read_buffer db) + buf_size (read_buffer db) \<le> buf_data ?w + buf_size ?w
      \<or> buf_data ?w + buf_size ?w + ?k \<le> buf_data (read_buffer db)"
    using inv by (auto simp: db_inv_alt)
  moreover have "buf_data (read_buffer db) + buf_size (read_buffer db) \<le> length (db_data db)"
    using db_invD(1,2) [OF inv, of "db_read_buffer db"] by linarith
  ultimately have other: "db_bytes db' (db_read_buffer db) = db_bytes db (db_read_buffer db)"
    using ne b by (simp add: db_bytes_def db' mem_read_write_disjoint)
  have own: "db_bytes db' (db_write_buffer db) = db_bytes db (db_write_buffer db) @ take k data"
    using b mem_read_write_append [of "buf_data ?w" "buf_size ?w" "take ?k data" "db_data db"]
    by (simp add: db_bytes_def db' k)
  have "db_inv db'"
    using inv b by (auto simp: db_inv_alt db')
  moreover have "db_contents db' = db_contents db @ take k data"
    using other own by (simp add: db_contents_def db')
  ultimately show "db_inv db' \<and> k \<le> length data \<and> db_contents db' = db_contents db @ take k data"
    using k by simp
qed

interpretation db: byte_channel db_inv db_contents db_read db_write
  using db_read_law db_read_progress db_write_law(1) by unfold_locales

text \<open>
  C12. A double buffer is a reliable stream: over any interleaving of reads and writes of any
  sizes, starting empty, the bytes delivered followed by the bytes still buffered are the
  bytes the writes accepted, in order, none lost, none repeated.
\<close>

theorem double_buffer_stream:
  assumes "2 * sz < 2 ^ 64" and "channel_run db_read db_write ops (db_new sz) = (sent, got, db')"
  shows "sent = got @ db_contents db'"
  using db.channel_stream [OF db_new_inv [OF assms(1)] assms(2)] by simp

theorem double_buffer_stream_witness:
  "let r = channel_run db_read db_write [Send [1, 2], Recv 1] (db_new 2)
   in fst r = [1, 2] \<and> fst r = fst (snd r) @ db_contents (snd (snd r))"
proof -
  let ?ops = "[Send [1, 2], Recv 1]"
  let ?r = "channel_run db_read db_write ?ops (db_new 2)"
  have "fst ?r = [1, 2]"
    by (simp add: db_read_def db_write_def db_refill_def db_swap_def db_new_def Let_def
        add64_def sub64_def mul64_def)
  moreover have "fst ?r = fst (snd ?r) @ db_contents (snd (snd ?r))"
    by (rule double_buffer_stream [where sz = 2 and ops = ?ops]) simp_all
  ultimately show ?thesis by (simp only: Let_def simp_thms)
qed

lemma db_empty_contents:
  assumes "db_inv db"
  shows "db_empty db \<longleftrightarrow> db_contents db = []"
  using length_db_bytes [OF assms, of "db_read_buffer db"] length_db_bytes [OF assms, of "db_write_buffer db"]
  by (auto simp: db_empty_def db_contents_def simp flip: length_0_conv)

text \<open>
  C33. A write is refused only when the half being written is full, and a reader is told to
  wait exactly when nothing is buffered: \<open>empty\<close> is emptiness of the contents, and a write
  to a buffer that is not \<open>full\<close> accepts at least one byte.
\<close>

theorem double_buffer_blocking:
  assumes "db_inv db"
  shows "(db_empty db \<longleftrightarrow> db_contents db = []) \<and>
     (\<not> db_full db \<longrightarrow> data \<noteq> [] \<longrightarrow> 0 < fst (db_write data db)) \<and>
     (db_full db \<longrightarrow> fst (db_write data db) = 0)"
proof -
  have "db_empty db \<longleftrightarrow> db_contents db = []"
    using db_empty_contents [OF assms] .
  moreover have "db_full db \<longleftrightarrow> db_size db - buf_size (write_buffer db) = 0"
    using db_invD [OF assms, of "db_write_buffer db"] db_inv_size [OF assms]
    by (simp add: db_full_def sub64_exact)
  moreover have "fst (db_write data db) = min (length data) (db_size db - buf_size (write_buffer db))"
    using db_write_law(2) [OF assms, of data] by (cases "db_write data db") simp
  ultimately show ?thesis by auto
qed

theorem double_buffer_blocking_witness:
  "db_empty (db_new 4) \<and> 0 < fst (db_write [7] (db_new 4))"
proof -
  have "\<not> db_full (db_new 4)"
    by (simp add: db_full_def db_new_def sub64_def)
  then show ?thesis
    using double_buffer_blocking [OF db_new_inv [of 4], of "[7]"] by simp
qed

end
