(* ===== verification/Ipc.thy ===== *)
theory Ipc
  imports Double_Buffer
begin

text \<open>
  Pipes, sockets and server sockets (\<^verbatim>\<open>src/kernel/ipc\<close>). Double buffers and sockets
  are reference counted (\<^verbatim>\<open>src/ustd/shareable.hh\<close>, \<^verbatim>\<open>src/ustd/shared_ptr.hh\<close>) and
  shared between the two ends of a connection, so they live in a store of counted objects;
  an operation on a dangling pointer is \<open>None\<close>. A count is a natural number: the 32-bit
  counter of the code would need four billion handles to wrap.
\<close>

section \<open>Shared objects\<close>

type_synonym 'a shared = "nat \<rightharpoonup> ('a \<times> nat)"

definition add_ref :: "nat \<Rightarrow> 'a shared \<Rightarrow> 'a shared option" where
  "add_ref p h = (case h p of None \<Rightarrow> None | Some (x, n) \<Rightarrow> Some (h(p \<mapsto> (x, n + 1))))"

definition sub_ref :: "nat \<Rightarrow> 'a shared \<Rightarrow> 'a shared option" where
  "sub_ref p h =
     (case h p of None \<Rightarrow> None
      | Some (x, n) \<Rightarrow> if n = 1 then Some (h(p := None)) else Some (h(p \<mapsto> (x, n - 1))))"

definition ref_count :: "'a shared \<Rightarrow> nat \<Rightarrow> nat" where
  "ref_count h p = (case h p of None \<Rightarrow> 0 | Some (x, n) \<Rightarrow> n)"

section \<open>Pipes\<close>

datatype attach_direction = ReadDir | WriteDir | ReadWriteDir

record pipe =
  pipe_buffer :: double_buffer
  pipe_reader_count :: nat
  pipe_writer_count :: nat

definition pipe_new :: pipe where
  "pipe_new = \<lparr>pipe_buffer = db_new (KiB 64), pipe_reader_count = 0, pipe_writer_count = 0\<rparr>"

definition pipe_attach :: "attach_direction \<Rightarrow> pipe \<Rightarrow> pipe option" where
  "pipe_attach direction p = do {
     ensure (direction \<noteq> ReadWriteDir);
     Some (if direction = ReadDir then p\<lparr>pipe_reader_count := pipe_reader_count p + 1\<rparr>
           else if direction = WriteDir then p\<lparr>pipe_writer_count := pipe_writer_count p + 1\<rparr>
           else p)
   }"

definition pipe_detach :: "attach_direction \<Rightarrow> pipe \<Rightarrow> pipe option" where
  "pipe_detach direction p = do {
     ensure (direction \<noteq> ReadWriteDir);
     if direction = ReadDir then do {
       ensure (0 < pipe_reader_count p);
       Some (p\<lparr>pipe_reader_count := pipe_reader_count p - 1\<rparr>)
     } else if direction = WriteDir then do {
       ensure (0 < pipe_writer_count p);
       Some (p\<lparr>pipe_writer_count := pipe_writer_count p - 1\<rparr>)
     } else Some p
   }"

definition pipe_read_would_block :: "pipe \<Rightarrow> bool" where
  "pipe_read_would_block p \<longleftrightarrow> pipe_writer_count p \<noteq> 0 \<and> db_empty (pipe_buffer p)"

definition pipe_write_would_block :: "pipe \<Rightarrow> bool" where
  "pipe_write_would_block p \<longleftrightarrow> db_full (pipe_buffer p)"

definition pipe_read :: "nat \<Rightarrow> pipe \<Rightarrow> u8 list \<times> pipe" where
  "pipe_read n p = (let (out, b) = db_read n (pipe_buffer p) in (out, p\<lparr>pipe_buffer := b\<rparr>))"

definition pipe_write :: "u8 list \<Rightarrow> pipe \<Rightarrow> nat \<times> pipe" where
  "pipe_write data p = (let (k, b) = db_write data (pipe_buffer p) in (k, p\<lparr>pipe_buffer := b\<rparr>))"

abbreviation pipe_inv :: "pipe \<Rightarrow> bool" where
  "pipe_inv p \<equiv> db_inv (pipe_buffer p)"

abbreviation pipe_contents :: "pipe \<Rightarrow> u8 list" where
  "pipe_contents p \<equiv> db_contents (pipe_buffer p)"

lemma pipe_new_inv: "pipe_inv pipe_new"
  by (simp add: pipe_new_def db_new_inv KiB_def)

interpretation pipe: byte_channel "\<lambda>p. pipe_inv p" "\<lambda>p. pipe_contents p" pipe_read pipe_write
proof unfold_locales
  fix s s' :: pipe and n out
  assume "pipe_inv s" and "pipe_read n s = (out, s')"
  then show "pipe_inv s' \<and> pipe_contents s = out @ pipe_contents s' \<and> length out \<le> n"
    using db.recv_law by (auto simp: pipe_read_def split: prod.splits)
next
  fix s :: pipe and n :: nat
  assume "pipe_inv s" and "0 < n" and "pipe_contents s \<noteq> []"
  then show "fst (pipe_read n s) \<noteq> []"
    using db.recv_progress [of "pipe_buffer s" n] by (simp add: pipe_read_def split_beta)
next
  fix s s' :: pipe and xs k
  assume "pipe_inv s" and "pipe_write xs s = (k, s')"
  then show "pipe_inv s' \<and> k \<le> length xs \<and> pipe_contents s' = pipe_contents s @ take k xs"
    using db.send_law by (auto simp: pipe_write_def split: prod.splits)
qed

section \<open>Sockets\<close>

record socket =
  sock_read_buffer :: nat
  sock_write_buffer :: nat

record ipc =
  ipc_bufs :: "double_buffer shared"
  ipc_socks :: "socket shared"
  ipc_next :: nat

text \<open>\<open>new DoubleBuffer(size)\<close>: a fresh address with a count of zero.\<close>

definition new_buffer :: "nat \<Rightarrow> ipc \<Rightarrow> nat \<times> ipc" where
  "new_buffer sz st =
     (ipc_next st, st\<lparr>ipc_bufs := (ipc_bufs st)(ipc_next st \<mapsto> (db_new sz, 0)),
                      ipc_next := ipc_next st + 1\<rparr>)"

text \<open>\<open>make_shared<Socket>(read, write)\<close>: both buffers gain a reference, the socket has one.\<close>

definition make_socket :: "nat \<Rightarrow> nat \<Rightarrow> ipc \<Rightarrow> (nat \<times> ipc) option" where
  "make_socket r w st = do {
     b1 \<leftarrow> add_ref r (ipc_bufs st);
     b2 \<leftarrow> add_ref w b1;
     Some (ipc_next st,
           st\<lparr>ipc_bufs := b2,
              ipc_socks := (ipc_socks st)(ipc_next st \<mapsto>
                (\<lparr>sock_read_buffer = r, sock_write_buffer = w\<rparr>, 1)),
              ipc_next := ipc_next st + 1\<rparr>)
   }"

text \<open>Dropping a reference to a socket; the last one destroys it and its buffer references.\<close>

definition drop_socket :: "nat \<Rightarrow> ipc \<Rightarrow> ipc option" where
  "drop_socket p st =
     (case ipc_socks st p of
        None \<Rightarrow> None
      | Some (s, n) \<Rightarrow>
          if n = 1 then do {
            b1 \<leftarrow> sub_ref (sock_write_buffer s) (ipc_bufs st);
            b2 \<leftarrow> sub_ref (sock_read_buffer s) b1;
            Some (st\<lparr>ipc_bufs := b2, ipc_socks := (ipc_socks st)(p := None)\<rparr>)
          } else Some (st\<lparr>ipc_socks := (ipc_socks st)(p \<mapsto> (s, n - 1))\<rparr>))"

definition find_socket :: "ipc \<Rightarrow> nat \<Rightarrow> socket option" where
  "find_socket st p = map_option fst (ipc_socks st p)"

definition socket_read_would_block :: "nat \<Rightarrow> ipc \<Rightarrow> bool option" where
  "socket_read_would_block p st = do {
     s \<leftarrow> find_socket st p;
     (b, n) \<leftarrow> ipc_bufs st (sock_read_buffer s);
     Some (n = 2 \<and> db_empty b)
   }"

definition socket_write_would_block :: "nat \<Rightarrow> ipc \<Rightarrow> bool option" where
  "socket_write_would_block p st = do {
     s \<leftarrow> find_socket st p;
     (b, n) \<leftarrow> ipc_bufs st (sock_write_buffer s);
     Some (n = 2 \<and> db_full b)
   }"

definition socket_connected :: "nat \<Rightarrow> ipc \<Rightarrow> bool option" where
  "socket_connected p st = do {
     s \<leftarrow> find_socket st p;
     (b, n) \<leftarrow> ipc_bufs st (sock_read_buffer s);
     Some (n = 2)
   }"

definition socket_read :: "nat \<Rightarrow> nat \<Rightarrow> ipc \<Rightarrow> (u8 list \<times> ipc) option" where
  "socket_read p sz st = do {
     s \<leftarrow> find_socket st p;
     (b, n) \<leftarrow> ipc_bufs st (sock_read_buffer s);
     let (out, b') = db_read sz b in
     Some (out, st\<lparr>ipc_bufs := (ipc_bufs st)(sock_read_buffer s \<mapsto> (b', n))\<rparr>)
   }"

definition socket_write :: "nat \<Rightarrow> u8 list \<Rightarrow> ipc \<Rightarrow> (nat \<times> ipc) option" where
  "socket_write p data st = do {
     s \<leftarrow> find_socket st p;
     (b, n) \<leftarrow> ipc_bufs st (sock_write_buffer s);
     let (k, b') = db_write data b in
     Some (k, st\<lparr>ipc_bufs := (ipc_bufs st)(sock_write_buffer s \<mapsto> (b', n))\<rparr>)
   }"

section \<open>Server sockets\<close>

record server_socket =
  ss_queue :: "nat list"
  ss_capacity :: nat

text \<open>\<open>ensure_capacity\<close> on the empty vector reallocates to \<open>max (0 * 2 + 1) limit\<close>.\<close>

definition server_socket_new :: "nat \<Rightarrow> server_socket" where
  "server_socket_new backlog_limit =
     \<lparr>ss_queue = [],
      ss_capacity = (if 0 < backlog_limit then max (0 * 2 + 1) backlog_limit else 0)\<rparr>"

definition accept_would_block :: "server_socket \<Rightarrow> bool" where
  "accept_would_block ss \<longleftrightarrow> ss_queue ss = []"

definition queue_connection_from ::
    "nat \<Rightarrow> server_socket \<Rightarrow> ipc \<Rightarrow> (kerror + server_socket \<times> ipc) option" where
  "queue_connection_from sock ss st =
     (if ss_capacity ss \<le> length (ss_queue ss) + 1 then Some (Inl Busy)
      else do {
        socks \<leftarrow> add_ref sock (ipc_socks st);
        Some (Inr (ss\<lparr>ss_queue := ss_queue ss @ [sock]\<rparr>, st\<lparr>ipc_socks := socks\<rparr>))
      })"

definition accept :: "server_socket \<Rightarrow> ipc \<Rightarrow> (nat \<times> server_socket \<times> ipc) option" where
  "accept ss st =
     (case ss_queue ss of
        [] \<Rightarrow> None
      | client # rest \<Rightarrow> do {
          c \<leftarrow> find_socket st client;
          (server, st1) \<leftarrow> make_socket (sock_write_buffer c) (sock_read_buffer c) st;
          st2 \<leftarrow> drop_socket client st1;
          Some (server, ss\<lparr>ss_queue := rest\<rparr>, st2)
        })"

text \<open>The part of \<open>sys_connect\<close> that makes the client's socket.\<close>

definition new_client :: "ipc \<Rightarrow> (nat \<times> ipc) option" where
  "new_client st =
     (let (r, st1) = new_buffer (KiB 64) st; (w, st2) = new_buffer (KiB 64) st1
      in make_socket r w st2)"

section \<open>Well-formed connections\<close>

text \<open>How often a socket counts towards a buffer, and all sockets together.\<close>

definition sock_uses :: "socket \<Rightarrow> nat \<Rightarrow> nat" where
  "sock_uses s b =
     (if sock_read_buffer s = b then 1 else 0) + (if sock_write_buffer s = b then 1 else 0)"

definition sock_refs :: "socket shared \<Rightarrow> nat \<Rightarrow> nat" where
  "sock_refs h b = (\<Sum>p \<in> dom h. sock_uses (fst (the (h p))) b)"

definition ipc_inv :: "ipc \<Rightarrow> bool" where
  "ipc_inv st \<longleftrightarrow>
     finite (dom (ipc_socks st)) \<and>
     (\<forall>p \<in> dom (ipc_socks st). p < ipc_next st) \<and>
     (\<forall>b \<in> dom (ipc_bufs st). b < ipc_next st) \<and>
     (\<forall>b x n. ipc_bufs st b = Some (x, n) \<longrightarrow> db_inv x \<and> n = sock_refs (ipc_socks st) b) \<and>
     (\<forall>p s n. ipc_socks st p = Some (s, n) \<longrightarrow> 0 < n \<and>
        sock_read_buffer s \<in> dom (ipc_bufs st) \<and> sock_write_buffer s \<in> dom (ipc_bufs st))"

lemma ipc_invD:
  assumes "ipc_inv st"
  shows "finite (dom (ipc_socks st))"
    and "\<And>p. ipc_next st \<le> p \<Longrightarrow> ipc_socks st p = None"
    and "\<And>p. ipc_next st \<le> p \<Longrightarrow> ipc_bufs st p = None"
    and "\<And>b x n. ipc_bufs st b = Some (x, n) \<Longrightarrow> db_inv x \<and> n = sock_refs (ipc_socks st) b"
    and "\<And>p s n. ipc_socks st p = Some (s, n) \<Longrightarrow> 0 < n"
    and "\<And>p s n. ipc_socks st p = Some (s, n) \<Longrightarrow> \<exists>x m. ipc_bufs st (sock_read_buffer s) = Some (x, m)"
    and "\<And>p s n. ipc_socks st p = Some (s, n) \<Longrightarrow> \<exists>x m. ipc_bufs st (sock_write_buffer s) = Some (x, m)"
proof -
  note inv = assms [unfolded ipc_inv_def]
  show "finite (dom (ipc_socks st))"
    using inv by blast
  show "\<And>p. ipc_next st \<le> p \<Longrightarrow> ipc_socks st p = None"
    using inv by (meson domIff leD)
  show "\<And>p. ipc_next st \<le> p \<Longrightarrow> ipc_bufs st p = None"
    using inv by (meson domIff leD)
  show "\<And>b x n. ipc_bufs st b = Some (x, n) \<Longrightarrow> db_inv x \<and> n = sock_refs (ipc_socks st) b"
    using inv by blast
  show "\<And>p s n. ipc_socks st p = Some (s, n) \<Longrightarrow> 0 < n"
    using inv by blast
  show "\<And>p s n. ipc_socks st p = Some (s, n) \<Longrightarrow> \<exists>x m. ipc_bufs st (sock_read_buffer s) = Some (x, m)"
    using inv by (metis domD surj_pair)
  show "\<And>p s n. ipc_socks st p = Some (s, n) \<Longrightarrow> \<exists>x m. ipc_bufs st (sock_write_buffer s) = Some (x, m)"
    using inv by (metis domD surj_pair)
qed

lemma sock_refs_insert:
  "finite (dom h) \<Longrightarrow> h p = None \<Longrightarrow> sock_refs (h(p \<mapsto> (s, n))) b = sock_uses s b + sock_refs h b"
  unfolding sock_refs_def
  by (simp add: domIff) (rule sum.cong, auto)

lemma sock_refs_delete:
  assumes "finite (dom h)" and "h p = Some (s, n)"
  shows "sock_refs h b = sock_uses s b + sock_refs (h(p := None)) b"
proof -
  have "dom h = insert p (dom h - {p})"
    using assms(2) by auto
  then have "sock_refs h b = sock_uses s b + (\<Sum>q \<in> dom h - {p}. sock_uses (fst (the (h q))) b)"
    unfolding sock_refs_def using assms by (subst sum.remove [of _ p]) auto
  also have "(\<Sum>q \<in> dom h - {p}. sock_uses (fst (the (h q))) b) = sock_refs (h(p := None)) b"
    unfolding sock_refs_def by (rule sum.cong) auto
  finally show ?thesis .
qed

lemma sock_refs_count:
  "h p = Some (s, n) \<Longrightarrow> sock_refs (h(p \<mapsto> (s, m))) b = sock_refs h b"
  unfolding sock_refs_def by (rule sum.cong) (auto split: if_splits)

lemma sock_refs_0:
  "finite (dom h) \<Longrightarrow> sock_refs h b = 0 \<Longrightarrow> h p = Some (s, n) \<Longrightarrow> sock_uses s b = 0"
  unfolding sock_refs_def by (force simp: dom_def)

lemma ipc_invI:
  assumes "finite (dom (ipc_socks st))"
    and "\<And>p. ipc_next st \<le> p \<Longrightarrow> ipc_socks st p = None"
    and "\<And>p. ipc_next st \<le> p \<Longrightarrow> ipc_bufs st p = None"
    and "\<And>b x n. ipc_bufs st b = Some (x, n) \<Longrightarrow> db_inv x \<and> n = sock_refs (ipc_socks st) b"
    and "\<And>p s n. ipc_socks st p = Some (s, n) \<Longrightarrow> 0 < n \<and>
      ipc_bufs st (sock_read_buffer s) \<noteq> None \<and> ipc_bufs st (sock_write_buffer s) \<noteq> None"
  shows "ipc_inv st"
proof -
  have "\<forall>p \<in> dom (ipc_socks st). p < ipc_next st" and "\<forall>b \<in> dom (ipc_bufs st). b < ipc_next st"
    using assms(2,3) by (metis domIff not_le)+
  then show ?thesis
    unfolding ipc_inv_def using assms(1,4,5) by (simp add: domIff)
qed

text \<open>The store after all the buffers of a socket gained or lost its references.\<close>

definition bufs_gain :: "socket \<Rightarrow> double_buffer shared \<Rightarrow> double_buffer shared" where
  "bufs_gain s h = (\<lambda>b. map_option (\<lambda>(x, n). (x, n + sock_uses s b)) (h b))"

definition bufs_lose :: "socket \<Rightarrow> double_buffer shared \<Rightarrow> double_buffer shared" where
  "bufs_lose s h =
     (\<lambda>b. case h b of None \<Rightarrow> None
        | Some (x, n) \<Rightarrow> if 0 < sock_uses s b \<and> n = sock_uses s b then None
                        else Some (x, n - sock_uses s b))"

lemma make_socket_eq:
  assumes "ipc_bufs st r = Some xr" and "ipc_bufs st w = Some xw"
  shows "make_socket r w st =
    (let s = \<lparr>sock_read_buffer = r, sock_write_buffer = w\<rparr> in
     Some (ipc_next st, st\<lparr>ipc_bufs := bufs_gain s (ipc_bufs st),
        ipc_socks := (ipc_socks st)(ipc_next st \<mapsto> (s, 1)), ipc_next := ipc_next st + 1\<rparr>))"
proof -
  obtain x n y m where b: "ipc_bufs st r = Some (x, n)" "ipc_bufs st w = Some (y, m)"
    using assms by (cases xr, cases xw) simp
  have "(add_ref r (ipc_bufs st) \<bind> add_ref w) =
      Some (bufs_gain \<lparr>sock_read_buffer = r, sock_write_buffer = w\<rparr> (ipc_bufs st))"
    using b by (auto simp: add_ref_def bufs_gain_def sock_uses_def option.map_id)
  then show ?thesis
    by (cases "add_ref r (ipc_bufs st)") (auto simp: make_socket_def Let_def)
qed

lemma make_socket_inv:
  assumes inv: "ipc_inv st" and b: "ipc_bufs st r = Some xr" "ipc_bufs st w = Some xw"
    and mk: "make_socket r w st = Some (p, st')"
  shows "ipc_inv st'"
proof -
  let ?s = "\<lparr>sock_read_buffer = r, sock_write_buffer = w\<rparr>"
  have st': "st' = st\<lparr>ipc_bufs := bufs_gain ?s (ipc_bufs st),
        ipc_socks := (ipc_socks st)(ipc_next st \<mapsto> (?s, 1)), ipc_next := ipc_next st + 1\<rparr>"
    using mk unfolding make_socket_eq [OF b] by (auto simp: Let_def)
  note D = ipc_invD [OF inv]
  have refs: "sock_refs (ipc_socks st') b = sock_uses ?s b + sock_refs (ipc_socks st) b" for b
    using sock_refs_insert [OF D(1), of "ipc_next st"] D(2) by (simp add: st')
  show ?thesis
  proof (rule ipc_invI)
    show "finite (dom (ipc_socks st'))"
      using D(1) by (simp add: st')
    show "\<And>p. ipc_next st' \<le> p \<Longrightarrow> ipc_socks st' p = None"
      using D(2) by (simp add: st')
    show "\<And>p. ipc_next st' \<le> p \<Longrightarrow> ipc_bufs st' p = None"
      using D(3) by (simp add: st' bufs_gain_def)
    show "db_inv x \<and> n = sock_refs (ipc_socks st') b" if a: "ipc_bufs st' b = Some (x, n)" for b x n
    proof -
      obtain m where "ipc_bufs st b = Some (x, m)" "n = m + sock_uses ?s b"
        using a by (auto simp: st' bufs_gain_def)
      then show ?thesis using D(4) refs by simp
    qed
    fix q s n
    assume q: "ipc_socks st' q = Some (s, n)"
    show "0 < n \<and> ipc_bufs st' (sock_read_buffer s) \<noteq> None \<and> ipc_bufs st' (sock_write_buffer s) \<noteq> None"
    proof (cases "q = ipc_next st")
      case True
      then show ?thesis using q b by (auto simp: st' bufs_gain_def)
    next
      case False
      then have "ipc_socks st q = Some (s, n)" using q by (simp add: st')
      then show ?thesis using D(5-7) by (fastforce simp: st' bufs_gain_def)
    qed
  qed
qed

lemma drop_socket_last:
  assumes inv: "ipc_inv st" and s: "ipc_socks st p = Some (s, 1)"
  shows "drop_socket p st =
    Some (st\<lparr>ipc_bufs := bufs_lose s (ipc_bufs st), ipc_socks := (ipc_socks st)(p := None)\<rparr>)"
proof -
  note D = ipc_invD [OF inv]
  let ?r = "sock_read_buffer s" and ?w = "sock_write_buffer s"
  obtain xr nr where r: "ipc_bufs st ?r = Some (xr, nr)"
    using D(6) [OF s] by blast
  obtain xw nw where w: "ipc_bufs st ?w = Some (xw, nw)"
    using D(7) [OF s] by blast
  have "sock_uses s ?r \<le> nr" "sock_uses s ?w \<le> nw"
    using D(4) [OF r] D(4) [OF w] sock_refs_delete [OF D(1) s] by simp_all
  then have "(sub_ref ?w (ipc_bufs st) \<bind> sub_ref ?r) = Some (bufs_lose s (ipc_bufs st))"
    using r w
    by (cases "?r = ?w") (auto simp: sub_ref_def bufs_lose_def sock_uses_def fun_eq_iff split: option.split)
  then show ?thesis
    using s by (cases "sub_ref ?w (ipc_bufs st)") (auto simp: drop_socket_def)
qed

lemma drop_socket_inv:
  assumes inv: "ipc_inv st" and s: "ipc_socks st p = Some (s, n)"
  shows "\<exists>st'. drop_socket p st = Some st' \<and> ipc_inv st'"
proof (cases "n = 1")
  case False
  note D = ipc_invD [OF inv]
  let ?st = "st\<lparr>ipc_socks := (ipc_socks st)(p \<mapsto> (s, n - 1))\<rparr>"
  have "ipc_inv ?st"
  proof (rule ipc_invI)
    show "\<And>b x m. ipc_bufs ?st b = Some (x, m) \<Longrightarrow> db_inv x \<and> m = sock_refs (ipc_socks ?st) b"
      using D(4) by (simp add: sock_refs_count [where h = "ipc_socks st" and p = p, OF s])
    fix q t m
    assume "ipc_socks ?st q = Some (t, m)"
    then have "\<exists>k. ipc_socks st q = Some (t, k)" and "q = p \<Longrightarrow> m = n - 1"
        and "q \<noteq> p \<Longrightarrow> ipc_socks st q = Some (t, m)"
      using s by (auto split: if_splits)
    then show "0 < m \<and> ipc_bufs ?st (sock_read_buffer t) \<noteq> None \<and> ipc_bufs ?st (sock_write_buffer t) \<noteq> None"
      using D(5) [OF s] D(5) [of q t m] D(6,7) [of q t] False by (cases "q = p") auto
  qed (use D(1-3) s in auto)
  then show ?thesis using s False by (simp add: drop_socket_def)
next
  case True
  note D = ipc_invD [OF inv]
  let ?st = "st\<lparr>ipc_bufs := bufs_lose s (ipc_bufs st), ipc_socks := (ipc_socks st)(p := None)\<rparr>"
  have refs: "sock_refs (ipc_socks st) b = sock_uses s b + sock_refs (ipc_socks ?st) b" for b
    using sock_refs_delete [OF D(1) s] by simp
  have alive: "ipc_bufs ?st b \<noteq> None"
    if a: "ipc_socks ?st q = Some (t, m)" "0 < sock_uses t b" "ipc_bufs st b \<noteq> None" for q t m b
  proof -
    obtain x k where k: "ipc_bufs st b = Some (x, k)" using a(3) by auto
    have "finite (dom (ipc_socks ?st))" using D(1) by simp
    then have "sock_refs (ipc_socks ?st) b \<noteq> 0"
      using sock_refs_0 [of "ipc_socks ?st" b q t m] a(1,2) by auto
    then show ?thesis
      using D(4) [OF k] refs [of b] k by (simp add: bufs_lose_def)
  qed
  have "ipc_inv ?st"
  proof (rule ipc_invI)
    show "db_inv x \<and> m = sock_refs (ipc_socks ?st) b" if a: "ipc_bufs ?st b = Some (x, m)" for b x m
    proof -
      obtain k where "ipc_bufs st b = Some (x, k)" "m = k - sock_uses s b"
        using a by (auto simp: bufs_lose_def split: option.splits if_splits)
      then show ?thesis using D(4) refs [of b] by simp
    qed
    fix q t m
    assume q: "ipc_socks ?st q = Some (t, m)"
    then have "ipc_socks st q = Some (t, m)" by (auto split: if_splits)
    then show "0 < m \<and> ipc_bufs ?st (sock_read_buffer t) \<noteq> None \<and> ipc_bufs ?st (sock_write_buffer t) \<noteq> None"
      using D(5-7) [of q t m] alive [OF q, of "sock_read_buffer t"] alive [OF q, of "sock_write_buffer t"]
      by (auto simp: sock_uses_def)
  next
    show "\<And>q. ipc_next ?st \<le> q \<Longrightarrow> ipc_bufs ?st q = None"
      using D(3) by (simp add: bufs_lose_def)
  qed (use D(1,2) in auto)
  then show ?thesis using drop_socket_last [OF inv] s True by auto
qed

section \<open>Connections\<close>

text \<open>Two sockets are the ends of one connection: each reads what the other writes.\<close>

definition connected_pair :: "nat \<Rightarrow> nat \<Rightarrow> ipc \<Rightarrow> bool" where
  "connected_pair c srv st \<longleftrightarrow>
     ipc_inv st \<and> c \<noteq> srv \<and>
     (\<exists>s. find_socket st c = Some s \<and> sock_read_buffer s \<noteq> sock_write_buffer s \<and>
        find_socket st srv =
          Some \<lparr>sock_read_buffer = sock_write_buffer s, sock_write_buffer = sock_read_buffer s\<rparr> \<and>
        ref_count (ipc_bufs st) (sock_read_buffer s) = 2 \<and>
        ref_count (ipc_bufs st) (sock_write_buffer s) = 2)"

text \<open>What is on its way to the reader of a socket.\<close>

definition inbound :: "nat \<Rightarrow> ipc \<Rightarrow> u8 list" where
  "inbound p st =
     (case find_socket st p of None \<Rightarrow> []
      | Some s \<Rightarrow> (case ipc_bufs st (sock_read_buffer s) of None \<Rightarrow> [] | Some (b, n) \<Rightarrow> db_contents b))"

lemma ipc_inv_buffer_update:
  assumes inv: "ipc_inv st" and b: "ipc_bufs st p = Some (x, n)" and y: "db_inv y"
  shows "ipc_inv (st\<lparr>ipc_bufs := (ipc_bufs st)(p \<mapsto> (y, n))\<rparr>)"
proof -
  note D = ipc_invD [OF inv]
  show ?thesis
  proof (rule ipc_invI, goal_cases)
    case (3 q)
    then show ?case using D(3) [of q] D(3) [of p] b by auto
  next
    case (4 q z m)
    then show ?case using D(4) [OF b] D(4) [of q z m] y by (cases "q = p") auto
  next
    case (5 q t m)
    then show ?case using D(5-7) [of q t m] by auto
  qed (use D(1,2) in auto)
qed

lemma socket_read_step:
  assumes inv: "ipc_inv st" and s: "find_socket st p = Some s"
  obtains b n out b' where "ipc_bufs st (sock_read_buffer s) = Some (b, n)" and "db_read k b = (out, b')"
    and "socket_read p k st = Some (out, st\<lparr>ipc_bufs := (ipc_bufs st)(sock_read_buffer s \<mapsto> (b', n))\<rparr>)"
    and "db_inv b" and "db_inv b'" and "db_contents b = out @ db_contents b'" and "length out \<le> k"
proof -
  obtain m where sm: "ipc_socks st p = Some (s, m)"
    using s by (auto simp: find_socket_def)
  obtain b n where b: "ipc_bufs st (sock_read_buffer s) = Some (b, n)"
    using ipc_invD(6) [OF inv sm] by blast
  obtain out b' where rd: "db_read k b = (out, b')" by fastforce
  have "db_inv b" using ipc_invD(4) [OF inv b] by simp
  then show thesis
    using that [OF b rd] db.recv_law [OF _ rd] s b rd by (simp add: socket_read_def)
qed

lemma socket_write_step:
  assumes inv: "ipc_inv st" and s: "find_socket st p = Some s"
  obtains b n k b' where "ipc_bufs st (sock_write_buffer s) = Some (b, n)" and "db_write data b = (k, b')"
    and "socket_write p data st = Some (k, st\<lparr>ipc_bufs := (ipc_bufs st)(sock_write_buffer s \<mapsto> (b', n))\<rparr>)"
    and "db_inv b" and "db_inv b'" and "k \<le> length data" and "db_contents b' = db_contents b @ take k data"
proof -
  obtain m where sm: "ipc_socks st p = Some (s, m)"
    using s by (auto simp: find_socket_def)
  obtain b n where b: "ipc_bufs st (sock_write_buffer s) = Some (b, n)"
    using ipc_invD(7) [OF inv sm] by blast
  obtain k b' where wr: "db_write data b = (k, b')" by fastforce
  have "db_inv b" using ipc_invD(4) [OF inv b] by simp
  then show thesis
    using that [OF b wr] db.send_law [OF _ wr] s b wr by (simp add: socket_write_def)
qed

lemma ref_count_content_update [simp]:
  "h p = Some (x, n) \<Longrightarrow> ref_count (h(p \<mapsto> (y, n))) q = ref_count h q"
  by (simp add: ref_count_def)

lemma find_socket_bufs [simp]: "find_socket (st\<lparr>ipc_bufs := b\<rparr>) p = find_socket st p"
  by (simp add: find_socket_def)

lemma connected_pair_buffer_update:
  assumes cp: "connected_pair c srv st" and b: "ipc_bufs st p = Some (x, n)" and y: "db_inv y"
  shows "connected_pair c srv (st\<lparr>ipc_bufs := (ipc_bufs st)(p \<mapsto> (y, n))\<rparr>)"
  using cp b ipc_inv_buffer_update [OF _ b y] by (simp add: connected_pair_def)

interpretation conn: byte_channel "connected_pair c srv" "inbound srv"
    "\<lambda>n st. the (socket_read srv n st)" "\<lambda>data st. the (socket_write c data st)" for c srv
proof (unfold_locales, goal_cases)
  case (1 st k out st')
  then obtain s where inv: "ipc_inv st" and s: "find_socket st srv = Some s"
    by (auto simp: connected_pair_def)
  obtain b n b' where r: "ipc_bufs st (sock_read_buffer s) = Some (b, n)"
    "st' = st\<lparr>ipc_bufs := (ipc_bufs st)(sock_read_buffer s \<mapsto> (b', n))\<rparr>"
    "db_inv b'" "db_contents b = out @ db_contents b'" "length out \<le> k"
    by (rule socket_read_step [OF inv s, of k]) (use 1(2) in auto)
  then show ?case
    using s connected_pair_buffer_update [OF 1(1) r(1,3)] by (auto simp: inbound_def)
next
  case (2 st k)
  then obtain s where inv: "ipc_inv st" and s: "find_socket st srv = Some s"
    by (auto simp: connected_pair_def)
  obtain b n out b' where r: "ipc_bufs st (sock_read_buffer s) = Some (b, n)" "db_read k b = (out, b')"
    "fst (the (socket_read srv k st)) = out" "db_inv b"
    by (rule socket_read_step [OF inv s, of k]) auto
  then show ?case
    using 2(2,3) s db.recv_progress [of b k] by (simp add: inbound_def)
next
  case (3 st data k st')
  then obtain s where inv: "ipc_inv st" and s: "find_socket st c = Some s"
    and srv: "find_socket st srv =
      Some \<lparr>sock_read_buffer = sock_write_buffer s, sock_write_buffer = sock_read_buffer s\<rparr>"
    by (auto simp: connected_pair_def)
  obtain b n b' where w: "ipc_bufs st (sock_write_buffer s) = Some (b, n)"
    "st' = st\<lparr>ipc_bufs := (ipc_bufs st)(sock_write_buffer s \<mapsto> (b', n))\<rparr>"
    "db_inv b'" "k \<le> length data" "db_contents b' = db_contents b @ take k data"
    by (rule socket_write_step [OF inv s, of data]) (use 3(2) in auto)
  then show ?case
    using srv connected_pair_buffer_update [OF 3(1) w(1,3)] by (auto simp: inbound_def)
qed

section \<open>Every operation keeps the store well formed\<close>

lemma sock_refs_fresh:
  assumes inv: "ipc_inv st" and b: "ipc_bufs st b = None"
  shows "sock_refs (ipc_socks st) b = 0"
proof -
  have "sock_uses (fst (the (ipc_socks st p))) b = 0" if p: "p \<in> dom (ipc_socks st)" for p
  proof -
    obtain s n where s: "ipc_socks st p = Some (s, n)" using p by auto
    then show ?thesis using ipc_invD(6,7) [OF inv s] b by (auto simp: sock_uses_def)
  qed
  then show ?thesis by (simp add: sock_refs_def)
qed

lemma new_buffer_inv:
  assumes inv: "ipc_inv st" and sz: "2 * sz < 2 ^ 64" and nb: "new_buffer sz st = (b, st')"
  shows "ipc_inv st'"
proof -
  note D = ipc_invD [OF inv]
  have st': "st' = st\<lparr>ipc_bufs := (ipc_bufs st)(ipc_next st \<mapsto> (db_new sz, 0)), ipc_next := ipc_next st + 1\<rparr>"
    using nb by (auto simp: new_buffer_def)
  have fresh: "sock_refs (ipc_socks st) (ipc_next st) = 0"
    using sock_refs_fresh [OF inv] D(3) by simp
  show ?thesis
  proof (rule ipc_invI, goal_cases)
    case (3 q)
    then show ?case using D(3) by (simp add: st')
  next
    case (4 q z m)
    then show ?case using D(4) [of q z m] fresh db_new_inv [OF sz] by (auto simp: st' split: if_splits)
  next
    case (5 q t m)
    then show ?case using D(5-7) [of q t m] by (auto simp: st')
  qed (use D(1,2) in \<open>auto simp: st'\<close>)
qed

lemma add_socket_ref_inv:
  assumes inv: "ipc_inv st" and h: "add_ref p (ipc_socks st) = Some h"
  shows "ipc_inv (st\<lparr>ipc_socks := h\<rparr>)"
proof -
  note D = ipc_invD [OF inv]
  obtain s n where s: "ipc_socks st p = Some (s, n)" and h: "h = (ipc_socks st)(p \<mapsto> (s, n + 1))"
    using h by (auto simp: add_ref_def split: option.splits)
  show ?thesis
  proof (rule ipc_invI, goal_cases)
    case (2 q)
    then show ?case using D(2) [of q] D(2) [of p] s h by auto
  next
    case (4 q z m)
    then show ?case
      using D(4) [of q z m] sock_refs_count [where h = "ipc_socks st" and p = p, OF s] by (simp add: h)
  next
    case (5 q t m)
    then show ?case using D(5-7) [OF s] D(5-7) [of q t m] by (auto simp: h split: if_splits)
  qed (use D(1,3) in \<open>auto simp: h\<close>)
qed

lemma new_client_eq:
  "new_client st =
    (let n = ipc_next st; s = \<lparr>sock_read_buffer = n, sock_write_buffer = n + 1\<rparr> in
     Some (n + 2, st\<lparr>ipc_bufs := (ipc_bufs st)(n \<mapsto> (db_new (KiB 64), 1), n + 1 \<mapsto> (db_new (KiB 64), 1)),
        ipc_socks := (ipc_socks st)(n + 2 \<mapsto> (s, 1)), ipc_next := n + 3\<rparr>))"
  by (simp add: new_client_def new_buffer_def make_socket_def add_ref_def Let_def fun_upd_twist)

lemma new_client_inv:
  assumes inv: "ipc_inv st" and nc: "new_client st = Some (c, st')"
  shows "ipc_inv st'"
proof -
  have sz: "2 * KiB 64 < 2 ^ 64" by (simp add: KiB_def)
  obtain r st1 where 1: "new_buffer (KiB 64) st = (r, st1)" by fastforce
  obtain w st2 where 2: "new_buffer (KiB 64) st1 = (w, st2)" by fastforce
  have "ipc_inv st2"
    using new_buffer_inv [OF new_buffer_inv [OF inv sz 1] sz 2] .
  moreover have "ipc_bufs st2 r = Some (db_new (KiB 64), 0)" "ipc_bufs st2 w = Some (db_new (KiB 64), 0)"
    using 1 2 by (auto simp: new_buffer_def)
  moreover have "make_socket r w st2 = Some (c, st')"
    using nc 1 2 by (simp add: new_client_def Let_def)
  ultimately show ?thesis by (rule make_socket_inv)
qed

lemma queue_connection_inv:
  "ipc_inv st \<Longrightarrow> queue_connection_from c ss st = Some (Inr (ss', st')) \<Longrightarrow> ipc_inv st'"
  by (auto simp: queue_connection_from_def add_socket_ref_inv split: if_splits bind_splits)

lemma accept_inv:
  assumes inv: "ipc_inv st" and q: "ss_queue ss = c # rest" and c: "find_socket st c = Some s"
  shows "\<exists>srv st'. accept ss st = Some (srv, ss\<lparr>ss_queue := rest\<rparr>, st') \<and> ipc_inv st'"
proof -
  obtain n where n: "ipc_socks st c = Some (s, n)"
    using c by (auto simp: find_socket_def)
  obtain xr nr where r: "ipc_bufs st (sock_read_buffer s) = Some (xr, nr)"
    using ipc_invD(6) [OF inv n] by blast
  obtain xw nw where w: "ipc_bufs st (sock_write_buffer s) = Some (xw, nw)"
    using ipc_invD(7) [OF inv n] by blast
  obtain srv st1 where mk: "make_socket (sock_write_buffer s) (sock_read_buffer s) st = Some (srv, st1)"
    using make_socket_eq [OF w r] by (simp add: Let_def)
  have "ipc_socks st1 c = Some (s, n)"
    using mk make_socket_eq [OF w r] ipc_invD(2) [OF inv, of "ipc_next st"] n
    by (auto simp: Let_def)
  then obtain st2 where "drop_socket c st1 = Some st2" "ipc_inv st2"
    using drop_socket_inv [OF make_socket_inv [OF inv w r mk]] by blast
  then show ?thesis using q c mk by (auto simp: accept_def)
qed

lemma connected_pair_connected:
  assumes "connected_pair c srv st"
  shows "socket_connected c st = Some True" and "socket_connected srv st = Some True"
  using assms
  by (auto simp: connected_pair_def socket_connected_def ref_count_def split: option.splits prod.splits)


abbreviation ipc_init :: ipc where
  "ipc_init \<equiv> \<lparr>ipc_bufs = Map.empty, ipc_socks = Map.empty, ipc_next = 0\<rparr>"

lemma ipc_init_inv: "ipc_inv ipc_init"
  by (simp add: ipc_inv_def)


text \<open>
  C13. A connection is a reliable stream in each direction: over any interleaving of writes at
  one end and reads at the other, what was in flight plus what was accepted is what was read
  plus what is still in flight, in order.
\<close>

theorem connection_stream:
  assumes "connected_pair c srv st"
    and "channel_run (\<lambda>n st. the (socket_read srv n st)) (\<lambda>data st. the (socket_write c data st)) ops st
       = (sent, got, st')"
  shows "connected_pair c srv st' \<and> inbound srv st @ sent = got @ inbound srv st'"
  using conn.channel_stream [OF assms] .

text \<open>A concrete connection, for the witnesses.\<close>

definition demo_ipc :: ipc where
  "demo_ipc =
     \<lparr>ipc_bufs = [0 \<mapsto> (db_new 8, 2), 1 \<mapsto> (db_new 8, 2)],
      ipc_socks = [2 \<mapsto> (\<lparr>sock_read_buffer = 0, sock_write_buffer = 1\<rparr>, 1),
                   3 \<mapsto> (\<lparr>sock_read_buffer = 1, sock_write_buffer = 0\<rparr>, 1)],
      ipc_next = 4\<rparr>"

lemma demo_ipc_connected: "connected_pair 2 3 demo_ipc"
proof -
  have "db_inv (db_new 8)"
    by (rule db_new_inv) simp
  then have "ipc_inv demo_ipc"
    by (auto simp: ipc_inv_def demo_ipc_def sock_refs_def sock_uses_def split: if_splits)
  then show ?thesis
    by (simp add: connected_pair_def demo_ipc_def find_socket_def ref_count_def)
qed

theorem connection_stream_witness:
  "let r = channel_run (\<lambda>n st. the (socket_read 3 n st)) (\<lambda>data st. the (socket_write 2 data st))
        [Send [1, 2], Recv 1] demo_ipc
   in connected_pair 2 3 (snd (snd r)) \<and> fst r = fst (snd r) @ inbound 3 (snd (snd r))"
proof -
  have "inbound 3 demo_ipc = []"
    by (simp add: inbound_def demo_ipc_def find_socket_def)
  then show ?thesis
    using connection_stream [OF demo_ipc_connected, of "[Send [1, 2], Recv 1]"
        "fst (channel_run (\<lambda>n st. the (socket_read 3 n st)) (\<lambda>data st. the (socket_write 2 data st))
          [Send [1, 2], Recv 1] demo_ipc)"]
    unfolding Let_def by (metis append_Nil prod.collapse)
qed

text \<open>
  C29. Hanging up: when one end of a connection is closed, the other end notices (it is no
  longer connected) and never blocks again, in either direction, but what was already sent to
  it can still be read.
\<close>

theorem socket_hangup:
  assumes cp: "connected_pair c srv st" and last: "ref_count (ipc_socks st) srv = 1"
  shows "\<exists>st'. drop_socket srv st = Some st' \<and> ipc_inv st' \<and> find_socket st' srv = None \<and>
     socket_connected c st' = Some False \<and> socket_read_would_block c st' = Some False \<and>
     socket_write_would_block c st' = Some False \<and> inbound c st' = inbound c st"
proof -
  obtain s where inv: "ipc_inv st" and ne: "c \<noteq> srv" and s: "find_socket st c = Some s"
    and rw: "sock_read_buffer s \<noteq> sock_write_buffer s"
    and srv: "find_socket st srv =
      Some \<lparr>sock_read_buffer = sock_write_buffer s, sock_write_buffer = sock_read_buffer s\<rparr>"
    and cnt: "ref_count (ipc_bufs st) (sock_read_buffer s) = 2"
      "ref_count (ipc_bufs st) (sock_write_buffer s) = 2"
    using cp by (auto simp: connected_pair_def)
  let ?t = "\<lparr>sock_read_buffer = sock_write_buffer s, sock_write_buffer = sock_read_buffer s\<rparr>"
  have t: "ipc_socks st srv = Some (?t, 1)"
    using srv last by (auto simp: find_socket_def ref_count_def)
  let ?st = "st\<lparr>ipc_bufs := bufs_lose ?t (ipc_bufs st), ipc_socks := (ipc_socks st)(srv := None)\<rparr>"
  have dr: "drop_socket srv st = Some ?st"
    by (rule drop_socket_last [OF inv t])
  then have "ipc_inv ?st"
    using drop_socket_inv [OF inv t] by auto
  moreover have "find_socket ?st c = Some s" "find_socket ?st srv = None"
    using s ne by (simp_all add: find_socket_def)
  moreover obtain xr xw where "ipc_bufs st (sock_read_buffer s) = Some (xr, 2)"
      "ipc_bufs st (sock_write_buffer s) = Some (xw, 2)"
    using cnt by (auto simp: ref_count_def split: option.splits)
  moreover from this have "ipc_bufs ?st (sock_read_buffer s) = Some (xr, 1)"
      "ipc_bufs ?st (sock_write_buffer s) = Some (xw, 1)"
    using rw by (simp_all add: bufs_lose_def sock_uses_def)
  ultimately show ?thesis
    using dr s
    by (simp add: socket_connected_def socket_read_would_block_def socket_write_would_block_def inbound_def)
qed

theorem socket_hangup_witness:
  "\<exists>st'. drop_socket 3 demo_ipc = Some st' \<and> socket_connected 2 st' = Some False"
proof -
  have "ref_count (ipc_socks demo_ipc) 3 = 1"
    by (simp add: demo_ipc_def ref_count_def)
  then show ?thesis using socket_hangup [OF demo_ipc_connected] by blast
qed

text \<open>
  C30. End of file on a pipe is reliable: a reader is only told to wait while there is a writer
  and nothing to read, a read of a positive size returns nothing only when the pipe is empty,
  so a read that was not made to wait and returns nothing means that every writer has gone and
  every byte was read.
\<close>

theorem pipe_end_of_file:
  assumes "pipe_inv p" and "0 < n" and "\<not> pipe_read_would_block p" and "fst (pipe_read n p) = []"
  shows "pipe_writer_count p = 0 \<and> pipe_contents p = []"
proof -
  have "pipe_contents p = []"
    using pipe.recv_progress [OF assms(1,2)] assms(4) by blast
  moreover have "db_empty (pipe_buffer p)"
    using calculation length_db_bytes [OF assms(1)]
    by (simp add: db_empty_def db_contents_def) (metis length_0_conv list.size(3))
  ultimately show ?thesis
    using assms(3) by (simp add: pipe_read_would_block_def)
qed

theorem pipe_end_of_file_witness:
  "pipe_writer_count pipe_new = 0 \<and> pipe_contents pipe_new = []"
proof (rule pipe_end_of_file [OF pipe_new_inv, of 1])
  show "\<not> pipe_read_would_block pipe_new"
    by (simp add: pipe_read_would_block_def pipe_new_def)
  show "fst (pipe_read 1 pipe_new) = []"
    by (simp add: pipe_read_def pipe_new_def db_read_def db_refill_def db_new_def Let_def)
qed simp

section \<open>The backlog\<close>

text \<open>Clients that connect one after the other while the server accepts none of them.\<close>

fun connect_many :: "nat \<Rightarrow> server_socket \<Rightarrow> ipc \<Rightarrow> (nat \<times> server_socket \<times> ipc) option" where
  "connect_many 0 ss st = Some (0, ss, st)"
| "connect_many (Suc k) ss st = do {
     (c, st1) \<leftarrow> new_client st;
     r \<leftarrow> queue_connection_from c ss st1;
     (case r of
        Inl e \<Rightarrow> connect_many k ss st1
      | Inr (ss1, st2) \<Rightarrow> do {
          (m, ss2, st3) \<leftarrow> connect_many k ss1 st2;
          Some (m + 1, ss2, st3)
        })
   }"

lemma connect_many_count:
  "\<exists>ss' st'. connect_many k ss st = Some (min k (ss_capacity ss - 1 - length (ss_queue ss)), ss', st')"
proof (induction k arbitrary: ss st)
  case (Suc k)
  obtain c st1 where nc: "new_client st = Some (c, st1)"
    and live: "ipc_socks st1 c \<noteq> None"
    by (simp add: new_client_eq Let_def)
  show ?case
  proof (cases "ss_capacity ss \<le> length (ss_queue ss) + 1")
    case True
    then show ?thesis
      using Suc.IH [of ss st1] nc by (simp add: queue_connection_from_def)
  next
    case False
    obtain h where h: "add_ref c (ipc_socks st1) = Some h"
      using live by (auto simp: add_ref_def split: option.splits)
    show ?thesis
      using Suc.IH [of "ss\<lparr>ss_queue := ss_queue ss @ [c]\<rparr>" "st1\<lparr>ipc_socks := h\<rparr>"] nc h False
      by (auto simp: queue_connection_from_def)
  qed
qed simp

text \<open>
  The backlog is one short: a server socket made for a backlog of \<open>n\<close> connections holds
  \<open>n - 1\<close> pending ones, whatever the number of clients that try, because the queue is
  compared with its capacity after counting the connection that is being added. With a backlog
  of one, every client is turned away.
\<close>

theorem backlog_one_short:
  "\<exists>ss' st'. connect_many k (server_socket_new n) st = Some (min k (n - 1), ss', st')"
  using connect_many_count [of k "server_socket_new n" st] by (cases n) (auto simp: server_socket_new_def)

end
