(* ===== verification/Frames.thy ===== *)
theory Frames
  imports Numeric
begin

text \<open>
  The physical frame allocator, \<^verbatim>\<open>src/kernel/mem/memory_manager.cc\<close>. One bit per 4 KiB
  frame of physical memory says whether the frame is in use.

  The bit set is raw memory found in the boot loader's memory map, so it is modelled as the
  memory that starts at its first bucket, a function from bucket numbers to 64-bit words; what
  lies behind the last bucket of the array is part of that memory. The boot loader's memory
  map is an array of the same kind. Every public operation holds the allocator's lock from
  beginning to end, so the operations are atomic steps.
\<close>

section \<open>Data\<close>

datatype memory_type = Available | Reclaimable | Reserved

record memory_map_entry =
  entry_type :: memory_type
  entry_base :: nat
  entry_page_count :: nat

record boot_info =
  bi_map :: "nat \<Rightarrow> memory_map_entry"
  map_entry_count :: nat

record memory_manager =
  frame_bitset :: "nat \<Rightarrow> u64"
  frame_count :: nat

abbreviation k_frame_size :: nat where
  "k_frame_size \<equiv> 4096"

abbreviation k_bucket_bit_count :: nat where
  "k_bucket_bit_count \<equiv> 64"

section \<open>Single frames\<close>

text \<open>The bucket that holds the bit of a frame.\<close>

definition frame_bitset_bucket :: "nat \<Rightarrow> memory_manager \<Rightarrow> nat option" where
  "frame_bitset_bucket index mm = do {
     ensure (index < frame_count mm);
     Some (add64 index k_bucket_bit_count div k_bucket_bit_count)
   }"

definition clear_frame :: "nat \<Rightarrow> memory_manager \<Rightarrow> memory_manager option" where
  "clear_frame index mm = do {
     b \<leftarrow> frame_bitset_bucket index mm;
     Some (mm\<lparr>frame_bitset := (frame_bitset mm)
       (b := word_clear_bit (frame_bitset mm b) (index mod k_bucket_bit_count))\<rparr>)
   }"

definition set_frame :: "nat \<Rightarrow> memory_manager \<Rightarrow> memory_manager option" where
  "set_frame index mm = do {
     b \<leftarrow> frame_bitset_bucket index mm;
     Some (mm\<lparr>frame_bitset := (frame_bitset mm)
       (b := word_set_bit (frame_bitset mm b) (index mod k_bucket_bit_count))\<rparr>)
   }"

definition is_frame_set :: "nat \<Rightarrow> memory_manager \<Rightarrow> bool option" where
  "is_frame_set index mm = do {
     b \<leftarrow> frame_bitset_bucket index mm;
     Some (word_test_bit (frame_bitset mm b) (index mod k_bucket_bit_count))
   }"

section \<open>Booting\<close>

fun first_fit_from :: "boot_info \<Rightarrow> nat \<Rightarrow> nat \<Rightarrow> nat option" where
  "first_fit_from bi page_count 0 = None"
| "first_fit_from bi page_count (Suc i) =
     (let entry = bi_map bi (Suc i)
      in if entry_type entry \<noteq> Reserved \<and> page_count \<le> entry_page_count entry
         then Some (entry_base entry)
         else first_fit_from bi page_count i)"

definition find_first_fit_region :: "boot_info \<Rightarrow> nat \<Rightarrow> nat option option" where
  "find_first_fit_region bi size' = do {
     bytes \<leftarrow> align_up size' k_frame_size;
     Some (first_fit_from bi (bytes div k_frame_size) (map_entry_count bi))
   }"

definition memory_end_step :: "boot_info \<Rightarrow> nat \<Rightarrow> nat \<Rightarrow> nat option" where
  "memory_end_step bi i memory_end =
     (let entry = bi_map bi i in do {
        ensure (entry_base entry mod k_frame_size = 0);
        let entry_end = add64 (entry_base entry) (mul64 (entry_page_count entry) k_frame_size);
        Some (if entry_end > memory_end then entry_end else memory_end)
      })"

definition clear_entry :: "memory_map_entry \<Rightarrow> memory_manager \<Rightarrow> memory_manager option" where
  "clear_entry entry =
     for_each (\<lambda>j. clear_frame (entry_base entry div k_frame_size + j)) [0..<entry_page_count entry]"

text \<open>
  \<open>garbage\<close> is what the memory of the bit set held before. The statistics that
  \<open>parse_memory_map\<close> prints at the end divide by the total number of bytes.
\<close>

definition parse_memory_map ::
  "boot_info \<Rightarrow> (nat \<Rightarrow> u64) \<Rightarrow> memory_manager option" where
  "parse_memory_map bi garbage = do {
     memory_end \<leftarrow> for_each (memory_end_step bi) [0..<map_entry_count bi] 0;
     ensure (memory_end mod k_frame_size = 0);
     let count = memory_end div k_frame_size;
     let bucket_count = count div k_bucket_bit_count + 1;
     location \<leftarrow> find_first_fit_region bi (bucket_count * 8);
     bitset_location \<leftarrow> location;
     let mm0 = \<lparr>frame_bitset = (\<lambda>b. if b < bucket_count then - 1 else garbage b),
                frame_count = count\<rparr>;
     mm1 \<leftarrow> for_each (\<lambda>i mm. if entry_type (bi_map bi i) \<noteq> Available then Some mm
                             else clear_entry (bi_map bi i) mm)
            [0..<map_entry_count bi] mm0;
     mm2 \<leftarrow> set_frame 0 mm1;
     bitset_bytes \<leftarrow> align_up (bucket_count * 8) k_frame_size;
     for_each (\<lambda>i. set_frame (bitset_location div k_frame_size + i))
       [0..<bitset_bytes div k_frame_size] mm2
   }"

definition reclaim :: "boot_info \<Rightarrow> memory_manager \<Rightarrow> memory_manager option" where
  "reclaim bi =
     for_each (\<lambda>i mm. if entry_base (bi_map bi i) = 0 \<or> entry_type (bi_map bi i) \<noteq> Reclaimable
                      then Some mm
                      else clear_entry (bi_map bi i) mm)
       [0..<map_entry_count bi]"

section \<open>Allocation\<close>

fun alloc_frame_from :: "nat list \<Rightarrow> memory_manager \<Rightarrow> (nat \<times> memory_manager) option" where
  "alloc_frame_from [] mm = None"
| "alloc_frame_from (i # is') mm = do {
     used \<leftarrow> is_frame_set i mm;
     if \<not> used
     then do { mm' \<leftarrow> set_frame i mm; Some (mul64 i k_frame_size, mm') }
     else alloc_frame_from is' mm
   }"

definition alloc_frame :: "memory_manager \<Rightarrow> (nat \<times> memory_manager) option" where
  "alloc_frame mm = alloc_frame_from [0..<frame_count mm] mm"

definition free_frame :: "nat \<Rightarrow> memory_manager \<Rightarrow> memory_manager option" where
  "free_frame frame mm = do {
     ensure (frame mod k_frame_size = 0);
     let index = frame div k_frame_size;
     used \<leftarrow> is_frame_set index mm;
     ensure used;
     clear_frame index mm
   }"

definition is_frame_free :: "nat \<Rightarrow> memory_manager \<Rightarrow> bool option" where
  "is_frame_free frame mm = do {
     ensure (frame mod k_frame_size = 0);
     used \<leftarrow> is_frame_set (frame div k_frame_size) mm;
     Some (\<not> used)
   }"

text \<open>The inner loop of \<open>alloc_contiguous\<close>: it stops at the first frame in use.\<close>

fun found_space :: "nat list \<Rightarrow> memory_manager \<Rightarrow> bool option" where
  "found_space [] mm = Some True"
| "found_space (j # js) mm = do {
     used \<leftarrow> is_frame_set j mm;
     if used then Some False else found_space js mm
   }"

function alloc_contiguous_from ::
  "nat \<Rightarrow> nat \<Rightarrow> memory_manager \<Rightarrow> (nat \<times> memory_manager) option" where
  "alloc_contiguous_from i n mm =
     (if i < frame_count mm
      then do {
        found \<leftarrow> found_space [i..<i + n] mm;
        if found
        then do { mm' \<leftarrow> for_each set_frame [i..<i + n] mm; Some (mul64 i k_frame_size, mm') }
        else alloc_contiguous_from (i + n) n mm
      }
      else None)"
  by pat_completeness auto
termination
proof (relation "measure (\<lambda>(i, n, mm). frame_count mm - i)", simp)
  fix i n :: nat and mm :: memory_manager and found
  assume "i < frame_count mm" and "found_space [i..<i + n] mm = Some found" and "\<not> found"
  then have "n \<noteq> 0"
    by (intro notI) simp
  then show "((i + n, n, mm), i, n, mm) \<in> measure (\<lambda>(i, n, mm). frame_count mm - i)"
    using \<open>i < frame_count mm\<close> by simp
qed

declare alloc_contiguous_from.simps [simp del]

definition alloc_contiguous :: "nat \<Rightarrow> memory_manager \<Rightarrow> (nat \<times> memory_manager) option" where
  "alloc_contiguous size' mm = do {
     bytes \<leftarrow> align_up size' k_frame_size;
     alloc_contiguous_from 0 (bytes div k_frame_size) mm
   }"

definition free_contiguous :: "nat \<Rightarrow> nat \<Rightarrow> memory_manager \<Rightarrow> memory_manager option" where
  "free_contiguous first_frame size' mm = do {
     ensure (first_frame mod k_frame_size = 0);
     let first_frame_index = first_frame div k_frame_size;
     bytes \<leftarrow> align_up size' k_frame_size;
     for_each (\<lambda>i mm. do { used \<leftarrow> is_frame_set i mm; ensure used; clear_frame i mm })
       [first_frame_index..<first_frame_index + bytes div k_frame_size] mm
   }"

section \<open>The frames in use\<close>

text \<open>What the bit set stands for: whether a frame is in use, and the set of frames in use.\<close>

definition frame_used :: "memory_manager \<Rightarrow> nat \<Rightarrow> bool" where
  "frame_used mm i \<longleftrightarrow> bit (frame_bitset mm (i div 64 + 1)) (i mod 64)"

definition used_frames :: "memory_manager \<Rightarrow> nat set" where
  "used_frames mm = {i. i < frame_count mm \<and> frame_used mm i}"

text \<open>Frame numbers fit a \<open>size_t\<close> when multiplied by the frame size.\<close>

definition mm_inv :: "memory_manager \<Rightarrow> bool" where
  "mm_inv mm \<longleftrightarrow> frame_count mm \<le> 2 ^ 52"

lemma frame_bitset_bucket_eq:
  assumes "mm_inv mm"
  shows "frame_bitset_bucket i mm = (if i < frame_count mm then Some (i div 64 + 1) else None)"
proof (cases "i < frame_count mm")
  case True
  then have "add64 i 64 = i + 64"
    using assms by (intro add64_exact) (simp add: mm_inv_def)
  then show ?thesis
    using True by (simp add: frame_bitset_bucket_def)
qed (simp add: frame_bitset_bucket_def)

lemma same_bit_iff: "(i::nat) div 64 = j div 64 \<and> i mod 64 = j mod 64 \<longleftrightarrow> i = j"
  by (metis div_mult_mod_eq)

lemma is_frame_set_eq:
  "mm_inv mm \<Longrightarrow> is_frame_set i mm = (if i < frame_count mm then Some (frame_used mm i) else None)"
  by (simp add: is_frame_set_def frame_bitset_bucket_eq word_test_bit_iff frame_used_def)

text \<open>Setting or clearing a bit changes the state of that frame only.\<close>

definition marks :: "nat set \<Rightarrow> bool \<Rightarrow> memory_manager \<Rightarrow> memory_manager \<Rightarrow> bool" where
  "marks A b mm mm' \<longleftrightarrow> frame_count mm' = frame_count mm \<and>
     (\<forall>i. frame_used mm' i = (if i \<in> A then b else frame_used mm i))"

lemma marks_empty [simp]: "marks {} b mm mm"
  by (simp add: marks_def)

lemma marks_trans: "marks A b mm mm' \<Longrightarrow> marks B b mm' mm'' \<Longrightarrow> marks (A \<union> B) b mm mm''"
  by (auto simp: marks_def)

lemma marks_inv: "marks A b mm mm' \<Longrightarrow> mm_inv mm' = mm_inv mm"
  by (simp add: marks_def mm_inv_def)

lemma marks_used:
  "marks A True mm mm' \<Longrightarrow> A \<subseteq> {..<frame_count mm} \<Longrightarrow> used_frames mm' = used_frames mm \<union> A"
  "marks A False mm mm' \<Longrightarrow> used_frames mm' = used_frames mm - A"
  by (auto simp: marks_def used_frames_def)

lemma set_frame_marks:
  assumes "mm_inv mm" and "i < frame_count mm"
  shows "\<exists>mm'. set_frame i mm = Some mm' \<and> marks {i} True mm mm'"
  using assms
  by (auto simp: set_frame_def frame_bitset_bucket_eq marks_def frame_used_def bit_word_set_bit
      dest: same_bit_iff [THEN iffD1, OF conjI])

lemma clear_frame_marks:
  assumes "mm_inv mm" and "i < frame_count mm"
  shows "\<exists>mm'. clear_frame i mm = Some mm' \<and> marks {i} False mm mm'"
  using assms
  by (auto simp: clear_frame_def frame_bitset_bucket_eq marks_def frame_used_def bit_word_clear_bit
      dest: same_bit_iff [THEN iffD1, OF conjI])

lemma set_frame_None: "mm_inv mm \<Longrightarrow> \<not> i < frame_count mm \<Longrightarrow> set_frame i mm = None"
  and clear_frame_None: "mm_inv mm \<Longrightarrow> \<not> i < frame_count mm \<Longrightarrow> clear_frame i mm = None"
  by (simp_all add: set_frame_def clear_frame_def frame_bitset_bucket_eq)

text \<open>A loop that marks one frame in each round marks all of them.\<close>

lemma for_each_marks:
  assumes "\<And>x t. x \<in> set xs \<Longrightarrow> mm_inv t \<Longrightarrow> frame_count t = frame_count mm \<Longrightarrow>
      (need \<longrightarrow> frame_used t (g x)) \<Longrightarrow> \<exists>t'. body x t = Some t' \<and> marks {g x} b t t'"
    and "mm_inv mm" and "need \<longrightarrow> distinct (map g xs)"
    and "\<And>x. x \<in> set xs \<Longrightarrow> need \<longrightarrow> frame_used mm (g x)"
  shows "\<exists>mm'. for_each body xs mm = Some mm' \<and> marks (g ` set xs) b mm mm'"
  using assms
proof (induction xs arbitrary: mm)
  case (Cons x xs)
  obtain t where t: "body x mm = Some t" "marks {g x} b mm t"
    using Cons.prems(1) [of x mm] Cons.prems(2,4) by auto
  have "\<exists>mm'. for_each body xs t = Some mm' \<and> marks (g ` set xs) b t mm'"
  proof (rule Cons.IH)
    show "mm_inv t"
      using t(2) Cons.prems(2) marks_inv by blast
    show "need \<longrightarrow> frame_used t (g y)" if "y \<in> set xs" for y
      using t(2) Cons.prems(3,4) that by (auto simp: marks_def) (metis imageI)
    show "\<exists>t'. body y u = Some t' \<and> marks {g y} b u t'"
      if "y \<in> set xs" "mm_inv u" "frame_count u = frame_count t" "need \<longrightarrow> frame_used u (g y)" for y u
      using Cons.prems(1) [of y u] that t(2) by (simp add: marks_def)
  qed (use Cons.prems(3) in simp)
  then show ?case
    using t marks_trans [OF t(2)] by auto
qed simp

lemma set_frames_marks:
  assumes "mm_inv mm" and "\<And>x. x \<in> set xs \<Longrightarrow> g x < frame_count mm"
  shows "\<exists>mm'. for_each (\<lambda>x. set_frame (g x)) xs mm = Some mm' \<and> marks (g ` set xs) True mm mm'"
  using assms by (intro for_each_marks [where need = False]) (auto intro!: set_frame_marks)

lemma clear_frames_marks:
  assumes "mm_inv mm" and "\<And>x. x \<in> set xs \<Longrightarrow> g x < frame_count mm"
  shows "\<exists>mm'. for_each (\<lambda>x. clear_frame (g x)) xs mm = Some mm' \<and> marks (g ` set xs) False mm mm'"
  using assms by (intro for_each_marks [where need = False]) (auto intro!: clear_frame_marks)

text \<open>A single frame: the lowest free one is taken, and nothing else changes.\<close>

lemma mul64_frame: "mm_inv mm \<Longrightarrow> i < frame_count mm \<Longrightarrow> mul64 i 4096 = i * 4096"
  by (rule mul64_exact) (simp add: mm_inv_def)

lemma alloc_frame_from_skip:
  assumes "mm_inv mm" and "\<forall>i \<in> set ys. i < frame_count mm \<and> frame_used mm i"
  shows "alloc_frame_from (ys @ zs) mm = alloc_frame_from zs mm"
  using assms(2) by (induction ys) (simp_all add: is_frame_set_eq [OF assms(1)])

lemma alloc_frame_full:
  assumes "mm_inv mm" and "used_frames mm = {..<frame_count mm}"
  shows "alloc_frame mm = None"
proof -
  have "\<forall>i \<in> set [0..<frame_count mm]. i < frame_count mm \<and> frame_used mm i"
    using assms(2) unfolding used_frames_def by (metis (lifting) atLeastLessThan_iff lessThan_iff mem_Collect_eq set_upt)
  then show ?thesis
    using alloc_frame_from_skip [OF assms(1), of "[0..<frame_count mm]" "[]"]
    by (simp add: alloc_frame_def)
qed

lemma alloc_frame_least:
  assumes "mm_inv mm" and "i < frame_count mm" and "i \<notin> used_frames mm"
    and "\<forall>j < i. j \<in> used_frames mm"
  shows "\<exists>mm'. alloc_frame mm = Some (i * 4096, mm') \<and> marks {i} True mm mm'"
proof -
  have "[0..<frame_count mm] = [0..<i] @ i # [Suc i..<frame_count mm]"
    using upt_add_eq_append [of 0 i "frame_count mm - i"] assms(2)
    by (simp add: upt_conv_Cons [OF assms(2)])
  moreover have "\<forall>j \<in> set [0..<i]. j < frame_count mm \<and> frame_used mm j" "\<not> frame_used mm i"
    using assms by (auto simp: used_frames_def)
  ultimately have "alloc_frame mm = do { mm' \<leftarrow> set_frame i mm; Some (i * 4096, mm') }"
    using alloc_frame_from_skip [OF assms(1)] assms(1,2)
    by (simp add: alloc_frame_def is_frame_set_eq mul64_frame)
  then show ?thesis
    using set_frame_marks [OF assms(1,2)] by auto
qed

lemma alloc_frame_cases:
  assumes "mm_inv mm"
  obtains (full) "used_frames mm = {..<frame_count mm}" "alloc_frame mm = None"
  | (taken) i mm' where "i < frame_count mm" "i \<notin> used_frames mm" "\<forall>j < i. j \<in> used_frames mm"
      "alloc_frame mm = Some (i * 4096, mm')" "marks {i} True mm mm'"
proof (cases "used_frames mm = {..<frame_count mm}")
  case True
  then show ?thesis
    by (rule full) (rule alloc_frame_full [OF assms True])
next
  case False
  moreover have "used_frames mm \<subseteq> {..<frame_count mm}"
    by (auto simp: used_frames_def)
  ultimately have "\<exists>i. i < frame_count mm \<and> i \<notin> used_frames mm"
    by (metis lessThan_iff subsetI subset_antisym)
  then obtain i where i: "i < frame_count mm \<and> i \<notin> used_frames mm"
    and least: "\<forall>j < i. \<not> (j < frame_count mm \<and> j \<notin> used_frames mm)"
    using exists_least_iff [of "\<lambda>i. i < frame_count mm \<and> i \<notin> used_frames mm"] by blast
  have below: "\<forall>j < i. j \<in> used_frames mm"
    using i least by (meson less_trans)
  obtain mm' where "alloc_frame mm = Some (i * 4096, mm')" "marks {i} True mm mm'"
    using alloc_frame_least [OF assms _ _ below] i by blast
  then show ?thesis
    using i below by (intro taken [of i mm']) simp_all
qed

lemma free_frame_eq:
  assumes "mm_inv mm"
  shows "free_frame a mm =
    (if a mod 4096 = 0 \<and> a div 4096 \<in> used_frames mm then clear_frame (a div 4096) mm else None)"
  using assms by (auto simp: free_frame_def is_frame_set_eq used_frames_def ensure_def)

lemma free_frame_marks:
  assumes "mm_inv mm" and "i \<in> used_frames mm"
  shows "\<exists>mm'. free_frame (i * 4096) mm = Some mm' \<and> marks {i} False mm mm'"
  using assms clear_frame_marks [of mm i] by (simp add: free_frame_eq used_frames_def)

text \<open>Runs of frames.\<close>

lemma found_space_iff:
  assumes "mm_inv mm" and "set js \<subseteq> {..<frame_count mm}"
  shows "found_space js mm = Some (set js \<inter> used_frames mm = {})"
  using assms(2)
  by (induction js) (auto simp: is_frame_set_eq [OF assms(1)] used_frames_def)

lemma found_space_beyond:
  assumes "mm_inv mm" and "found_space js mm = Some True"
  shows "set js \<subseteq> {..<frame_count mm}"
  using assms(2)
  by (induction js) (auto simp: is_frame_set_eq [OF assms(1)] split: if_splits)

lemma set_frame_run:
  assumes "mm_inv mm" and "k + n \<le> frame_count mm"
  shows "\<exists>mm'. for_each set_frame [k..<k + n] mm = Some mm' \<and> marks {k..<k + n} True mm mm'"
  using set_frames_marks [OF assms(1), of "[k..<k + n]" "\<lambda>x. x"] assms(2) by simp

lemma alloc_contiguous_from_marks:
  assumes "mm_inv mm" and "alloc_contiguous_from i n mm = Some (a, mm')"
  shows "\<exists>j k. k = i + j * n \<and> a = k * 4096 \<and> k + n \<le> frame_count mm \<and>
             {k..<k + n} \<inter> used_frames mm = {} \<and> marks {k..<k + n} True mm mm'"
  using assms
proof (induction i n mm rule: alloc_contiguous_from.induct)
  case (1 i n mm)
  have i: "i < frame_count mm"
    using "1.prems"(2) by (subst (asm) alloc_contiguous_from.simps) (auto split: if_splits)
  obtain found where found: "found_space [i..<i + n] mm = Some found"
    using "1.prems"(2) i
    by (subst (asm) alloc_contiguous_from.simps) (auto split: Option.bind_splits)
  show ?case
  proof (cases found)
    case False
    then have "alloc_contiguous_from (i + n) n mm = Some (a, mm')"
      using "1.prems" found i by (simp add: alloc_contiguous_from.simps [of i n mm])
    then obtain j where "let k = i + n + j * n in a = k * 4096 \<and> k + n \<le> frame_count mm \<and>
        {k..<k + n} \<inter> used_frames mm = {} \<and> marks {k..<k + n} True mm mm'"
      using "1.IH" [OF i found False "1.prems"(1)] unfolding Let_def by blast
    then show ?thesis
      by (intro exI [of _ "Suc j"] exI [of _ "i + n + j * n"]) (simp add: Let_def)
  next
    case True
    have sub: "set [i..<i + n] \<subseteq> {..<frame_count mm}"
      by (rule found_space_beyond [OF "1.prems"(1)]) (use found True in simp)
    then have free: "{i..<i + n} \<inter> used_frames mm = {}"
      using found_space_iff [OF "1.prems"(1) sub] found True by simp
    have "i + n \<le> frame_count mm"
    proof (cases n)
      case (Suc m)
      then have "i + m \<in> set [i..<i + n]" by simp
      then have "i + m < frame_count mm" using sub by blast
      then show ?thesis using Suc by simp
    qed (use i in simp)
    moreover obtain t where t: "for_each set_frame [i..<i + n] mm = Some t"
      "marks {i..<i + n} True mm t"
      using set_frame_run [OF "1.prems"(1) calculation] by blast
    moreover have "a = i * 4096" and "mm' = t"
      using "1.prems" found True i t(1)
      by (simp_all add: mul64_frame alloc_contiguous_from.simps [of i n mm])
    ultimately show ?thesis
      using free by (intro exI [of _ 0] exI [of _ i]) simp
  qed
qed

lemma alloc_contiguous_from_finds:
  assumes "mm_inv mm" and "0 < n" and "i + k * n + n \<le> frame_count mm"
    and "{i + k * n..<i + k * n + n} \<inter> used_frames mm = {}"
  shows "alloc_contiguous_from i n mm \<noteq> None"
  using assms(3,4)
proof (induction k arbitrary: i)
  case (Suc k)
  have sub: "set [i..<i + n] \<subseteq> {..<frame_count mm}"
    using Suc.prems(1) by auto
  show ?case
  proof (cases "{i..<i + n} \<inter> used_frames mm = {}")
    case True
    then show ?thesis
      using found_space_iff [OF assms(1) sub] set_frame_run [OF assms(1), of i n] Suc.prems(1) assms(2)
      by (subst alloc_contiguous_from.simps) auto
  next
    case False
    have "alloc_contiguous_from (i + n) n mm \<noteq> None"
      using Suc.prems by (intro Suc.IH) (simp_all add: algebra_simps)
    then show ?thesis
      using found_space_iff [OF assms(1) sub] False Suc.prems(1) assms(2)
      by (subst alloc_contiguous_from.simps) auto
  qed
next
  case 0
  have sub: "set [i..<i + n] \<subseteq> {..<frame_count mm}"
    using 0 by auto
  then show ?case
    using found_space_iff [OF assms(1) sub] set_frame_run [OF assms(1), of i n] 0 assms(2)
    by (subst alloc_contiguous_from.simps) auto
qed

text \<open>The number of frames an allocation of a given number of bytes takes.\<close>

definition frames_of :: "nat \<Rightarrow> nat" where
  "frames_of size' = (size' + 4095) div 4096"

lemma align_up_frames:
  assumes "size' + 4095 < 2 ^ 64"
  shows "align_up size' 4096 = Some (frames_of size' * 4096)"
  using align_up_page [OF assms] by (simp add: frames_of_def)

lemma alloc_contiguous_eq:
  "size' + 4095 < 2 ^ 64 \<Longrightarrow> alloc_contiguous size' mm = alloc_contiguous_from 0 (frames_of size') mm"
  by (simp add: alloc_contiguous_def align_up_frames)

lemma free_contiguous_marks:
  assumes "mm_inv mm" and "size' + 4095 < 2 ^ 64"
    and "{k..<k + frames_of size'} \<subseteq> used_frames mm"
  shows "\<exists>mm'. free_contiguous (k * 4096) size' mm = Some mm' \<and>
               marks {k..<k + frames_of size'} False mm mm'"
proof -
  let ?body = "\<lambda>i mm. do { used \<leftarrow> is_frame_set i mm; ensure used; clear_frame i mm }"
  have "\<exists>mm'. for_each ?body [k..<k + frames_of size'] mm = Some mm' \<and>
              marks ((\<lambda>i. i) ` set [k..<k + frames_of size']) False mm mm'"
  proof (rule for_each_marks [where need = True])
    fix x t
    assume x: "x \<in> set [k..<k + frames_of size']" "mm_inv t" "frame_count t = frame_count mm"
      "True \<longrightarrow> frame_used t x"
    then have "x < frame_count t"
      using assms(3) by (auto simp: used_frames_def)
    then show "\<exists>t'. ?body x t = Some t' \<and> marks {x} False t t'"
      using x clear_frame_marks [of t x] by (simp add: is_frame_set_eq)
  qed (use assms in \<open>auto simp: used_frames_def\<close>)
  then show ?thesis
    using assms(2) by (simp add: free_contiguous_def align_up_frames)
qed

section \<open>The interface the rest of memory management relies on\<close>

text \<open>
  What a client of the allocator may rely on: a frame it gets was not in use and is in use
  afterwards, giving it back makes exactly that frame free again, and neither call touches
  another frame. Frames are named by their physical address.
\<close>

locale frame_provider =
  fixes inv :: "'s \<Rightarrow> bool" and taken :: "'s \<Rightarrow> nat set"
    and get :: "'s \<Rightarrow> (nat \<times> 's) option" and give :: "nat \<Rightarrow> 's \<Rightarrow> 's option"
  assumes get_fresh: "inv s \<Longrightarrow> get s = Some (f, s') \<Longrightarrow>
      f \<notin> taken s \<and> taken s' = insert f (taken s) \<and> inv s'"
    and give_back: "inv s \<Longrightarrow> f \<in> taken s \<Longrightarrow>
      \<exists>s'. give f s = Some s' \<and> taken s' = taken s - {f} \<and> inv s'"
begin

fun get_many :: "nat \<Rightarrow> 's \<Rightarrow> (nat list \<times> 's) option" where
  "get_many 0 s = Some ([], s)"
| "get_many (Suc n) s = do { (f, s') \<leftarrow> get s; (fs, s'') \<leftarrow> get_many n s'; Some (f # fs, s'') }"

lemma get_many_fresh:
  assumes "inv s" and "get_many n s = Some (fs, s')"
  shows "length fs = n \<and> distinct fs \<and> set fs \<inter> taken s = {} \<and> taken s' = taken s \<union> set fs \<and> inv s'"
  using assms
proof (induction n arbitrary: s fs)
  case (Suc n)
  obtain f t gs where f: "get s = Some (f, t)" "get_many n t = Some (gs, s')" "fs = f # gs"
    using Suc.prems(2) by (auto split: Option.bind_splits)
  have t: "f \<notin> taken s" "taken t = insert f (taken s)" "inv t"
    using get_fresh [OF Suc.prems(1) f(1)] by auto
  show ?case
    using Suc.IH [OF t(3) f(2)] t f(3) by auto
qed simp

lemma give_many:
  assumes "inv s" and "distinct fs" and "set fs \<subseteq> taken s"
  shows "\<exists>s'. for_each give fs s = Some s' \<and> taken s' = taken s - set fs \<and> inv s'"
  using assms
proof (induction fs arbitrary: s)
  case (Cons f fs)
  obtain t where t: "give f s = Some t" "taken t = taken s - {f}" "inv t"
    using give_back [OF Cons.prems(1), of f] Cons.prems(3) by auto
  have "\<exists>s'. for_each give fs t = Some s' \<and> taken s' = taken t - set fs \<and> inv s'"
    using Cons.prems t by (intro Cons.IH) auto
  then show ?case
    using t by auto
qed simp

lemma get_give_many:
  assumes "inv s" and "get_many n s = Some (fs, s')"
  shows "\<exists>s''. for_each give fs s' = Some s'' \<and> taken s'' = taken s \<and> inv s''"
proof -
  have fs: "distinct fs" "set fs \<inter> taken s = {}" "taken s' = taken s \<union> set fs" "inv s'"
    using get_many_fresh [OF assms] by auto
  then obtain s'' where "for_each give fs s' = Some s''" "taken s'' = taken s' - set fs" "inv s''"
    using give_many [of s' fs] by auto
  then show ?thesis
    using fs by auto
qed

end

text \<open>The addresses of the frames in use.\<close>

definition used_addresses :: "memory_manager \<Rightarrow> nat set" where
  "used_addresses mm = (\<lambda>i. i * 4096) ` used_frames mm"

interpretation frames: frame_provider mm_inv used_addresses alloc_frame free_frame
proof
  fix s f s'
  assume inv: "mm_inv s" and a: "alloc_frame s = Some (f, s')"
  from inv show "f \<notin> used_addresses s \<and> used_addresses s' = insert f (used_addresses s) \<and> mm_inv s'"
  proof (cases rule: alloc_frame_cases)
    case (taken i mm')
    then have "used_frames s' = used_frames s \<union> {i}" "mm_inv s'" "f = i * 4096"
      using a inv marks_used(1) [of "{i}" s s'] marks_inv by auto
    then show ?thesis
      using taken(2) by (auto simp: used_addresses_def)
  qed (use a in simp)
next
  fix s f
  assume inv: "mm_inv s" and f: "f \<in> used_addresses s"
  then obtain i where i: "i \<in> used_frames s" "f = i * 4096"
    by (auto simp: used_addresses_def)
  obtain s' where s': "free_frame f s = Some s'" "marks {i} False s s'"
    using free_frame_marks [OF inv i(1)] i(2) by auto
  have "used_addresses s' = used_addresses s - {f}"
    by (simp add: used_addresses_def marks_used(2) [OF s'(2)] i(2) image_set_diff inj_on_def)
  then show "\<exists>s'. free_frame f s = Some s' \<and> used_addresses s' = used_addresses s - {f} \<and> mm_inv s'"
    using s'(1) marks_inv [OF s'(2)] inv by simp
qed

section \<open>Clients of the allocator\<close>

text \<open>
  The steps of clients that give back only what they hold. A client state is what is held, as
  address and size, together with the allocator.
\<close>

inductive frame_client ::
  "(nat \<times> nat) list \<times> memory_manager \<Rightarrow> (nat \<times> nat) list \<times> memory_manager \<Rightarrow> bool" where
  client_alloc_frame:
    "alloc_frame mm = Some (a, mm') \<Longrightarrow> frame_client (held, mm) ((a, 4096) # held, mm')"
| client_free_frame:
    "(a, 4096) \<in> set held \<Longrightarrow> free_frame a mm = Some mm' \<Longrightarrow>
       frame_client (held, mm) (remove1 (a, 4096) held, mm')"
| client_alloc_contiguous:
    "s + 4095 < 2 ^ 64 \<Longrightarrow> alloc_contiguous s mm = Some (a, mm') \<Longrightarrow>
       frame_client (held, mm) ((a, s) # held, mm')"
| client_free_contiguous:
    "(a, s) \<in> set held \<Longrightarrow> free_contiguous a s mm = Some mm' \<Longrightarrow>
       frame_client (held, mm) (remove1 (a, s) held, mm')"

definition block :: "nat \<times> nat \<Rightarrow> nat list" where
  "block b = [fst b div 4096..<fst b div 4096 + frames_of (snd b)]"

abbreviation held_frames :: "(nat \<times> nat) list \<Rightarrow> nat list" where
  "held_frames held \<equiv> concat (map block held)"

lemma set_block: "set (block (k * 4096, s)) = {k..<k + frames_of s}"
  by (simp add: block_def)

lemma frames_of_page [simp]: "frames_of 4096 = 1"
  by (simp add: frames_of_def)

definition client_inv :: "nat set \<Rightarrow> (nat \<times> nat) list \<times> memory_manager \<Rightarrow> bool" where
  "client_inv U c \<longleftrightarrow> (let (held, mm) = c in
     mm_inv mm \<and> distinct (held_frames held) \<and> set (held_frames held) \<inter> U = {} \<and>
     used_frames mm = U \<union> set (held_frames held) \<and>
     (\<forall>(a, s) \<in> set held. 4096 dvd a \<and> s + 4095 < 2 ^ 64))"

lemma client_inv_take:
  assumes "client_inv U (held, mm)" and "s + 4095 < 2 ^ 64"
    and "marks {k..<k + frames_of s} True mm mm'" and "k + frames_of s \<le> frame_count mm"
    and "{k..<k + frames_of s} \<inter> used_frames mm = {}"
  shows "client_inv U ((k * 4096, s) # held, mm')"
proof -
  let ?B = "set (block (k * 4096, s))" and ?H = "set (held_frames held)"
  have inv: "mm_inv mm" "distinct (held_frames held)" "?H \<inter> U = {}" "used_frames mm = U \<union> ?H"
    "\<forall>(a, s) \<in> set held. 4096 dvd a \<and> s + 4095 < 2 ^ 64"
    using assms(1) by (simp_all add: client_inv_def)
  have "used_frames mm' = used_frames mm \<union> ?B"
    unfolding set_block using assms(3,4) by (intro marks_used(1)) auto
  moreover have "?B \<inter> (U \<union> ?H) = {}"
    using assms(5) by (simp add: set_block inv(4))
  moreover have "distinct (block (k * 4096, s))"
    by (simp add: block_def)
  ultimately have "used_frames mm' = U \<union> set (held_frames ((k * 4096, s) # held))"
    "set (held_frames ((k * 4096, s) # held)) \<inter> U = {}" "distinct (held_frames ((k * 4096, s) # held))"
    using inv(2-4) by auto
  then show ?thesis
    using inv(1,5) assms(2) marks_inv [OF assms(3)] by (simp add: client_inv_def)
qed

lemma held_frames_remove:
  assumes "b \<in> set held" and "distinct (held_frames held)"
  shows "distinct (held_frames (remove1 b held))"
    and "set (held_frames (remove1 b held)) = set (held_frames held) - set (block b)"
proof -
  obtain ys zs where h: "held = ys @ b # zs" "b \<notin> set ys"
    using assms(1) by (meson split_list_first)
  then have "remove1 b held = ys @ zs"
    by (simp add: remove1_append)
  then show "distinct (held_frames (remove1 b held))"
    and "set (held_frames (remove1 b held)) = set (held_frames held) - set (block b)"
    using assms(2) unfolding h by auto
qed

lemma client_inv_give:
  assumes "client_inv U (held, mm)" and "(a, s) \<in> set held"
    and "marks (set (block (a, s))) False mm mm'"
  shows "client_inv U (remove1 (a, s) held, mm')"
proof -
  have d: "distinct (held_frames held)" and u: "used_frames mm = U \<union> set (held_frames held)"
    and disj: "set (held_frames held) \<inter> U = {}"
    using assms(1) by (auto simp: client_inv_def)
  have "set (block (a, s)) \<subseteq> set (held_frames held)"
    using assms(2) by auto
  then have "used_frames mm' = U \<union> set (held_frames (remove1 (a, s) held))"
    unfolding marks_used(2) [OF assms(3)] u held_frames_remove(2) [OF assms(2) d]
    using disj by blast
  then show ?thesis
    using assms(1) held_frames_remove [OF assms(2) d] marks_inv [OF assms(3)] disj
    by (auto simp: client_inv_def dest: notin_set_remove1)
qed

text \<open>A held block can be given back, whichever way it was obtained.\<close>

lemma client_can_free:
  assumes "client_inv U (held, mm)" and "(a, s) \<in> set held"
  shows "\<exists>mm'. free_contiguous a s mm = Some mm' \<and> marks (set (block (a, s))) False mm mm'"
    and "s = 4096 \<Longrightarrow> \<exists>mm'. free_frame a mm = Some mm' \<and> marks (set (block (a, s))) False mm mm'"
proof -
  obtain k where a: "a = k * 4096" and s: "s + 4095 < 2 ^ 64" and inv: "mm_inv mm"
    using assms by (auto simp: client_inv_def elim!: dvdE)
  have "set (block (a, s)) \<subseteq> used_frames mm"
    using assms by (auto simp: client_inv_def)
  then have used: "{k..<k + frames_of s} \<subseteq> used_frames mm"
    by (simp add: a set_block)
  show "\<exists>mm'. free_contiguous a s mm = Some mm' \<and> marks (set (block (a, s))) False mm mm'"
    using free_contiguous_marks [OF inv s used] by (simp add: a set_block)
  assume p: "s = 4096"
  then show "\<exists>mm'. free_frame a mm = Some mm' \<and> marks (set (block (a, s))) False mm mm'"
    using free_frame_marks [OF inv, of k] used by (simp add: a set_block)
qed

lemma frame_client_inv:
  assumes "frame_client c c'" and "client_inv U c"
  shows "client_inv U c'"
  using assms
proof (induction rule: frame_client.induct)
  case (client_alloc_frame mm a mm' held)
  have inv: "mm_inv mm"
    using client_alloc_frame.prems by (simp add: client_inv_def)
  then show ?case
  proof (cases rule: alloc_frame_cases)
    case (taken i t)
    then have "client_inv U ((i * 4096, 4096) # held, t)"
      using client_alloc_frame.prems by (intro client_inv_take [where mm = mm]) simp_all
    then show ?thesis
      using taken(4) client_alloc_frame.hyps by simp
  qed (use client_alloc_frame.hyps in simp)
next
  case (client_alloc_contiguous s mm a mm' held)
  have inv: "mm_inv mm"
    using client_alloc_contiguous.prems by (simp add: client_inv_def)
  have "alloc_contiguous_from 0 (frames_of s) mm = Some (a, mm')"
    using client_alloc_contiguous.hyps by (simp add: alloc_contiguous_eq)
  then obtain k where "a = k * 4096" "k + frames_of s \<le> frame_count mm"
    "{k..<k + frames_of s} \<inter> used_frames mm = {}" "marks {k..<k + frames_of s} True mm mm'"
    using alloc_contiguous_from_marks [OF inv] by blast
  then show ?case
    using client_inv_take [OF client_alloc_contiguous.prems client_alloc_contiguous.hyps(1)] by simp
next
  case (client_free_frame a held mm mm')
  then show ?case
    using client_can_free(2) [OF client_free_frame.prems client_free_frame.hyps(1)]
      client_inv_give by fastforce
next
  case (client_free_contiguous a s held mm mm')
  then show ?case
    using client_can_free(1) [OF client_free_contiguous.prems client_free_contiguous.hyps(1)]
      client_inv_give by fastforce
qed

lemma frame_clients_inv: "frame_client\<^sup>*\<^sup>* c c' \<Longrightarrow> client_inv U c \<Longrightarrow> client_inv U c'"
  by (induction rule: rtranclp_induct) (auto intro: frame_client_inv)

text \<open>
  C4. Physical memory is never handed out twice: however clients interleave allocations and
  frees of single frames and of contiguous runs, the blocks held at any time are pairwise
  disjoint, none of them was in use at the start, the allocator's bit set shows exactly the
  frames in use at the start and the frames held, and every held block can be given back
  without tripping an assertion.
\<close>

theorem frames_exclusive:
  assumes "mm_inv mm0" and "frame_client\<^sup>*\<^sup>* ([], mm0) (held, mm)"
  shows "distinct (held_frames held) \<and> set (held_frames held) \<inter> used_frames mm0 = {} \<and>
         used_frames mm = used_frames mm0 \<union> set (held_frames held) \<and>
         (\<forall>(a, s) \<in> set held. free_contiguous a s mm \<noteq> None)"
proof -
  have "client_inv (used_frames mm0) ([], mm0)"
    using assms(1) by (simp add: client_inv_def)
  then have inv: "client_inv (used_frames mm0) (held, mm)"
    using frame_clients_inv [OF assms(2)] by blast
  moreover have "free_contiguous a s mm \<noteq> None" if "(a, s) \<in> set held" for a s
    using client_can_free(1) [OF inv that] by auto
  ultimately show ?thesis
    by (auto simp: client_inv_def)
qed

theorem frames_exclusive_witness:
  "let mm0 = \<lparr>frame_bitset = (\<lambda>_. 0), frame_count = 10\<rparr> in
   \<exists>held mm. frame_client\<^sup>*\<^sup>* ([], mm0) (held, mm) \<and> used_frames mm = set (held_frames held) \<and> held \<noteq> []"
proof -
  define mm0 :: memory_manager where "mm0 = \<lparr>frame_bitset = (\<lambda>_. 0), frame_count = 10\<rparr>"
  have inv: "mm_inv mm0" and used: "used_frames mm0 = {}"
    by (simp_all add: mm0_def mm_inv_def used_frames_def frame_used_def)
  obtain mm where "alloc_frame mm0 = Some (0 * 4096, mm)"
    using alloc_frame_least [OF inv, of 0] used by (auto simp: mm0_def)
  then have "frame_client\<^sup>*\<^sup>* ([], mm0) ([(0, 4096)], mm)"
    by (auto intro: frame_client.client_alloc_frame)
  then show ?thesis
    using frames_exclusive [OF inv] used unfolding Let_def mm0_def by blast
qed

text \<open>
  C28. A contiguous allocation of \<open>n\<close> frames looks at the runs that start at a multiple of
  \<open>n\<close>: it fails exactly when each such run inside the memory has a frame in use, and
  otherwise takes one of them, all of whose frames were free.
\<close>

theorem alloc_contiguous_aligned_runs:
  assumes "mm_inv mm" and "0 < s" and "s + 4095 < 2 ^ 64"
  defines "n \<equiv> frames_of s"
  shows "case alloc_contiguous s mm of
      None \<Rightarrow> \<forall>j. j * n + n \<le> frame_count mm \<longrightarrow> {j * n..<j * n + n} \<inter> used_frames mm \<noteq> {}
    | Some (a, mm') \<Rightarrow> \<exists>j. a = j * n * 4096 \<and> j * n + n \<le> frame_count mm \<and>
        {j * n..<j * n + n} \<inter> used_frames mm = {} \<and>
        used_frames mm' = used_frames mm \<union> {j * n..<j * n + n}"
proof (cases "alloc_contiguous s mm")
  case None
  have "0 < n"
    using assms(2) by (simp add: n_def frames_of_def)
  then show ?thesis
    using None alloc_contiguous_from_finds [OF assms(1), of n 0] assms(3)
    by (auto simp: alloc_contiguous_eq n_def)
next
  case (Some r)
  obtain a mm' where r: "r = (a, mm')"
    by fastforce
  have "alloc_contiguous_from 0 n mm = Some (a, mm')"
    using Some assms(3) by (simp add: alloc_contiguous_eq n_def r)
  from alloc_contiguous_from_marks [OF assms(1) this]
  obtain j where j: "a = j * n * 4096" "j * n + n \<le> frame_count mm"
    "{j * n..<j * n + n} \<inter> used_frames mm = {}" "marks {j * n..<j * n + n} True mm mm'"
    by auto
  moreover have "used_frames mm' = used_frames mm \<union> {j * n..<j * n + n}"
    using j(2) by (intro marks_used(1) [OF j(4)]) auto
  ultimately show ?thesis
    by (auto simp: Some r)
qed

theorem alloc_contiguous_aligned_runs_witness:
  "let mm = \<lparr>frame_bitset = (\<lambda>_. word_set_bit 0 0), frame_count = 3\<rparr> in
   alloc_contiguous 8192 mm = None \<and> used_frames mm = {0}"
proof -
  define mm :: memory_manager where "mm = \<lparr>frame_bitset = (\<lambda>_. word_set_bit 0 0), frame_count = 3\<rparr>"
  have inv: "mm_inv mm"
    by (simp add: mm_def mm_inv_def)
  have used: "used_frames mm = {0}"
    by (auto simp: mm_def used_frames_def frame_used_def bit_word_set_bit)
  have "frames_of 8192 = 2"
    by (simp add: frames_of_def)
  then have "alloc_contiguous 8192 mm = None"
    using alloc_contiguous_aligned_runs [OF inv, of 8192] used
    by (auto simp: mm_def split: option.splits)
  then show ?thesis
    using used by (simp add: mm_def)
qed

section \<open>Memory at boot\<close>

lemma for_each_marked:
  assumes "for_each body xs mm = Some mm'" and "mm_inv mm"
    and "\<And>x t t'. x \<in> set xs \<Longrightarrow> mm_inv t \<Longrightarrow> body x t = Some t' \<Longrightarrow> marks (A x) b t t'"
  shows "marks (\<Union>x \<in> set xs. A x) b mm mm'"
  using assms
proof (induction xs arbitrary: mm)
  case (Cons x xs)
  obtain t where t: "body x mm = Some t" "for_each body xs t = Some mm'"
    using Cons.prems(1) by (auto split: Option.bind_splits)
  have m: "marks (A x) b mm t"
    using Cons.prems(2,3) t(1) by (meson list.set_intros(1))
  then have "marks (\<Union>x \<in> set xs. A x) b t mm'"
    using Cons.prems(2,3) by (intro Cons.IH [OF t(2)]) (simp_all add: marks_inv)
  then show ?case
    using marks_trans [OF m] by simp
qed simp

lemma set_frame_marked: "mm_inv mm \<Longrightarrow> set_frame i mm = Some mm' \<Longrightarrow> marks {i} True mm mm'"
  using set_frame_marks [of mm i] set_frame_None [of mm i] by fastforce

lemma clear_frame_marked: "mm_inv mm \<Longrightarrow> clear_frame i mm = Some mm' \<Longrightarrow> marks {i} False mm mm'"
  using clear_frame_marks [of mm i] clear_frame_None [of mm i] by fastforce

lemma shifted_frames: "(\<Union>j \<in> set [0..<n]. {b + j}) = {b..<b + n}" for b :: nat
proof -
  have "(\<Union>j \<in> set [0..<n]. {b + j}) = (+) b ` {0..<n}"
    by (simp only: UNION_singleton_eq_range set_upt)
  then show ?thesis
    by (simp add: image_add_atLeastLessThan add.commute)
qed

definition entry_frames :: "memory_map_entry \<Rightarrow> nat set" where
  "entry_frames e = {entry_base e div 4096..<entry_base e div 4096 + entry_page_count e}"

lemma clear_entry_marked:
  assumes "mm_inv mm" and "clear_entry e mm = Some mm'"
  shows "marks (entry_frames e) False mm mm'"
proof -
  have "marks (\<Union>j \<in> set [0..<entry_page_count e]. {entry_base e div 4096 + j}) False mm mm'"
    using assms unfolding clear_entry_def
    by (intro for_each_marked [where A = "\<lambda>j. {entry_base e div 4096 + j}"]) (auto intro: clear_frame_marked)
  then show ?thesis
    unfolding shifted_frames entry_frames_def .
qed

text \<open>The frames that the memory map gives as available, or as reclaimable.\<close>

definition frames_of_type :: "memory_type \<Rightarrow> boot_info \<Rightarrow> nat set" where
  "frames_of_type ty bi =
     (\<Union>i \<in> {i. i < map_entry_count bi \<and> entry_type (bi_map bi i) = ty}. entry_frames (bi_map bi i))"

lemma clear_available_marked:
  assumes "mm_inv mm"
    and "for_each (\<lambda>i mm. if entry_type (bi_map bi i) \<noteq> Available then Some mm
                          else clear_entry (bi_map bi i) mm) [0..<map_entry_count bi] mm = Some mm'"
  shows "marks (frames_of_type Available bi) False mm mm'"
proof -
  let ?A = "\<lambda>i. if entry_type (bi_map bi i) \<noteq> Available then {} else entry_frames (bi_map bi i)"
  have "marks (\<Union>i \<in> set [0..<map_entry_count bi]. ?A i) False mm mm'"
    using assms by (intro for_each_marked [where A = ?A]) (auto intro: clear_entry_marked split: if_splits)
  moreover have "(\<Union>i \<in> set [0..<map_entry_count bi]. ?A i) = frames_of_type Available bi"
    by (auto simp: frames_of_type_def split: if_splits)
  ultimately show ?thesis
    by simp
qed

lemma memory_end_bound:
  assumes "for_each (memory_end_step bi) xs 0 = Some e"
  shows "e < 2 ^ 64"
  by (rule for_each_invariant [OF assms, where P = "\<lambda>e. e < 2 ^ 64"])
    (auto simp: memory_end_step_def Let_def add64_def split: if_splits)

text \<open>
  What the allocator believes after it has read the memory map. For the frames whose bit
  lies in a bucket that was filled with ones, a frame is free exactly when the map lists it as
  available and it is neither frame 0 nor part of the bit set itself. But bit \<open>i\<close> is kept in
  bucket \<open>i div 64 + 1\<close>, so when the number of frames is not a multiple of 64 the bits of the
  last frames lie behind the array, where nothing was filled in: a frame there that the map
  does not list as available is free or not according to what the memory held before.
\<close>

theorem parse_memory_map_used:
  assumes "parse_memory_map bi garbage = Some mm"
  shows "\<exists>location. find_first_fit_region bi ((frame_count mm div 64 + 1) * 8) = Some (Some location) \<and>
    (\<forall>i < frame_count mm. i \<in> used_frames mm \<longleftrightarrow>
       i = 0 \<or>
       i \<in> {location div 4096..<location div 4096 + frames_of ((frame_count mm div 64 + 1) * 8)} \<or>
       i \<notin> frames_of_type Available bi \<and>
         (i div 64 < frame_count mm div 64 \<or> bit (garbage (i div 64 + 1)) (i mod 64)))"
proof -
  obtain e location mm1 mm2 bytes where
    e: "for_each (memory_end_step bi) [0..<map_entry_count bi] 0 = Some e"
    and loc: "find_first_fit_region bi ((e div 4096 div 64 + 1) * 8) = Some (Some location)"
    and mm1: "for_each (\<lambda>i mm. if entry_type (bi_map bi i) \<noteq> Available then Some mm
                              else clear_entry (bi_map bi i) mm) [0..<map_entry_count bi]
        \<lparr>frame_bitset = (\<lambda>b. if b < e div 4096 div 64 + 1 then - 1 else garbage b),
         frame_count = e div 4096\<rparr> = Some mm1"
    and mm2: "set_frame 0 mm1 = Some mm2"
    and bytes: "align_up ((e div 4096 div 64 + 1) * 8) 4096 = Some bytes"
    and mm: "for_each (\<lambda>i. set_frame (location div 4096 + i)) [0..<bytes div 4096] mm2 = Some mm"
    using assms by (auto simp: parse_memory_map_def Let_def split: Option.bind_splits)
  let ?mm0 = "\<lparr>frame_bitset = (\<lambda>b. if b < e div 4096 div 64 + 1 then - 1 else garbage b),
         frame_count = e div 4096\<rparr> :: memory_manager"
  have "e < 2 ^ 64"
    using memory_end_bound [OF e] .
  then have inv0: "mm_inv ?mm0" and b: "bytes div 4096 = frames_of ((e div 4096 div 64 + 1) * 8)"
    using bytes align_up_frames [of "(e div 4096 div 64 + 1) * 8"] by (simp_all add: mm_inv_def)
  have m1: "marks (frames_of_type Available bi) False ?mm0 mm1"
    using clear_available_marked [OF inv0 mm1] .
  have m2: "marks {0} True mm1 mm2"
    using set_frame_marked mm2 marks_inv [OF m1] inv0 by blast
  let ?B = "{location div 4096..<location div 4096 + bytes div 4096}"
  have "marks (\<Union>i \<in> set [0..<bytes div 4096]. {location div 4096 + i}) True mm2 mm"
    using marks_inv [OF m1] marks_inv [OF m2] inv0
    by (intro for_each_marked [OF mm]) (auto intro: set_frame_marked)
  then have m3: "marks ?B True mm2 mm"
    unfolding shifted_frames .
  have fc: "frame_count mm = e div 4096"
    using m1 m2 m3 by (simp add: marks_def)
  have "frame_used ?mm0 i \<longleftrightarrow> i div 64 < e div 4096 div 64 \<or> bit (garbage (i div 64 + 1)) (i mod 64)" for i
    by (simp add: frame_used_def)
  then have "frame_used mm i \<longleftrightarrow> i = 0 \<or> i \<in> ?B \<or> i \<notin> frames_of_type Available bi \<and>
      (i div 64 < e div 4096 div 64 \<or> bit (garbage (i div 64 + 1)) (i mod 64))" for i
    using m1 m2 m3 by (simp add: marks_def del: atLeastLessThan_iff)
  then show ?thesis
    using loc by (auto simp: fc used_frames_def b)
qed

text \<open>
  A machine with three frames, the last of them reserved. The bit set is found through the
  entry behind the end of the map, and the reserved frame counts as free.
\<close>

definition demo_boot :: boot_info where
  "demo_boot = \<lparr>bi_map = (\<lambda>i. if i = 0 then \<lparr>entry_type = Available, entry_base = 0, entry_page_count = 2\<rparr>
       else if i = 1 then \<lparr>entry_type = Reserved, entry_base = 8192, entry_page_count = 1\<rparr>
       else \<lparr>entry_type = Available, entry_base = 4096, entry_page_count = 1\<rparr>),
     map_entry_count = 2\<rparr>"

theorem parse_memory_map_used_witness:
  "\<exists>mm. parse_memory_map demo_boot (\<lambda>_. 0) = Some mm \<and> 2 < frame_count mm \<and> 2 \<notin> used_frames mm \<and>
        2 \<notin> frames_of_type Available demo_boot"
proof -
  have upt: "[0..<2] = [0, 1::nat]" "[0..<1] = [0::nat]" "[0..<Suc 0] = [0::nat]"
    by (simp_all add: upt_rec)
  have ff: "first_fit_from bi n 2 = first_fit_from bi n (Suc 1)" for bi n
    by (simp only: Suc_1)
  have loc: "find_first_fit_region demo_boot 8 = Some (Some 4096)"
    by (simp add: find_first_fit_region_def align_up_page demo_boot_def ff)
  have m: "map_entry_count demo_boot = 2"
    "bi_map demo_boot 0 = \<lparr>entry_type = Available, entry_base = 0, entry_page_count = 2\<rparr>"
    "bi_map demo_boot (Suc 0) = \<lparr>entry_type = Reserved, entry_base = 8192, entry_page_count = 1\<rparr>"
    by (simp_all add: demo_boot_def)
  have mem: "for_each (memory_end_step demo_boot) [0, 1] 0 = Some 12288"
    by (simp add: memory_end_step_def demo_boot_def add64_def mul64_def Let_def)
  have "\<exists>mm. parse_memory_map demo_boot (\<lambda>_. 0) = Some mm \<and> frame_count mm = 3"
    using loc mem
    by (simp add: parse_memory_map_def upt align_up_page clear_entry_def clear_frame_def set_frame_def
        frame_bitset_bucket_def Let_def m)
  then obtain mm where mm: "parse_memory_map demo_boot (\<lambda>_. 0) = Some mm" "frame_count mm = 3"
    by blast
  have avail: "2 \<notin> frames_of_type Available demo_boot"
    by (auto simp: frames_of_type_def entry_frames_def demo_boot_def split: if_splits)
  have "2 \<notin> used_frames mm"
    using parse_memory_map_used [OF mm(1)] mm(2) avail loc by (simp add: frames_of_def)
  then show ?thesis
    using mm avail by auto
qed

end
