(* ===== verification/Vm_Object.thy ===== *)
theory Vm_Object
  imports Frames
begin

text \<open>
  Physical pages and the memory objects made of them: \<^verbatim>\<open>src/kernel/mem/physical_page.hh\<close>,
  \<^verbatim>\<open>physical_page.cc\<close> and \<^verbatim>\<open>vm_object.cc\<close>. A physical page packs its address, its
  size and whether it was allocated into one 64-bit word. A memory object covers its size with
  the largest pages that fit, and its pages are given back when it is destroyed.
\<close>

section \<open>Physical pages\<close>

datatype physical_page_size = Normal | Large | Huge

fun page_size_value :: "physical_page_size \<Rightarrow> nat" where
  "page_size_value Normal = 0"
| "page_size_value Large = 1"
| "page_size_value Huge = 2"

record physical_page =
  pp_raw :: u64

definition physical_page_new :: "nat \<Rightarrow> physical_page_size \<Rightarrow> bool \<Rightarrow> physical_page" where
  "physical_page_new phys ps allocated =
     \<lparr>pp_raw = of_nat phys OR push_bit 56 (of_nat (page_size_value ps)) OR
        (if allocated then push_bit 63 1 else 0)\<rparr>"

definition pp_phys :: "physical_page \<Rightarrow> nat" where
  "pp_phys p = unat (pp_raw p AND 0xffffffffffffff)"

text \<open>The cast to the enumeration is only meaningful for the three values it has.\<close>

definition pp_size :: "physical_page \<Rightarrow> physical_page_size option" where
  "pp_size p =
     (let v = drop_bit 56 (pp_raw p) AND 0xf
      in if v = 0 then Some Normal else if v = 1 then Some Large
         else if v = 2 then Some Huge else None)"

definition pp_allocated :: "physical_page \<Rightarrow> bool" where
  "pp_allocated p \<longleftrightarrow> pp_raw p AND push_bit 63 1 \<noteq> 0"

fun from_page_size :: "physical_page_size \<Rightarrow> nat" where
  "from_page_size Normal = KiB 4"
| "from_page_size Large = MiB 2"
| "from_page_size Huge = GiB 1"

definition to_page_size :: "nat \<Rightarrow> physical_page_size option" where
  "to_page_size n =
     (if n = KiB 4 then Some Normal else if n = MiB 2 then Some Large
      else if n = GiB 1 then Some Huge else None)"

definition physical_page_allocate ::
  "physical_page_size \<Rightarrow> memory_manager \<Rightarrow> (physical_page \<times> memory_manager) option" where
  "physical_page_allocate ps mm =
     (case ps of
        Normal \<Rightarrow> do { (phys, mm') \<leftarrow> alloc_frame mm; Some (physical_page_new phys ps True, mm') }
      | Large \<Rightarrow> do { (phys, mm') \<leftarrow> alloc_contiguous (MiB 2) mm; Some (physical_page_new phys ps True, mm') }
      | Huge \<Rightarrow> do { (phys, mm') \<leftarrow> alloc_contiguous (GiB 1) mm; Some (physical_page_new phys ps True, mm') })"

definition physical_page_create :: "nat \<Rightarrow> physical_page_size \<Rightarrow> physical_page" where
  "physical_page_create phys ps = physical_page_new phys ps False"

definition physical_page_destroy :: "physical_page \<Rightarrow> memory_manager \<Rightarrow> memory_manager option" where
  "physical_page_destroy p mm =
     (if \<not> pp_allocated p then Some mm
      else do {
        ps \<leftarrow> pp_size p;
        (case ps of
           Normal \<Rightarrow> free_frame (pp_phys p) mm
         | Large \<Rightarrow> free_contiguous (pp_phys p) (MiB 2) mm
         | Huge \<Rightarrow> free_contiguous (pp_phys p) (GiB 1) mm)
      })"

section \<open>Memory objects\<close>

record vm_object =
  vm_physical_pages :: "physical_page list"
  vm_size :: nat

definition next_page_size :: "nat \<Rightarrow> nat" where
  "next_page_size n = (if GiB 1 \<le> n then GiB 1 else if MiB 2 \<le> n then MiB 2 else KiB 4)"

text \<open>
  The loops are \<open>do\<close> loops that stop when the remaining size is zero: entered with size zero
  the subtraction wraps around.
\<close>

partial_function (option) vm_create_loop ::
  "nat \<Rightarrow> physical_page list \<Rightarrow> memory_manager \<Rightarrow> (physical_page list \<times> memory_manager) option" where
  "vm_create_loop n pages mm = do {
     ps \<leftarrow> to_page_size (next_page_size n);
     (page, mm') \<leftarrow> physical_page_allocate ps mm;
     let n' = sub64 n (next_page_size n);
     if n' \<noteq> 0 then vm_create_loop n' (pages @ [page]) mm' else Some (pages @ [page], mm')
   }"

definition vm_object_create :: "nat \<Rightarrow> memory_manager \<Rightarrow> (vm_object \<times> memory_manager) option" where
  "vm_object_create n mm = do {
     n' \<leftarrow> align_up n (KiB 4);
     (pages, mm') \<leftarrow> vm_create_loop n' [] mm;
     Some (\<lparr>vm_physical_pages = pages, vm_size = n'\<rparr>, mm')
   }"

partial_function (option) vm_create_physical_loop ::
  "nat \<Rightarrow> nat \<Rightarrow> physical_page list \<Rightarrow> physical_page list option" where
  "vm_create_physical_loop base n pages = do {
     ps \<leftarrow> to_page_size (next_page_size n);
     let page = physical_page_create base ps;
     let base' = add64 base (next_page_size n);
     let n' = sub64 n (next_page_size n);
     if n' \<noteq> 0 then vm_create_physical_loop base' n' (pages @ [page]) else Some (pages @ [page])
   }"

definition vm_object_create_physical :: "nat \<Rightarrow> nat \<Rightarrow> vm_object option" where
  "vm_object_create_physical base n = do {
     n' \<leftarrow> align_up n (KiB 4);
     pages \<leftarrow> vm_create_physical_loop base n' [];
     Some \<lparr>vm_physical_pages = pages, vm_size = n'\<rparr>
   }"

text \<open>The destructor runs the destructor of each page.\<close>

definition vm_object_destroy :: "vm_object \<Rightarrow> memory_manager \<Rightarrow> memory_manager option" where
  "vm_object_destroy vmo = for_each physical_page_destroy (vm_physical_pages vmo)"

section \<open>Packing\<close>

lemma bit_of_small:
  assumes "x < 2 ^ k" and "k \<le> n"
  shows "\<not> bit (of_nat x :: u64) n"
proof -
  have "x < 2 ^ n"
    using assms by (meson le_less_trans less_le_trans one_le_numeral power_increasing)
  then have "\<not> bit x n"
    by (metis bit_take_bit_iff less_irrefl take_bit_nat_eq_self)
  then show ?thesis
    by (simp add: bit_of_nat_iff_bit bit_simps)
qed

lemma page_size_value_less: "page_size_value ps < 2 ^ 2"
  by (cases ps) simp_all

lemma bit_top: "bit (push_bit 63 (1 :: u64)) n \<longleftrightarrow> n = 63"
  by (auto simp only: bit_push_bit_iff bit_1_iff) simp_all

lemma bit_pp_raw:
  "bit (pp_raw (physical_page_new phys ps a)) n \<longleftrightarrow>
     bit (of_nat phys :: u64) n \<or>
     56 \<le> n \<and> n < 64 \<and> bit (of_nat (page_size_value ps) :: u64) (n - 56) \<or> a \<and> n = 63"
  unfolding physical_page_new_def physical_page.simps bit_or_iff
  by (auto simp only: bit_push_bit_iff bit_top bit_0_eq split: if_splits) simp_all

lemma bit_mask_u64: "bit (mask k :: u64) n \<longleftrightarrow> n < 64 \<and> n < k"
  by (auto simp: bit_mask_iff)

lemma pp_phys_new: "phys < 2 ^ 56 \<Longrightarrow> pp_phys (physical_page_new phys ps a) = phys"
proof -
  assume p: "phys < 2 ^ 56"
  have m: "(0xffffffffffffff :: u64) = mask 56"
    by (simp add: mask_eq_exp_minus_1)
  have "pp_raw (physical_page_new phys ps a) AND mask 56 = of_nat phys"
  proof (rule bit_eqI)
    fix n
    have "bit (of_nat phys :: u64) n \<Longrightarrow> n < 56"
      using bit_of_small [OF p, of n] by (meson not_less)
    then show "bit (pp_raw (physical_page_new phys ps a) AND mask 56) n = bit (of_nat phys :: u64) n"
      unfolding bit_and_iff bit_pp_raw bit_mask_u64 by fastforce
  qed
  then show ?thesis
    using p by (simp add: pp_phys_def m unat_of_nat)
qed

lemma pp_size_new: "phys < 2 ^ 56 \<Longrightarrow> pp_size (physical_page_new phys ps a) = Some ps"
proof -
  assume p: "phys < 2 ^ 56"
  have m: "(0xf :: u64) = mask 4"
    by (simp add: mask_eq_exp_minus_1)
  have "drop_bit 56 (pp_raw (physical_page_new phys ps a)) AND mask 4 = of_nat (page_size_value ps)"
  proof (rule bit_eqI)
    fix n
    have "\<not> bit (of_nat phys :: u64) (56 + n)"
      by (rule bit_of_small [OF p]) simp
    moreover have "bit (of_nat (page_size_value ps) :: u64) n \<Longrightarrow> n < 2"
      using bit_of_small [OF page_size_value_less, of n] by (meson not_less)
    ultimately show "bit (drop_bit 56 (pp_raw (physical_page_new phys ps a)) AND mask 4) n =
        bit (of_nat (page_size_value ps) :: u64) n"
      unfolding bit_and_iff bit_drop_bit_eq o_def bit_pp_raw bit_mask_u64 by fastforce
  qed
  then show ?thesis
    by (cases ps) (simp_all add: pp_size_def m Let_def)
qed

lemma pp_allocated_new: "phys < 2 ^ 56 \<Longrightarrow> pp_allocated (physical_page_new phys ps a) = a"
proof -
  assume p: "phys < 2 ^ 56"
  have "pp_allocated x \<longleftrightarrow> bit (pp_raw x) 63" for x
    using word_test_bit_iff [of 63 "pp_raw x"] by (simp add: pp_allocated_def word_test_bit_def)
  moreover have "\<not> bit (of_nat phys :: u64) 63"
    by (rule bit_of_small [OF p]) simp
  moreover have "\<not> bit (of_nat (page_size_value ps) :: u64) 7"
    by (rule bit_of_small [OF page_size_value_less]) simp
  ultimately show ?thesis
    by (simp add: bit_pp_raw)
qed

lemmas physical_page_new_simps = pp_phys_new pp_size_new pp_allocated_new

section \<open>How a size is cut into pages\<close>

text \<open>As many huge pages as fit, then as many large ones, then normal ones.\<close>

definition page_plan :: "nat \<Rightarrow> physical_page_size list" where
  "page_plan n = replicate (n div GiB 1) Huge @ replicate (n mod GiB 1 div MiB 2) Large @
     replicate (n mod MiB 2 div KiB 4) Normal"

lemma to_page_size_next: "to_page_size (next_page_size n) =
    Some (if GiB 1 \<le> n then Huge else if MiB 2 \<le> n then Large else Normal)"
  by (simp add: next_page_size_def to_page_size_def size_units)

lemma page_plan_step:
  assumes "to_page_size (next_page_size n) = Some ps" and "KiB 4 dvd n" and "0 < n"
  shows "page_plan n = ps # page_plan (n - next_page_size n)" and "next_page_size n \<le> n"
    and "from_page_size ps = next_page_size n"
proof -
  consider (huge) "GiB 1 \<le> n" | (large) "\<not> GiB 1 \<le> n" "MiB 2 \<le> n" | (normal) "\<not> MiB 2 \<le> n"
    by blast
  then have "page_plan n = ps # page_plan (n - next_page_size n) \<and> next_page_size n \<le> n \<and>
      from_page_size ps = next_page_size n"
  proof cases
    case huge
    then obtain m where m: "n = m + GiB 1"
      by (metis add.commute le_iff_add)
    have "(m + 1073741824) div 1073741824 = Suc (m div 1073741824)"
      using div_add_self2 [of "1073741824 :: nat" m] by linarith
    then show ?thesis
      using assms(1) huge mod_add_right_eq [symmetric, of m 1073741824 2097152]
      unfolding to_page_size_next m
      by (simp add: page_plan_def next_page_size_def size_units)
  next
    case large
    then obtain m where m: "n = m + MiB 2"
      by (metis add.commute le_iff_add)
    have "(m + 2097152) div 2097152 = Suc (m div 2097152)"
      using div_add_self2 [of "2097152 :: nat" m] by linarith
    then show ?thesis
      using assms(1) large unfolding to_page_size_next m
      by (simp add: page_plan_def next_page_size_def size_units)
  next
    case normal
    obtain m where m: "n = m + KiB 4"
      using assms(2,3) by (metis add.commute dvd_imp_le le_iff_add)
    have "(m + 4096) div 4096 = Suc (m div 4096)"
      using div_add_self2 [of "4096 :: nat" m] by linarith
    then show ?thesis
      using assms(1) normal unfolding to_page_size_next m
      by (simp add: page_plan_def next_page_size_def size_units)
  qed
  then show "page_plan n = ps # page_plan (n - next_page_size n)" and "next_page_size n \<le> n"
    and "from_page_size ps = next_page_size n"
    by simp_all
qed

lemma next_page_size_aligned: "KiB 4 dvd next_page_size n" "0 < next_page_size n"
  by (simp_all add: next_page_size_def size_units)

lemma sum_page_plan: "KiB 4 dvd n \<Longrightarrow> sum_list (map from_page_size (page_plan n)) = n"
proof (induction n rule: less_induct)
  case (less n)
  show ?case
  proof (cases "n = 0")
    case False
    obtain ps where ps: "to_page_size (next_page_size n) = Some ps"
      using to_page_size_next by blast
    note step = page_plan_step [OF ps less.prems]
    have "sum_list (map from_page_size (page_plan (n - next_page_size n))) = n - next_page_size n"
      using less.prems step(2) next_page_size_aligned [of n] False
      by (intro less.IH dvd_diff_nat) simp_all
    then show ?thesis
      using step False by simp
  qed (simp add: page_plan_def)
qed

fun allocate_pages ::
  "physical_page_size list \<Rightarrow> memory_manager \<Rightarrow> (physical_page list \<times> memory_manager) option" where
  "allocate_pages [] mm = Some ([], mm)"
| "allocate_pages (ps # pss) mm = do {
     (p, mm1) \<leftarrow> physical_page_allocate ps mm;
     (pages, mm2) \<leftarrow> allocate_pages pss mm1;
     Some (p # pages, mm2)
   }"

fun physical_pages_from :: "nat \<Rightarrow> physical_page_size list \<Rightarrow> physical_page list" where
  "physical_pages_from base [] = []"
| "physical_pages_from base (ps # pss) =
     physical_page_create base ps # physical_pages_from (add64 base (from_page_size ps)) pss"

lemma sub64_page:
  assumes "KiB 4 dvd n" and "0 < n" and "n < 2 ^ 64"
  shows "sub64 n (next_page_size n) = n - next_page_size n"
  using page_plan_step(2) [OF to_page_size_next assms(1,2)] assms(3) by (intro sub64_exact)

lemma vm_create_loop_eq:
  assumes "KiB 4 dvd n" and "0 < n" and "n < 2 ^ 64"
  shows "vm_create_loop n pages mm =
    do { (ps, mm') \<leftarrow> allocate_pages (page_plan n) mm; Some (pages @ ps, mm') }"
  using assms
proof (induction n arbitrary: pages mm rule: less_induct)
  case (less n)
  obtain ps where ps: "to_page_size (next_page_size n) = Some ps"
    using to_page_size_next by blast
  note step = page_plan_step [OF ps less.prems(1,2)]
  let ?n' = "n - next_page_size n"
  show ?case
  proof (cases "physical_page_allocate ps mm")
    case None
    then show ?thesis
      by (simp add: vm_create_loop.simps [of n] ps step(1))
  next
    case (Some r)
    obtain page mm' where r: "r = (page, mm')"
      by fastforce
    have plan0: "page_plan 0 = []"
      by (simp add: page_plan_def)
    have "vm_create_loop ?n' (pages @ [page]) mm' =
        do { (ps, mm'') \<leftarrow> allocate_pages (page_plan ?n') mm'; Some ((pages @ [page]) @ ps, mm'') }"
      if "?n' \<noteq> 0"
      using that less.prems next_page_size_aligned [of n]
      by (intro less.IH dvd_diff_nat) simp_all
    then show ?thesis
      using Some r ps step sub64_page [OF less.prems] plan0
      by (cases "?n' = 0")
        (simp_all add: vm_create_loop.simps [of n] split: Option.bind_split prod.splits)
  qed
qed

lemma vm_create_physical_loop_eq:
  assumes "KiB 4 dvd n" and "0 < n" and "n < 2 ^ 64"
  shows "vm_create_physical_loop base n pages = Some (pages @ physical_pages_from base (page_plan n))"
  using assms
proof (induction n arbitrary: pages base rule: less_induct)
  case (less n)
  obtain ps where ps: "to_page_size (next_page_size n) = Some ps"
    using to_page_size_next by blast
  note step = page_plan_step [OF ps less.prems(1,2)]
  let ?n' = "n - next_page_size n" and ?b' = "add64 base (next_page_size n)"
  have plan0: "page_plan 0 = []"
    by (simp add: page_plan_def)
  have "vm_create_physical_loop ?b' ?n' pages' = Some (pages' @ physical_pages_from ?b' (page_plan ?n'))"
    if "?n' \<noteq> 0" for pages'
    using that less.prems next_page_size_aligned [of n]
    by (intro less.IH dvd_diff_nat) simp_all
  then show ?case
    using ps step sub64_page [OF less.prems] plan0
    by (cases "?n' = 0") (simp_all add: vm_create_physical_loop.simps [of base n])
qed

section \<open>Pages as blocks of the frame allocator\<close>

definition page_block :: "physical_page \<Rightarrow> nat \<times> nat" where
  "page_block p = (pp_phys p, from_page_size (the (pp_size p)))"

text \<open>Physical addresses have at most 52 bits, so they fit the 56 bits a page has for them.\<close>

abbreviation small_memory :: "memory_manager \<Rightarrow> bool" where
  "small_memory mm \<equiv> frame_count mm \<le> 2 ^ 40"

lemma small_memory_inv: "small_memory mm \<Longrightarrow> mm_inv mm"
  by (simp add: mm_inv_def)

lemma physical_page_allocate_client:
  assumes "small_memory mm" and "physical_page_allocate ps mm = Some (p, mm')"
  shows "frame_client (held, mm) (page_block p # held, mm')" and "pp_allocated p"
    and "pp_size p = Some ps" and "frame_count mm' = frame_count mm"
proof -
  note inv = small_memory_inv [OF assms(1)]
  have "\<exists>phys. p = physical_page_new phys ps True \<and> phys < 2 ^ 56 \<and> frame_count mm' = frame_count mm \<and>
    frame_client (held, mm) ((phys, from_page_size ps) # held, mm')"
  proof (cases "ps = Normal")
    case True
    then obtain phys where a: "alloc_frame mm = Some (phys, mm')" "p = physical_page_new phys ps True"
      using assms(2) by (auto simp: physical_page_allocate_def split: Option.bind_splits)
    from inv have "phys < 2 ^ 56 \<and> frame_count mm' = frame_count mm"
      by (cases rule: alloc_frame_cases) (use a(1) assms(1) in \<open>auto simp: marks_def\<close>)
    then show ?thesis
      using a True frame_client.client_alloc_frame [OF a(1), of held] by (auto simp: size_units)
  next
    case False
    let ?s = "from_page_size ps"
    obtain phys where a: "alloc_contiguous ?s mm = Some (phys, mm')" "p = physical_page_new phys ps True"
      using assms(2) False
      by (cases ps) (auto simp: physical_page_allocate_def split: Option.bind_splits)
    have s: "?s + 4095 < 2 ^ 64" "0 < frames_of ?s"
      by (cases ps; simp add: size_units frames_of_def)+
    then have "alloc_contiguous_from 0 (frames_of ?s) mm = Some (phys, mm')"
      using a(1) by (simp add: alloc_contiguous_eq)
    from alloc_contiguous_from_marks [OF inv this]
    have "phys < 2 ^ 56 \<and> frame_count mm' = frame_count mm"
      using assms(1) s(2) by (auto simp: marks_def)
    then show ?thesis
      using a(2) frame_client.client_alloc_contiguous [OF s(1) a(1), of held] by auto
  qed
  then obtain phys where "p = physical_page_new phys ps True" "phys < 2 ^ 56"
    "frame_count mm' = frame_count mm" "frame_client (held, mm) ((phys, from_page_size ps) # held, mm')"
    by blast
  then show "frame_client (held, mm) (page_block p # held, mm')" and "pp_allocated p"
    and "pp_size p = Some ps" and "frame_count mm' = frame_count mm"
    by (simp_all add: physical_page_new_simps page_block_def)
qed

lemma allocate_pages_client:
  assumes "small_memory mm" and "allocate_pages pss mm = Some (pages, mm')"
  shows "frame_client\<^sup>*\<^sup>* (held, mm) (rev (map page_block pages) @ held, mm') \<and>
    map pp_size pages = map Some pss \<and> (\<forall>p \<in> set pages. pp_allocated p) \<and> frame_count mm' = frame_count mm"
  using assms
proof (induction pss arbitrary: mm pages held)
  case (Cons ps pss)
  obtain p mm1 pages' where a: "physical_page_allocate ps mm = Some (p, mm1)"
    "allocate_pages pss mm1 = Some (pages', mm')" "pages = p # pages'"
    using Cons.prems(2) by (auto split: Option.bind_splits)
  note p = physical_page_allocate_client [OF Cons.prems(1) a(1)]
  note rest = Cons.IH [of mm1 pages' "page_block p # held"]
  have "frame_client\<^sup>*\<^sup>* (held, mm) (rev (map page_block pages') @ page_block p # held, mm')"
    using rest p(1) p(4) a(2) Cons.prems(1) by (metis converse_rtranclp_into_rtranclp)
  then show ?case
    using rest p a(2,3) Cons.prems(1) by simp
qed simp

text \<open>Destroying a page that a client holds gives its block back.\<close>

lemma physical_page_destroy_client:
  assumes "client_inv U (held, mm)" and "page_block p \<in> set held"
    and "pp_allocated p" and "pp_size p = Some ps"
  shows "\<exists>mm'. physical_page_destroy p mm = Some mm' \<and> client_inv U (remove1 (page_block p) held, mm')"
proof -
  have b: "page_block p = (pp_phys p, from_page_size ps)"
    by (simp add: page_block_def assms(4))
  have "\<exists>mm'. physical_page_destroy p mm = Some mm' \<and>
      marks (set (block (pp_phys p, from_page_size ps))) False mm mm'"
  proof (cases ps)
    case Normal
    then show ?thesis
      using client_can_free(2) [OF assms(1), of "pp_phys p" 4096] assms(2-4) b
      by (simp add: physical_page_destroy_def size_units)
  qed (use client_can_free(1) [OF assms(1), of "pp_phys p" "from_page_size ps"] assms(2-4) b in
      \<open>simp_all add: physical_page_destroy_def\<close>)
  then obtain mm' where "physical_page_destroy p mm = Some mm'"
    "marks (set (block (pp_phys p, from_page_size ps))) False mm mm'"
    by blast
  then show ?thesis
    using client_inv_give [OF assms(1)] assms(2) b by auto
qed

lemma destroy_pages_client:
  assumes "client_inv U (map page_block pages, mm)"
    and "\<forall>p \<in> set pages. pp_allocated p \<and> pp_size p \<noteq> None"
  shows "\<exists>mm'. for_each physical_page_destroy pages mm = Some mm' \<and> client_inv U ([], mm')"
  using assms
proof (induction pages arbitrary: mm)
  case (Cons p pages)
  obtain ps where "pp_size p = Some ps"
    using Cons.prems(2) by auto
  then obtain mm1 where mm1: "physical_page_destroy p mm = Some mm1"
    "client_inv U (map page_block pages, mm1)"
    using physical_page_destroy_client [OF Cons.prems(1), of p ps] Cons.prems(2) by auto
  show ?case
    using Cons.IH [OF mm1(2)] Cons.prems(2) mm1(1) by auto
qed simp

lemma client_inv_rev:
  "client_inv U (rev held, mm) \<longleftrightarrow> client_inv U (held, mm)"
proof -
  have "distinct (concat (rev xss)) = distinct (concat xss)" for xss :: "nat list list"
    by (induction xss) (auto simp: Int_commute)
  then show ?thesis
    by (simp add: client_inv_def rev_map [symmetric])
qed

lemma client_inv_start: "mm_inv mm \<Longrightarrow> client_inv (used_frames mm) ([], mm)"
  by (simp add: client_inv_def)

lemma client_inv_end: "client_inv U ([], mm) \<Longrightarrow> used_frames mm = U"
  by (simp add: client_inv_def)

lemma align_up_KiB4: "n + 4095 < 2 ^ 64 \<Longrightarrow> align_up n (KiB 4) = Some ((n + 4095) div 4096 * 4096)"
  using align_up_page by (simp add: size_units)

lemma vm_object_create_eq:
  assumes "0 < n" and "n + 4095 < 2 ^ 64"
  defines "m \<equiv> (n + 4095) div 4096 * 4096"
  shows "vm_object_create n mm =
    do { (pages, mm') \<leftarrow> allocate_pages (page_plan m) mm; Some (\<lparr>vm_physical_pages = pages, vm_size = m\<rparr>, mm') }"
    and "KiB 4 dvd m" and "0 < m" and "m < 2 ^ 64" and "n \<le> m"
proof -
  have "align_up n 4096 = Some m"
    using assms(2) align_up_page by (simp add: m_def)
  note b = align_up_page_bounds [OF this assms(2)]
  show m: "KiB 4 dvd m" "0 < m" "m < 2 ^ 64" "n \<le> m"
    using b assms(1,2) by (auto simp: size_units)
  show "vm_object_create n mm =
    do { (pages, mm') \<leftarrow> allocate_pages (page_plan m) mm; Some (\<lparr>vm_physical_pages = pages, vm_size = m\<rparr>, mm') }"
    using vm_create_loop_eq [OF m(1-3), of "[]" mm] align_up_KiB4 [OF assms(2)]
    by (auto simp: vm_object_create_def m_def [symmetric] split: Option.bind_split)
qed

lemma pages_sizes:
  assumes "map pp_size pages = map Some pss"
  shows "map (snd \<circ> page_block) pages = map from_page_size pss" and "\<forall>p \<in> set pages. pp_size p \<noteq> None"
proof -
  have "map (snd \<circ> page_block) pages = map from_page_size pss \<and> (\<forall>p \<in> set pages. pp_size p \<noteq> None)"
    using assms by (induction pages arbitrary: pss) (auto simp: page_block_def)
  then show "map (snd \<circ> page_block) pages = map from_page_size pss" and "\<forall>p \<in> set pages. pp_size p \<noteq> None"
    by simp_all
qed

text \<open>
  C27. The life of a memory object: creating one of a positive size cuts the size, rounded up to
  pages, into pages that add up to exactly that size; the frames of its pages are distinct and
  were free before; and destroying it restores the set of frames in use, without an assertion
  failing.
\<close>

theorem vm_object_lifecycle:
  assumes "small_memory mm" and "0 < n" and "n + 4095 < 2 ^ 64"
    and "vm_object_create n mm = Some (vmo, mm')"
  shows "n \<le> vm_size vmo \<and> vm_size vmo < n + 4096 \<and>
    sum_list (map (snd \<circ> page_block) (vm_physical_pages vmo)) = vm_size vmo \<and>
    (let frames = held_frames (map page_block (vm_physical_pages vmo))
     in distinct frames \<and> set frames \<inter> used_frames mm = {} \<and> used_frames mm' = used_frames mm \<union> set frames) \<and>
    (\<exists>mm''. vm_object_destroy vmo mm' = Some mm'' \<and> used_frames mm'' = used_frames mm)"
proof -
  let ?m = "(n + 4095) div 4096 * 4096"
  note m = vm_object_create_eq [OF assms(2,3)]
  obtain pages where pages: "allocate_pages (page_plan ?m) mm = Some (pages, mm')"
    and vmo: "vmo = \<lparr>vm_physical_pages = pages, vm_size = ?m\<rparr>"
    using assms(4) m(1) by (auto split: Option.bind_splits)
  note c = allocate_pages_client [OF assms(1) pages, of "[]"]
  then have "client_inv (used_frames mm) (rev (map page_block pages), mm')"
    using frame_clients_inv client_inv_start [OF small_memory_inv [OF assms(1)]] by simp blast
  then have inv: "client_inv (used_frames mm) (map page_block pages, mm')"
    by (simp add: client_inv_rev)
  have sizes: "map pp_size pages = map Some (page_plan ?m)"
    using c by blast
  then have "sum_list (map (snd \<circ> page_block) pages) = ?m"
    using sum_page_plan [OF m(2)] pages_sizes(1) by simp
  moreover have "\<forall>p \<in> set pages. pp_allocated p \<and> pp_size p \<noteq> None"
    using c pages_sizes(2) [OF sizes] by blast
  then obtain mm'' where "for_each physical_page_destroy pages mm' = Some mm''"
    "client_inv (used_frames mm) ([], mm'')"
    using destroy_pages_client [OF inv] by blast
  moreover have "?m < n + 4096"
    using div_mult_mod_eq [of "n + 4095" 4096] by linarith
  moreover have "let frames = held_frames (map page_block pages)
     in distinct frames \<and> set frames \<inter> used_frames mm = {} \<and> used_frames mm' = used_frames mm \<union> set frames"
    using inv unfolding client_inv_def Let_def prod.case by blast
  ultimately show ?thesis
    using m(5) client_inv_end [of "used_frames mm" mm'']
    unfolding vmo vm_object_destroy_def vm_object.simps by blast
qed

text \<open>A machine with ten free frames, for the witnesses.\<close>

definition demo_memory :: memory_manager where
  "demo_memory = \<lparr>frame_bitset = (\<lambda>_. 0), frame_count = 10\<rparr>"

lemma demo_memory_small: "small_memory demo_memory"
  and demo_memory_used: "used_frames demo_memory = {}"
  by (simp_all add: demo_memory_def used_frames_def frame_used_def)

lemma demo_create: "\<exists>vmo mm'. vm_object_create 4096 demo_memory = Some (vmo, mm')"
proof -
  have plan: "page_plan 4096 = [Normal]"
    by (simp add: page_plan_def size_units)
  obtain mm where "alloc_frame demo_memory = Some (0 * 4096, mm)"
    using alloc_frame_least [of demo_memory 0] demo_memory_used
    by (auto simp: mm_inv_def demo_memory_def)
  then show ?thesis
    by (simp add: vm_object_create_eq plan physical_page_allocate_def)
qed

theorem vm_object_lifecycle_witness:
  "\<exists>vmo mm' mm''. vm_object_create 4096 demo_memory = Some (vmo, mm') \<and> vm_size vmo = 4096 \<and>
     vm_object_destroy vmo mm' = Some mm'' \<and> used_frames mm'' = {}"
proof -
  obtain vmo mm' where c: "vm_object_create 4096 demo_memory = Some (vmo, mm')"
    using demo_create by blast
  moreover have "vm_size vmo = 4096"
    using c by (auto simp: vm_object_create_eq split: Option.bind_splits)
  ultimately show ?thesis
    using vm_object_lifecycle [OF demo_memory_small _ _ c] demo_memory_used by auto
qed

section \<open>Objects of size zero\<close>

lemma client_inv_bounded:
  assumes "client_inv U (held, mm)"
  shows "length (held_frames held) \<le> frame_count mm"
proof -
  have "set (held_frames held) \<subseteq> {..<frame_count mm}" and d: "distinct (held_frames held)"
    using assms by (auto simp: client_inv_def used_frames_def)
  then have "card (set (held_frames held)) \<le> frame_count mm"
    using card_mono [of "{..<frame_count mm}"] by fastforce
  then show ?thesis
    by (simp only: distinct_card [OF d])
qed

lemma length_held_frames_pages:
  assumes "map pp_size pages = map Some pss"
  shows "length (held_frames (map page_block pages)) * 4096 = sum_list (map from_page_size pss)"
  using assms
proof (induction pages arbitrary: pss)
  case (Cons p pages)
  then obtain ps pss' where "pss = ps # pss'" "pp_size p = Some ps" "map pp_size pages = map Some pss'"
    by auto
  moreover have "length (block (page_block p)) * 4096 = from_page_size ps" if "pp_size p = Some ps"
    using that by (cases ps) (simp_all add: block_def page_block_def frames_of_def size_units)
  ultimately show ?case
    using Cons.IH [of pss'] by (simp add: add_mult_distrib)
qed simp

text \<open>
  An object of size zero never comes into being: the loop tests the remaining size after it
  has subtracted a page from it, so zero wraps around to almost \<open>2 ^ 64\<close> bytes, and the kernel
  stops for lack of memory. A size within a page of \<open>2 ^ 64\<close> is rounded to zero and does
  the same.
\<close>

theorem vm_object_create_zero:
  assumes "small_memory mm" and "n = 0 \<or> 2 ^ 64 \<le> n + 4095" and "n < 2 ^ 64"
  shows "vm_object_create n mm = None"
proof (rule ccontr)
  let ?m = "2 ^ 64 - 4096 :: nat"
  assume "vm_object_create n mm \<noteq> None"
  moreover have "align_up n (KiB 4) = Some 0"
    using assms(2,3) align_up_page_wraps [of n] align_up_page [of 0] by (auto simp: size_units)
  moreover have "next_page_size 0 = 4096" "to_page_size 4096 = Some Normal" "sub64 0 4096 = ?m"
    by (simp_all add: next_page_size_def to_page_size_def size_units sub64_def)
  ultimately obtain p mm1 where p: "physical_page_allocate Normal mm = Some (p, mm1)"
    and loop: "vm_create_loop ?m [p] mm1 \<noteq> None"
    by (auto simp: vm_object_create_def vm_create_loop.simps [of 0] split: Option.bind_splits if_splits)
  note fc = physical_page_allocate_client(4) [OF assms(1) p]
  have m: "KiB 4 dvd ?m"
    by (simp add: size_units)
  obtain pages mm' where pages: "allocate_pages (page_plan ?m) mm1 = Some (pages, mm')"
    using loop vm_create_loop_eq [OF m, of "[p]" mm1] by (auto split: Option.bind_splits)
  have small: "small_memory mm1"
    using assms(1) fc by simp
  note c = allocate_pages_client [OF small pages, of "[]"]
  then have "client_inv (used_frames mm1) (rev (map page_block pages), mm')"
    using frame_clients_inv client_inv_start [OF small_memory_inv [OF small]] by simp blast
  then have "length (held_frames (map page_block pages)) \<le> frame_count mm'"
    using client_inv_bounded client_inv_rev by blast
  moreover have "length (held_frames (map page_block pages)) * 4096 = ?m"
    using length_held_frames_pages [of pages "page_plan ?m"] sum_page_plan [OF m] c by simp
  ultimately show False
    using c small by simp
qed

theorem vm_object_create_zero_witness: "vm_object_create 0 demo_memory = None"
  using vm_object_create_zero [OF demo_memory_small, of 0] by simp

section \<open>Objects over given physical memory\<close>

lemma pp_phys_physical_pages_from:
  assumes "i < length pss" and "base + sum_list (map from_page_size pss) < 2 ^ 56"
  shows "pp_phys (physical_pages_from base pss ! i) = base + sum_list (map from_page_size (take i pss)) \<and>
    pp_size (physical_pages_from base pss ! i) = Some (pss ! i) \<and>
    \<not> pp_allocated (physical_pages_from base pss ! i)"
  using assms
proof (induction pss arbitrary: base i)
  case (Cons ps pss)
  have "base < 2 ^ 56" and a: "add64 base (from_page_size ps) = base + from_page_size ps"
    using Cons.prems(2) by (auto intro!: add64_exact)
  then have "pp_phys (physical_page_create base ps) = base \<and>
    pp_size (physical_page_create base ps) = Some ps \<and> \<not> pp_allocated (physical_page_create base ps)"
    by (simp add: physical_page_create_def physical_page_new_simps)
  then show ?case
    using Cons.prems Cons.IH [of "i - 1" "base + from_page_size ps"] a by (cases i) simp_all
qed simp

lemma length_physical_pages_from [simp]: "length (physical_pages_from base pss) = length pss"
  by (induction pss arbitrary: base) simp_all

lemma vm_object_create_physical_eq:
  assumes "0 < n" and "n + 4095 < 2 ^ 64"
  defines "m \<equiv> (n + 4095) div 4096 * 4096"
  shows "vm_object_create_physical base n =
    Some \<lparr>vm_physical_pages = physical_pages_from base (page_plan m), vm_size = m\<rparr>"
  using vm_create_physical_loop_eq [OF vm_object_create_eq(2-4) [OF assms(1,2)]] align_up_KiB4 [OF assms(2)]
  by (simp add: vm_object_create_physical_def m_def)

end
