(* ===== verification/Paging.thy ===== *)
theory Paging
  imports Vm_Object
begin

text \<open>
  The page tables of an address space: \<^verbatim>\<open>src/kernel/arch/paging.hh\<close> and the mapping
  functions of \<^verbatim>\<open>src/kernel/mem/address_space.cc\<close>. A level is a table of 512 entries with
  a count of those in use; as the levels point at each other through owning pointers, a level is
  modelled with the levels below it as its value. \<open>walk\<close> is the way the processor finds the
  entry of an address, and the lemmas describe every operation by its effect on \<open>walk\<close>.
\<close>

section \<open>A level of the page tables\<close>

text \<open>An entry is empty, maps a page, or owns a table of the next level.\<close>

datatype 'e level_entry = NoEntry | PageEntry u64 | TableEntry 'e

record 'e page_level =
  m_entries :: "'e level_entry list"
  m_entry_count :: nat

type_synonym page_table = "unit page_level"
type_synonym page_directory = "page_table page_level"
type_synonym page_directory_ptr_table = "page_directory page_level"
type_synonym pml4 = "page_directory_ptr_table page_level"

definition fl_present :: u64 where "fl_present = push_bit 0 1"
definition fl_writable :: u64 where "fl_writable = push_bit 1 1"
definition fl_user :: u64 where "fl_user = push_bit 2 1"
definition fl_cache_disable :: u64 where "fl_cache_disable = push_bit 4 1"
definition fl_large :: u64 where "fl_large = push_bit 7 1"
definition fl_global :: u64 where "fl_global = push_bit 8 1"
definition fl_no_execute :: u64 where "fl_no_execute = push_bit 63 1"

definition entry_raw :: "nat \<Rightarrow> u64 \<Rightarrow> u64" where
  "entry_raw phys flags = (of_nat phys AND 0xfffffffffffff) OR (flags OR fl_present)"

definition entry_phys :: "u64 \<Rightarrow> nat" where
  "entry_phys raw = unat (raw AND 0xffffffffff000)"

definition page_level_new :: "'e page_level" where
  "page_level_new = \<lparr>m_entries = replicate 512 NoEntry, m_entry_count = 0\<rparr>"

text \<open>The destructor checks that the level is empty.\<close>

definition page_level_destroy :: "'e page_level \<Rightarrow> unit option" where
  "page_level_destroy l = do {
     ensure (m_entry_count l = 0);
     ensure (list_all (\<lambda>e. e = NoEntry) (m_entries l))
   }"

definition level_set :: "nat \<Rightarrow> 'e level_entry \<Rightarrow> 'e page_level \<Rightarrow> 'e page_level option" where
  "level_set i e l = do {
     ensure (i < 512);
     ensure (m_entries l ! i = NoEntry);
     ensure (m_entry_count l < 512);
     Some (l\<lparr>m_entries := (m_entries l)[i := e], m_entry_count := m_entry_count l + 1\<rparr>)
   }"

text \<open>
  An entry is removed from a page table without further ado; at the other levels a table that
  the entry owns is destroyed first.
\<close>

definition level_unset :: "('e \<Rightarrow> unit option) \<Rightarrow> nat \<Rightarrow> 'e page_level \<Rightarrow> 'e page_level option" where
  "level_unset destroy i l = do {
     ensure (i < 512);
     ensure (m_entries l ! i \<noteq> NoEntry);
     (case m_entries l ! i of TableEntry t \<Rightarrow> destroy t | _ \<Rightarrow> Some ());
     ensure (m_entry_count l > 0);
     Some (l\<lparr>m_entries := (m_entries l)[i := NoEntry], m_entry_count := m_entry_count l - 1\<rparr>)
   }"

text \<open>\<open>ensure\<close> and \<open>expect\<close> hand out the table of an entry, and the first creates it.\<close>

definition level_ensure :: "nat \<Rightarrow> 'e page_level page_level \<Rightarrow> ('e page_level \<times> 'e page_level page_level) option" where
  "level_ensure i l = do {
     ensure (i < 512);
     case m_entries l ! i of
       NoEntry \<Rightarrow> do { l' \<leftarrow> level_set i (TableEntry page_level_new) l; Some (page_level_new, l') }
     | PageEntry raw \<Rightarrow> None
     | TableEntry t \<Rightarrow> Some (t, l)
   }"

definition level_expect :: "nat \<Rightarrow> 'e page_level \<Rightarrow> 'e option" where
  "level_expect i l = do {
     ensure (i < 512);
     case m_entries l ! i of NoEntry \<Rightarrow> None | PageEntry raw \<Rightarrow> None | TableEntry t \<Rightarrow> Some t
   }"

text \<open>What the caller did to the table it was handed shows in the entry.\<close>

definition level_put :: "nat \<Rightarrow> 'e \<Rightarrow> 'e page_level \<Rightarrow> 'e page_level" where
  "level_put i t l = l\<lparr>m_entries := (m_entries l)[i := TableEntry t]\<rparr>"

section \<open>Mapping and unmapping pages\<close>

definition pml4_index :: "nat \<Rightarrow> nat" where "pml4_index virt = virt div 2 ^ 39 mod 512"
definition pdpt_index :: "nat \<Rightarrow> nat" where "pdpt_index virt = virt div 2 ^ 30 mod 512"
definition pd_index :: "nat \<Rightarrow> nat" where "pd_index virt = virt div 2 ^ 21 mod 512"
definition pt_index :: "nat \<Rightarrow> nat" where "pt_index virt = virt div 2 ^ 12 mod 512"

definition map_4KiB :: "nat \<Rightarrow> nat \<Rightarrow> u64 \<Rightarrow> pml4 \<Rightarrow> pml4 option" where
  "map_4KiB virt phys flags pml4 = do {
     ensure (virt mod KiB 4 = 0);
     ensure (phys mod KiB 4 = 0);
     (pdpt, pml4') \<leftarrow> level_ensure (pml4_index virt) pml4;
     (pd, pdpt') \<leftarrow> level_ensure (pdpt_index virt) pdpt;
     (pt, pd') \<leftarrow> level_ensure (pd_index virt) pd;
     pt' \<leftarrow> level_set (pt_index virt) (PageEntry (entry_raw phys flags)) pt;
     Some (level_put (pml4_index virt)
            (level_put (pdpt_index virt) (level_put (pd_index virt) pt' pd') pdpt') pml4')
   }"

definition map_2MiB :: "nat \<Rightarrow> nat \<Rightarrow> u64 \<Rightarrow> pml4 \<Rightarrow> pml4 option" where
  "map_2MiB virt phys flags pml4 = do {
     ensure (virt mod MiB 2 = 0);
     ensure (phys mod MiB 2 = 0);
     (pdpt, pml4') \<leftarrow> level_ensure (pml4_index virt) pml4;
     (pd, pdpt') \<leftarrow> level_ensure (pdpt_index virt) pdpt;
     pd' \<leftarrow> level_set (pd_index virt) (PageEntry (entry_raw phys (flags OR fl_large))) pd;
     Some (level_put (pml4_index virt) (level_put (pdpt_index virt) pd' pdpt') pml4')
   }"

definition map_1GiB :: "nat \<Rightarrow> nat \<Rightarrow> u64 \<Rightarrow> pml4 \<Rightarrow> pml4 option" where
  "map_1GiB virt phys flags pml4 = do {
     ensure (virt mod GiB 1 = 0);
     ensure (phys mod GiB 1 = 0);
     (pdpt, pml4') \<leftarrow> level_ensure (pml4_index virt) pml4;
     pdpt' \<leftarrow> level_set (pdpt_index virt) (PageEntry (entry_raw phys (flags OR fl_large))) pdpt;
     Some (level_put (pml4_index virt) pdpt' pml4')
   }"

text \<open>A table that has become empty is removed from the level above it.\<close>

definition level_release ::
  "nat \<Rightarrow> 'e page_level \<Rightarrow> 'e page_level page_level \<Rightarrow> 'e page_level page_level option" where
  "level_release i t l =
     (if m_entry_count t = 0 then level_unset page_level_destroy i (level_put i t l)
      else Some (level_put i t l))"

definition unmap_4KiB :: "nat \<Rightarrow> pml4 \<Rightarrow> pml4 option" where
  "unmap_4KiB virt pml4 = do {
     ensure (virt mod KiB 4 = 0);
     pdpt \<leftarrow> level_expect (pml4_index virt) pml4;
     pd \<leftarrow> level_expect (pdpt_index virt) pdpt;
     pt \<leftarrow> level_expect (pd_index virt) pd;
     pt' \<leftarrow> level_unset Some (pt_index virt) pt;
     pd' \<leftarrow> level_release (pd_index virt) pt' pd;
     pdpt' \<leftarrow> level_release (pdpt_index virt) pd' pdpt;
     level_release (pml4_index virt) pdpt' pml4
   }"

definition unmap_2MiB :: "nat \<Rightarrow> pml4 \<Rightarrow> pml4 option" where
  "unmap_2MiB virt pml4 = do {
     ensure (virt mod MiB 2 = 0);
     pdpt \<leftarrow> level_expect (pml4_index virt) pml4;
     pd \<leftarrow> level_expect (pdpt_index virt) pdpt;
     pd' \<leftarrow> level_unset page_level_destroy (pd_index virt) pd;
     pdpt' \<leftarrow> level_release (pdpt_index virt) pd' pdpt;
     level_release (pml4_index virt) pdpt' pml4
   }"

definition unmap_1GiB :: "nat \<Rightarrow> pml4 \<Rightarrow> pml4 option" where
  "unmap_1GiB virt pml4 = do {
     ensure (virt mod GiB 1 = 0);
     pdpt \<leftarrow> level_expect (pml4_index virt) pml4;
     pdpt' \<leftarrow> level_unset page_level_destroy (pdpt_index virt) pdpt;
     level_release (pml4_index virt) pdpt' pml4
   }"

section \<open>The walk of the processor\<close>

text \<open>
  The entry that maps an address, and the number of address bits that lie inside its page. This is
  the documented behaviour of the processor, not code of the kernel.
\<close>

definition walk_level ::
  "(nat \<Rightarrow> nat) \<Rightarrow> nat \<Rightarrow> ('e \<Rightarrow> nat \<Rightarrow> (u64 \<times> nat) option) \<Rightarrow> 'e page_level \<Rightarrow> nat \<Rightarrow> (u64 \<times> nat) option" where
  "walk_level index k below l v =
     (case m_entries l ! index v of
        NoEntry \<Rightarrow> None | PageEntry raw \<Rightarrow> Some (raw, k) | TableEntry t \<Rightarrow> below t v)"

definition walk_pt :: "page_table \<Rightarrow> nat \<Rightarrow> (u64 \<times> nat) option" where
  "walk_pt = walk_level pt_index 12 (\<lambda>_ _. None)"

definition walk_pd :: "page_directory \<Rightarrow> nat \<Rightarrow> (u64 \<times> nat) option" where
  "walk_pd = walk_level pd_index 21 walk_pt"

definition walk_pdpt :: "page_directory_ptr_table \<Rightarrow> nat \<Rightarrow> (u64 \<times> nat) option" where
  "walk_pdpt = walk_level pdpt_index 30 walk_pd"

definition walk :: "pml4 \<Rightarrow> nat \<Rightarrow> (u64 \<times> nat) option" where
  "walk = walk_level pml4_index 39 walk_pdpt"

definition translate :: "pml4 \<Rightarrow> nat \<Rightarrow> nat option" where
  "translate pml4 v = map_option (\<lambda>(raw, k). entry_phys raw + v mod 2 ^ k) (walk pml4 v)"

section \<open>Well-formed tables\<close>

text \<open>The count is right, and no level but the top one is ever left empty.\<close>

definition wf_level :: "('e \<Rightarrow> bool) \<Rightarrow> 'e page_level \<Rightarrow> bool" where
  "wf_level ok l \<longleftrightarrow>
     length (m_entries l) = 512 \<and>
     m_entry_count l = length (filter (\<lambda>e. e \<noteq> NoEntry) (m_entries l)) \<and>
     (\<forall>t. TableEntry t \<in> set (m_entries l) \<longrightarrow> ok t)"

abbreviation inhabited :: "('e page_level \<Rightarrow> bool) \<Rightarrow> 'e page_level \<Rightarrow> bool" where
  "inhabited ok t \<equiv> ok t \<and> m_entry_count t \<noteq> 0"

definition wf_pt :: "page_table \<Rightarrow> bool" where "wf_pt = wf_level (\<lambda>_. False)"
definition wf_pd :: "page_directory \<Rightarrow> bool" where "wf_pd = wf_level (inhabited wf_pt)"
definition wf_pdpt :: "page_directory_ptr_table \<Rightarrow> bool" where "wf_pdpt = wf_level (inhabited wf_pd)"
definition wf_pml4 :: "pml4 \<Rightarrow> bool" where
  "wf_pml4 l \<longleftrightarrow> wf_level (inhabited wf_pdpt) l \<and> (\<forall>raw. PageEntry raw \<notin> set (m_entries l))"

lemma wf_level_new [simp]: "wf_level ok page_level_new"
  by (simp add: wf_level_def page_level_new_def)

lemma wf_new [simp]: "wf_pt page_level_new" "wf_pd page_level_new" "wf_pdpt page_level_new" "wf_pml4 page_level_new"
  by (simp_all add: wf_pt_def wf_pd_def wf_pdpt_def wf_pml4_def)
    (simp add: page_level_new_def)

lemma length_filter_update:
  "i < length xs \<Longrightarrow> \<not> P (xs ! i) \<Longrightarrow> P e \<Longrightarrow> length (filter P (xs[i := e])) = Suc (length (filter P xs))"
  by (induction xs arbitrary: i) (auto split: nat.splits)

lemma length_filter_update_same:
  "i < length xs \<Longrightarrow> P (xs ! i) \<Longrightarrow> P e \<Longrightarrow> length (filter P (xs[i := e])) = length (filter P xs)"
  by (induction xs arbitrary: i) (auto split: nat.splits)

lemma length_filter_less:
  "i < length xs \<Longrightarrow> \<not> P (xs ! i) \<Longrightarrow> length (filter P xs) < length xs"
  by (metis length_filter_less nth_mem)

lemma set_update_table:
  "TableEntry t \<in> set (xs[i := e]) \<Longrightarrow> TableEntry t \<in> set xs \<or> e = TableEntry t"
  by (metis insertE set_update_subset_insert subsetD)

text \<open>Entering a page, and taking it out again.\<close>

lemma level_set_page:
  assumes "wf_level ok l" and "i < 512" and "m_entries l ! i = NoEntry"
    and "e \<noteq> NoEntry" and "\<And>t. e = TableEntry t \<Longrightarrow> ok t \<and> destroy t = Some ()"
  obtains l' where "level_set i e l = Some l'" and "wf_level ok l'"
    and "m_entries l' = (m_entries l)[i := e]" and "m_entry_count l' \<noteq> 0"
    and "level_unset destroy i l' = Some l"
proof
  let ?l' = "l\<lparr>m_entries := (m_entries l)[i := e], m_entry_count := m_entry_count l + 1\<rparr>"
  have len: "length (m_entries l) = 512"
    using assms(1) by (simp add: wf_level_def)
  have count: "m_entry_count l < 512"
    using length_filter_less [of i "m_entries l" "\<lambda>e. e \<noteq> NoEntry"] assms(1-3)
    by (simp add: wf_level_def)
  show "level_set i e l = Some ?l'"
    using assms(2,3) count by (simp add: level_set_def)
  show "wf_level ok ?l'"
    using assms by (auto simp: wf_level_def length_filter_update dest!: set_update_table)
  show "level_unset destroy i ?l' = Some l"
    using assms(2-5) len
    by (cases e) (auto simp: level_unset_def list_update_same_conv)
qed simp_all

text \<open>Descending to the table of an entry, and what the way back does.\<close>

lemma level_ensure_descend:
  assumes wf: "wf_level (inhabited ok) l" and new: "ok page_level_new" and i: "i < 512"
    and page: "\<And>raw. m_entries l ! i \<noteq> PageEntry raw"
  obtains t l1 where "level_ensure i l = Some (t, l1)" and "ok t"
    and "t = (case m_entries l ! i of TableEntry t \<Rightarrow> t | _ \<Rightarrow> page_level_new)"
    and "\<And>t'. ok t' \<Longrightarrow> m_entry_count t' \<noteq> 0 \<Longrightarrow>
      wf_level (inhabited ok) (level_put i t' l1) \<and>
      m_entries (level_put i t' l1) = (m_entries l)[i := TableEntry t'] \<and>
      m_entry_count (level_put i t' l1) \<noteq> 0 \<and>
      level_expect i (level_put i t' l1) = Some t' \<and>
      level_release i t (level_put i t' l1) = Some l"
proof (cases "m_entries l ! i")
  case NoEntry
  let ?l1 = "l\<lparr>m_entries := (m_entries l)[i := TableEntry page_level_new], m_entry_count := m_entry_count l + 1\<rparr>"
  have len: "length (m_entries l) = 512"
    using wf by (simp add: wf_level_def)
  have count: "m_entry_count l < 512"
    using length_filter_less [of i "m_entries l" "\<lambda>e. e \<noteq> NoEntry"] wf i NoEntry
    by (simp add: wf_level_def)
  show ?thesis
  proof (rule that [of page_level_new ?l1])
    show "level_ensure i l = Some (page_level_new, ?l1)"
      using NoEntry i count by (simp add: level_ensure_def level_set_def)
    fix t' :: "'a page_level"
    assume t': "ok t'" "m_entry_count t' \<noteq> 0"
    obtain l' where l': "level_set i (TableEntry t') l = Some l'" "wf_level (inhabited ok) l'"
        "m_entries l' = (m_entries l)[i := TableEntry t']" "m_entry_count l' \<noteq> 0"
      using level_set_page [OF wf i NoEntry, of "TableEntry t'" "\<lambda>_. Some ()"] t' by auto
    then have l'_eq: "level_put i t' ?l1 = l'"
      using i NoEntry count by (auto simp: level_set_def level_put_def)
    have "level_release i page_level_new l' = Some l"
      using l'(1) i NoEntry len count
      by (auto simp: level_release_def level_unset_def level_put_def level_set_def page_level_new_def
          page_level_destroy_def list_update_same_conv list_all_iff)
    then show "wf_level (inhabited ok) (level_put i t' ?l1) \<and>
        m_entries (level_put i t' ?l1) = (m_entries l)[i := TableEntry t'] \<and>
        m_entry_count (level_put i t' ?l1) \<noteq> 0 \<and>
        level_expect i (level_put i t' ?l1) = Some t' \<and>
        level_release i page_level_new (level_put i t' ?l1) = Some l"
      using l' i len unfolding l'_eq by (simp add: level_expect_def)
  qed (use NoEntry new in simp_all)
next
  case (PageEntry raw)
  then show ?thesis
    using page by simp
next
  case (TableEntry t)
  have len: "length (m_entries l) = 512"
    using wf by (simp add: wf_level_def)
  then have t: "ok t" "m_entry_count t \<noteq> 0"
    using wf TableEntry i nth_mem [of i "m_entries l"] by (auto simp: wf_level_def)
  show ?thesis
  proof (rule that [of t l])
    show "level_ensure i l = Some (t, l)"
      using TableEntry i by (simp add: level_ensure_def)
    fix t' :: "'a page_level"
    assume t': "ok t'" "m_entry_count t' \<noteq> 0"
    have count: "length (filter (\<lambda>e. e \<noteq> NoEntry) ((m_entries l)[i := TableEntry t'])) =
        length (filter (\<lambda>e. e \<noteq> NoEntry) (m_entries l))"
      using i len TableEntry by (simp add: length_filter_update_same)
    have pos: "m_entry_count l \<noteq> 0"
      using wf TableEntry i len nth_mem [of i "m_entries l"]
      by (auto simp: wf_level_def filter_empty_conv)
    show "wf_level (inhabited ok) (level_put i t' l) \<and>
        m_entries (level_put i t' l) = (m_entries l)[i := TableEntry t'] \<and>
        m_entry_count (level_put i t' l) \<noteq> 0 \<and>
        level_expect i (level_put i t' l) = Some t' \<and>
        level_release i t (level_put i t' l) = Some l"
      using wf count pos t t' i len TableEntry
      by (intro conjI)
        (auto simp: wf_level_def level_put_def level_expect_def level_release_def list_update_same_conv
          dest: set_update_table)
  qed (use TableEntry t in simp_all)
qed

section \<open>The effect on the walk\<close>

lemma walk_new [simp]:
  "walk_pt page_level_new v = None" "walk_pd page_level_new v = None" "walk_pdpt page_level_new v = None"
  "walk page_level_new v = None"
  by (simp_all add: walk_pt_def walk_pd_def walk_pdpt_def walk_def walk_level_def page_level_new_def
      pml4_index_def pdpt_index_def pd_index_def pt_index_def)

lemma walk_level_update:
  assumes "m_entries l' = (m_entries l)[index virt := e]" and "length (m_entries l) = 512" and "index virt < 512"
  shows "walk_level index k below l' v =
    (if index v = index virt
     then (case e of NoEntry \<Rightarrow> None | PageEntry raw \<Rightarrow> Some (raw, k) | TableEntry t \<Rightarrow> below t v)
     else walk_level index k below l v)"
  using assms by (simp add: walk_level_def nth_list_update)

lemma walk_level_below:
  assumes "t = (case m_entries l ! index v of TableEntry t \<Rightarrow> t | _ \<Rightarrow> page_level_new)"
    and "\<And>raw. m_entries l ! index v \<noteq> PageEntry raw" and "\<And>v. below page_level_new v = None"
  shows "walk_level index k below l v = below t v"
  using assms by (simp add: walk_level_def split: level_entry.splits)

text \<open>
  One level of the way down: when the table below changes at the addresses \<open>C\<close> only, and in a way
  that can be undone, the level changes at those of them that share the index.
\<close>

definition updates ::
  "('l \<Rightarrow> nat \<Rightarrow> (u64 \<times> nat) option) \<Rightarrow> (nat \<Rightarrow> bool) \<Rightarrow> u64 \<times> nat \<Rightarrow> 'l \<Rightarrow> 'l \<Rightarrow> bool" where
  "updates look C x l l' \<longleftrightarrow> (\<forall>v. look l' v = (if C v then Some x else look l v))"

lemma level_set_updates:
  assumes "wf_level ok l" and "index virt < 512" and "m_entries l ! index virt = NoEntry"
  shows "\<exists>l'. level_set (index virt) (PageEntry raw) l = Some l' \<and> wf_level ok l' \<and>
    m_entry_count l' \<noteq> 0 \<and> (\<forall>destroy. level_unset destroy (index virt) l' = Some l) \<and>
    updates (walk_level index k below) (\<lambda>v. index v = index virt) (raw, k) l l'"
proof -
  obtain l' where l': "level_set (index virt) (PageEntry raw) l = Some l'" "wf_level ok l'"
      "m_entries l' = (m_entries l)[index virt := PageEntry raw]" "m_entry_count l' \<noteq> 0"
    using level_set_page [OF assms, of "PageEntry raw"] by blast
  have "level_unset destroy (index virt) l' = Some l" for destroy
    using level_set_page [OF assms, of "PageEntry raw" destroy] l'(1) by (metis level_entry.distinct(1,5) option.inject)
  moreover have "updates (walk_level index k below) (\<lambda>v. index v = index virt) (raw, k) l l'"
    using walk_level_update [of l' l index virt "PageEntry raw" k below] l'(3) assms(1,2)
    by (simp add: updates_def wf_level_def)
  ultimately show ?thesis
    using l' by blast
qed

definition descends ::
  "(nat \<Rightarrow> nat) \<Rightarrow> nat \<Rightarrow> ('e page_level \<Rightarrow> nat \<Rightarrow> (u64 \<times> nat) option) \<Rightarrow> ('e page_level \<Rightarrow> bool) \<Rightarrow>
   nat \<Rightarrow> 'e page_level page_level \<Rightarrow> 'e page_level \<Rightarrow> 'e page_level page_level \<Rightarrow> bool" where
  "descends index k below ok virt l t l1 \<longleftrightarrow>
     level_ensure (index virt) l = Some (t, l1) \<and> ok t \<and>
     t = (case m_entries l ! index virt of TableEntry t \<Rightarrow> t | _ \<Rightarrow> page_level_new) \<and>
     (\<forall>v. index v = index virt \<longrightarrow> walk_level index k below l v = below t v) \<and>
     (\<forall>t' C x. ok t' \<longrightarrow> m_entry_count t' \<noteq> 0 \<longrightarrow> updates below C x t t' \<longrightarrow>
        wf_level (inhabited ok) (level_put (index virt) t' l1) \<and>
        m_entries (level_put (index virt) t' l1) = (m_entries l)[index virt := TableEntry t'] \<and>
        m_entry_count (level_put (index virt) t' l1) \<noteq> 0 \<and>
        level_expect (index virt) (level_put (index virt) t' l1) = Some t' \<and>
        level_release (index virt) t (level_put (index virt) t' l1) = Some l \<and>
        updates (walk_level index k below) (\<lambda>v. index v = index virt \<and> C v) x l (level_put (index virt) t' l1))"

lemma level_ensure_descends:
  assumes wf: "wf_level (inhabited ok) l" and new: "ok page_level_new" "\<And>v. below page_level_new v = None"
    and i: "index virt < 512" and page: "\<And>raw. m_entries l ! index virt \<noteq> PageEntry raw"
  shows "\<exists>t l1. descends index k below ok virt l t l1"
proof (rule level_ensure_descend [OF wf new(1) i page])
  fix t l1
  assume t: "level_ensure (index virt) l = Some (t, l1)" "ok t"
    "t = (case m_entries l ! index virt of TableEntry t \<Rightarrow> t | _ \<Rightarrow> page_level_new)"
    and put: "\<And>t'. ok t' \<Longrightarrow> m_entry_count t' \<noteq> 0 \<Longrightarrow>
      wf_level (inhabited ok) (level_put (index virt) t' l1) \<and>
      m_entries (level_put (index virt) t' l1) = (m_entries l)[index virt := TableEntry t'] \<and>
      m_entry_count (level_put (index virt) t' l1) \<noteq> 0 \<and>
      level_expect (index virt) (level_put (index virt) t' l1) = Some t' \<and>
      level_release (index virt) t (level_put (index virt) t' l1) = Some l"
  have below: "walk_level index k below l v = below t v" if "index v = index virt" for v
    by (rule walk_level_below) (use t(3) page new(2) that in simp_all)
  have "updates (walk_level index k below) (\<lambda>v. index v = index virt \<and> C v) x l (level_put (index virt) t' l1)"
    if "ok t'" "m_entry_count t' \<noteq> 0" "updates below C x t t'" for t' C x
    using walk_level_update [of "level_put (index virt) t' l1" l index virt "TableEntry t'" k below]
      put [OF that(1,2)] wf i below that(3)
    by (simp add: updates_def wf_level_def)
  then have "descends index k below ok virt l t l1"
    unfolding descends_def using t below put by simp
  then show ?thesis
    by blast
qed

section \<open>Mapping a page\<close>

fun page_bits :: "physical_page_size \<Rightarrow> nat" where
  "page_bits Normal = 12"
| "page_bits Large = 21"
| "page_bits Huge = 30"

lemma from_page_size_bits: "from_page_size ps = 2 ^ page_bits ps"
  by (cases ps) (simp_all add: KiB_def MiB_def GiB_def)

text \<open>The switch over the size of a physical page in \<open>Region::map\<close> and \<open>Region::unmap_if_needed\<close>.\<close>

fun map_page :: "physical_page_size \<Rightarrow> nat \<Rightarrow> nat \<Rightarrow> u64 \<Rightarrow> pml4 \<Rightarrow> pml4 option" where
  "map_page Normal virt phys flags = map_4KiB virt phys flags"
| "map_page Large virt phys flags = map_2MiB virt phys flags"
| "map_page Huge virt phys flags = map_1GiB virt phys flags"

fun unmap_page :: "physical_page_size \<Rightarrow> nat \<Rightarrow> pml4 \<Rightarrow> pml4 option" where
  "unmap_page Normal virt = unmap_4KiB virt"
| "unmap_page Large virt = unmap_2MiB virt"
| "unmap_page Huge virt = unmap_1GiB virt"

fun page_entry_of :: "physical_page_size \<Rightarrow> nat \<Rightarrow> u64 \<Rightarrow> u64 \<times> nat" where
  "page_entry_of Normal phys flags = (entry_raw phys flags, 12)"
| "page_entry_of Large phys flags = (entry_raw phys (flags OR fl_large), 21)"
| "page_entry_of Huge phys flags = (entry_raw phys (flags OR fl_large), 30)"

lemma index_less [simp]:
  "pml4_index v < 512" "pdpt_index v < 512" "pd_index v < 512" "pt_index v < 512"
  by (simp_all add: pml4_index_def pdpt_index_def pd_index_def pt_index_def)

lemma div_512_split: "(a :: nat) = b \<longleftrightarrow> a div 512 = b div 512 \<and> a mod 512 = b mod 512"
  by (metis div_mult_mod_eq)

lemma div_steps:
  "(v :: nat) div 2 ^ 12 div 512 = v div 2 ^ 21" "v div 2 ^ 21 div 512 = v div 2 ^ 30"
  "v div 2 ^ 30 div 512 = v div 2 ^ 39"
  by (simp_all flip: div_mult2_eq)

text \<open>Whether two addresses lie in the same page is decided by the indices.\<close>

lemma same_page_iff:
  assumes "v < 2 ^ 48" and "w < 2 ^ 48"
  shows "v div 2 ^ 30 = w div 2 ^ 30 \<longleftrightarrow> pml4_index v = pml4_index w \<and> pdpt_index v = pdpt_index w"
    and "v div 2 ^ 21 = w div 2 ^ 21 \<longleftrightarrow>
      pml4_index v = pml4_index w \<and> pdpt_index v = pdpt_index w \<and> pd_index v = pd_index w"
    and "v div 2 ^ 12 = w div 2 ^ 12 \<longleftrightarrow>
      pml4_index v = pml4_index w \<and> pdpt_index v = pdpt_index w \<and> pd_index v = pd_index w \<and>
      pt_index v = pt_index w"
proof -
  have top: "u div 2 ^ 39 mod 512 = u div 2 ^ 39" if "u < 2 ^ 48" for u :: nat
    using that by simp
  note ix = pml4_index_def pdpt_index_def pd_index_def pt_index_def
  show 1: "v div 2 ^ 30 = w div 2 ^ 30 \<longleftrightarrow> pml4_index v = pml4_index w \<and> pdpt_index v = pdpt_index w"
    by (subst div_512_split) (simp only: div_steps ix top assms)
  show 2: "v div 2 ^ 21 = w div 2 ^ 21 \<longleftrightarrow>
      pml4_index v = pml4_index w \<and> pdpt_index v = pdpt_index w \<and> pd_index v = pd_index w"
    by (subst div_512_split) (simp only: div_steps 1 pd_index_def conj_assoc)
  show "v div 2 ^ 12 = w div 2 ^ 12 \<longleftrightarrow>
      pml4_index v = pml4_index w \<and> pdpt_index v = pdpt_index w \<and> pd_index v = pd_index w \<and>
      pt_index v = pt_index w"
    by (subst div_512_split) (simp only: div_steps 2 pt_index_def conj_assoc)
qed

text \<open>A table that is in use leads to a page.\<close>

lemma inhabited_entry:
  assumes "wf_level ok l" and "m_entry_count l \<noteq> 0"
  obtains i where "i < 512" and "m_entries l ! i \<noteq> NoEntry"
proof -
  have "\<exists>e\<in>set (m_entries l). e \<noteq> NoEntry"
    using assms by (auto simp: wf_level_def filter_empty_conv)
  then show ?thesis
    using assms(1) that by (auto simp: in_set_conv_nth wf_level_def)
qed

lemma wf_level_table:
  "wf_level ok l \<Longrightarrow> i < 512 \<Longrightarrow> m_entries l ! i = TableEntry t \<Longrightarrow> ok t"
  by (metis nth_mem wf_level_def)

lemma inhabited_pt:
  assumes "inhabited wf_pt t"
  obtains j where "j < 512" and "\<forall>v. pt_index v = j \<longrightarrow> walk_pt t v \<noteq> None"
proof -
  obtain j where j: "j < 512" "m_entries t ! j \<noteq> NoEntry"
    using assms inhabited_entry [of "\<lambda>_. False" t] by (auto simp: wf_pt_def)
  then obtain raw where "m_entries t ! j = PageEntry raw"
    using assms wf_level_table [of "\<lambda>_. False" t j] by (cases "m_entries t ! j") (auto simp: wf_pt_def)
  then show ?thesis
    using that [OF j(1)] by (simp add: walk_pt_def walk_level_def)
qed

lemma inhabited_pd:
  assumes "inhabited wf_pd t"
  obtains i j where "i < 512" and "j < 512"
    and "\<forall>v. pd_index v = i \<longrightarrow> pt_index v = j \<longrightarrow> walk_pd t v \<noteq> None"
proof -
  obtain i where i: "i < 512" "m_entries t ! i \<noteq> NoEntry"
    using assms inhabited_entry [of "inhabited wf_pt" t] by (auto simp: wf_pd_def)
  show ?thesis
  proof (cases "m_entries t ! i")
    case (PageEntry raw)
    then show ?thesis
      using that [OF i(1), of 0] by (simp add: walk_pd_def walk_level_def)
  next
    case (TableEntry u)
    then have "inhabited wf_pt u"
      using wf_level_table [of "inhabited wf_pt" t i u] assms i(1) by (simp add: wf_pd_def)
    then obtain j where "j < 512" "\<forall>v. pt_index v = j \<longrightarrow> walk_pt u v \<noteq> None"
      by (rule inhabited_pt)
    then show ?thesis
      using that [OF i(1)] TableEntry by (simp add: walk_pd_def walk_level_def)
  qed (use i in simp)
qed

lemma walk_level_None_page: "walk_level index k below l v = None \<Longrightarrow> m_entries l ! index v \<noteq> PageEntry raw"
  by (auto simp: walk_level_def)

lemma wf_pml4_put:
  "wf_pml4 l \<Longrightarrow> m_entries l' = (m_entries l)[i := TableEntry t] \<Longrightarrow> wf_level (inhabited wf_pdpt) l' \<Longrightarrow> wf_pml4 l'"
  by (auto simp: wf_pml4_def dest!: set_update_subset_insert [THEN subsetD])

text \<open>
  A page is mapped when nothing is mapped at its addresses. Afterwards the walk of exactly its
  addresses ends at its entry, the tables are well formed again, and unmapping the page brings the
  old tables back.
\<close>

definition mapped :: "pml4 \<Rightarrow> (pml4 \<Rightarrow> pml4 option) \<Rightarrow> (nat \<Rightarrow> bool) \<Rightarrow> u64 \<times> nat \<Rightarrow> pml4 \<Rightarrow> bool" where
  "mapped pml4 undo C x pml4' \<longleftrightarrow> wf_pml4 pml4' \<and> undo pml4' = Some pml4 \<and> updates walk C x pml4 pml4'"

lemma descend_pml4:
  "wf_pml4 l \<Longrightarrow> walk l virt = None \<Longrightarrow> \<exists>t l1. descends pml4_index 39 walk_pdpt wf_pdpt virt l t l1"
  by (rule level_ensure_descends) (auto simp: wf_pml4_def walk_def dest: walk_level_None_page)

lemma descend_pdpt:
  "wf_pdpt l \<Longrightarrow> walk_pdpt l virt = None \<Longrightarrow> \<exists>t l1. descends pdpt_index 30 walk_pd wf_pd virt l t l1"
  by (rule level_ensure_descends) (auto simp: wf_pdpt_def walk_pdpt_def dest: walk_level_None_page)

lemma descend_pd:
  "wf_pd l \<Longrightarrow> walk_pd l virt = None \<Longrightarrow> \<exists>t l1. descends pd_index 21 walk_pt wf_pt virt l t l1"
  by (rule level_ensure_descends) (auto simp: wf_pd_def walk_pd_def dest: walk_level_None_page)

lemma descendsD:
  assumes "descends index k below ok virt l t l1"
  shows "level_ensure (index virt) l = Some (t, l1)" and "ok t"
    and "t = (case m_entries l ! index virt of TableEntry t \<Rightarrow> t | _ \<Rightarrow> page_level_new)"
    and "index v = index virt \<Longrightarrow> walk_level index k below l v = below t v"
  using assms unfolding descends_def by blast+

lemma descends_put:
  assumes "descends index k below ok virt l t l1"
    and "ok t'" and "m_entry_count t' \<noteq> 0" and "updates below C x t t'"
  shows "wf_level (inhabited ok) (level_put (index virt) t' l1)"
    and "m_entries (level_put (index virt) t' l1) = (m_entries l)[index virt := TableEntry t']"
    and "m_entry_count (level_put (index virt) t' l1) \<noteq> 0"
    and "level_expect (index virt) (level_put (index virt) t' l1) = Some t'"
    and "level_release (index virt) t (level_put (index virt) t' l1) = Some l"
    and "updates (walk_level index k below) (\<lambda>v. index v = index virt \<and> C v) x l (level_put (index virt) t' l1)"
  using assms unfolding descends_def by blast+

lemma map_4KiB_ok:
  assumes wf: "wf_pml4 pml4" and align: "virt mod KiB 4 = 0" "phys mod KiB 4 = 0"
    and free: "walk pml4 virt = None"
  shows "\<exists>pml4'. map_4KiB virt phys flags pml4 = Some pml4' \<and>
    mapped pml4 (unmap_4KiB virt)
      (\<lambda>v. pml4_index v = pml4_index virt \<and> pdpt_index v = pdpt_index virt \<and>
        pd_index v = pd_index virt \<and> pt_index v = pt_index virt)
      (entry_raw phys flags, 12) pml4'"
proof -
  obtain pdpt pml41 where 1: "descends pml4_index 39 walk_pdpt wf_pdpt virt pml4 pdpt pml41"
    using descend_pml4 [OF wf free] by blast
  note d1 = descendsD [OF 1]
  obtain pd pdpt1 where 2: "descends pdpt_index 30 walk_pd wf_pd virt pdpt pd pdpt1"
    using descend_pdpt [OF d1(2), of virt] d1(4) [of virt] free by (auto simp: walk_def)
  note d2 = descendsD [OF 2]
  obtain pt pd1 where 3: "descends pd_index 21 walk_pt wf_pt virt pd pt pd1"
    using descend_pd [OF d2(2), of virt] d2(4) [of virt] d1(4) [of virt] free by (auto simp: walk_def walk_pdpt_def)
  note d3 = descendsD [OF 3]
  have "walk_pt pt virt = None"
    using d3(4) [of virt] d2(4) [of virt] d1(4) [of virt] free by (simp add: walk_def walk_pdpt_def walk_pd_def)
  then have "m_entries pt ! pt_index virt = NoEntry"
    using wf_level_table [of "\<lambda>_. False" pt "pt_index virt"] d3(2)
    by (cases "m_entries pt ! pt_index virt") (auto simp: walk_pt_def walk_level_def wf_pt_def)
  then obtain pt' where 4: "level_set (pt_index virt) (PageEntry (entry_raw phys flags)) pt = Some pt'" "wf_pt pt'"
      "m_entry_count pt' \<noteq> 0" "level_unset Some (pt_index virt) pt' = Some pt"
      "updates walk_pt (\<lambda>v. pt_index v = pt_index virt) (entry_raw phys flags, 12) pt pt'"
    using level_set_updates [of "\<lambda>_. False" pt pt_index virt "entry_raw phys flags" 12 "\<lambda>_ _. None"] d3(2)
    by (auto simp: wf_pt_def walk_pt_def)
  note p3 = descends_put [OF 3 4(2,3,5), folded wf_pd_def walk_pd_def]
  note p2 = descends_put [OF 2 p3(1,3,6), folded wf_pdpt_def walk_pdpt_def]
  note p1 = descends_put [OF 1 p2(1,3,6), folded walk_def]
  have "map_4KiB virt phys flags pml4 =
      Some (level_put (pml4_index virt)
        (level_put (pdpt_index virt) (level_put (pd_index virt) pt' pd1) pdpt1) pml41)"
    using align d1(1) d2(1) d3(1) 4(1) by (simp add: map_4KiB_def)
  moreover have "unmap_4KiB virt (level_put (pml4_index virt)
        (level_put (pdpt_index virt) (level_put (pd_index virt) pt' pd1) pdpt1) pml41) = Some pml4"
    using align(1) 4(4) p1(4,5) p2(4,5) p3(4,5) by (simp add: unmap_4KiB_def)
  ultimately show ?thesis
    using p1(6) wf_pml4_put [OF wf p1(2,1)] by (auto simp: mapped_def)
qed

lemma address_in_large:
  assumes "virt mod 2 ^ 21 = 0" and "virt < 2 ^ 48" and "j < 512"
  obtains v where "v < 2 ^ 48" and "v div 2 ^ 21 = virt div 2 ^ 21" and "pt_index v = j"
proof
  obtain q where q: "virt = 2 ^ 21 * q"
    using assms(1) by auto
  let ?v = "virt + j * 2 ^ 12"
  have v: "?v = 2 ^ 12 * (512 * q + j)"
    by (simp add: q)
  have page: "?v div 2 ^ 12 = 512 * q + j"
    unfolding v by (rule nonzero_mult_div_cancel_left) simp
  then show "?v div 2 ^ 21 = virt div 2 ^ 21"
    using assms(3) by (subst (1) div_steps(1) [symmetric]) (simp add: q)
  show "pt_index ?v = j"
    using assms(3) unfolding pt_index_def page by simp
  show "?v < 2 ^ 48"
    using assms(2,3) by (simp add: q)
qed

lemma address_in_huge:
  assumes "virt mod 2 ^ 30 = 0" and "virt < 2 ^ 48" and "i < 512" and "j < 512"
  obtains v where "v < 2 ^ 48" and "v div 2 ^ 30 = virt div 2 ^ 30" and "pd_index v = i" and "pt_index v = j"
proof -
  obtain q where q: "virt = 2 ^ 30 * q"
    using assms(1) by auto
  let ?w = "virt + i * 2 ^ 21"
  have w: "?w = 2 ^ 21 * (512 * q + i)"
    by (simp add: q)
  have page: "?w div 2 ^ 21 = 512 * q + i"
    unfolding w by (rule nonzero_mult_div_cancel_left) simp
  have ok: "?w mod 2 ^ 21 = 0" "?w < 2 ^ 48"
    using assms(2,3) q w by simp_all
  obtain v where v: "v < 2 ^ 48" "v div 2 ^ 21 = ?w div 2 ^ 21" "pt_index v = j"
    by (rule address_in_large [OF ok assms(4)])
  moreover have "v div 2 ^ 30 = virt div 2 ^ 30"
    using assms(3) by (subst (1) div_steps(2) [symmetric]) (simp only: v(2) page, simp add: q)
  moreover have "pd_index v = i"
    using assms(3) unfolding pd_index_def v(2) page by simp
  ultimately show ?thesis
    using that by blast
qed

lemma map_2MiB_ok:
  assumes wf: "wf_pml4 pml4" and align: "virt mod MiB 2 = 0" "phys mod MiB 2 = 0" and virt: "virt < 2 ^ 48"
    and free: "\<And>v. v < 2 ^ 48 \<Longrightarrow> v div 2 ^ 21 = virt div 2 ^ 21 \<Longrightarrow> walk pml4 v = None"
  shows "\<exists>pml4'. map_2MiB virt phys flags pml4 = Some pml4' \<and>
    mapped pml4 (unmap_2MiB virt)
      (\<lambda>v. pml4_index v = pml4_index virt \<and> pdpt_index v = pdpt_index virt \<and> pd_index v = pd_index virt)
      (entry_raw phys (flags OR fl_large), 21) pml4'"
proof -
  let ?raw = "entry_raw phys (flags OR fl_large)"
  note free0 = free [OF virt refl]
  obtain pdpt pml41 where 1: "descends pml4_index 39 walk_pdpt wf_pdpt virt pml4 pdpt pml41"
    using descend_pml4 [OF wf free0] by blast
  note d1 = descendsD [OF 1]
  obtain pd pdpt1 where 2: "descends pdpt_index 30 walk_pd wf_pd virt pdpt pd pdpt1"
    using descend_pdpt [OF d1(2), of virt] d1(4) [of virt] free0 by (auto simp: walk_def)
  note d2 = descendsD [OF 2]
  have same: "walk pml4 v = walk_pd pd v" if "v < 2 ^ 48" "v div 2 ^ 21 = virt div 2 ^ 21" for v
    using d2(4) [of v] d1(4) [of v] that(2) [unfolded same_page_iff(2) [OF that(1) virt]]
    by (simp add: walk_def walk_pdpt_def)
  have "m_entries pd ! pd_index virt = NoEntry"
  proof (cases "m_entries pd ! pd_index virt")
    case (PageEntry raw)
    then show ?thesis
      using same [OF virt refl] free0 by (simp add: walk_pd_def walk_level_def)
  next
    case (TableEntry t)
    then have "inhabited wf_pt t"
      using wf_level_table [of "inhabited wf_pt" pd "pd_index virt" t] d2(2) by (simp add: wf_pd_def)
    then obtain j where j: "j < 512" "\<forall>v. pt_index v = j \<longrightarrow> walk_pt t v \<noteq> None"
      by (rule inhabited_pt)
    obtain v where v: "v < 2 ^ 48" "v div 2 ^ 21 = virt div 2 ^ 21" "pt_index v = j"
      using address_in_large [of virt j] align(1) virt j(1) by (auto simp: MiB_def)
    have "walk_pd pd v = walk_pt t v"
      using v(2) TableEntry by (simp add: walk_pd_def walk_level_def pd_index_def)
    then show ?thesis
      using same [OF v(1,2)] free [OF v(1,2)] j(2) [rule_format, OF v(3)] by simp
  qed simp
  then obtain pd' where 3: "level_set (pd_index virt) (PageEntry ?raw) pd = Some pd'" "wf_pd pd'"
      "m_entry_count pd' \<noteq> 0" "level_unset page_level_destroy (pd_index virt) pd' = Some pd"
      "updates walk_pd (\<lambda>v. pd_index v = pd_index virt) (?raw, 21) pd pd'"
    using level_set_updates [of "inhabited wf_pt" pd pd_index virt ?raw 21 walk_pt] d2(2)
    by (auto simp: wf_pd_def walk_pd_def)
  note p2 = descends_put [OF 2 3(2,3,5), folded wf_pdpt_def walk_pdpt_def]
  note p1 = descends_put [OF 1 p2(1,3,6), folded walk_def]
  have "map_2MiB virt phys flags pml4 =
      Some (level_put (pml4_index virt) (level_put (pdpt_index virt) pd' pdpt1) pml41)"
    using align d1(1) d2(1) 3(1) by (simp add: map_2MiB_def)
  moreover have "unmap_2MiB virt (level_put (pml4_index virt) (level_put (pdpt_index virt) pd' pdpt1) pml41) = Some pml4"
    using align(1) 3(4) p1(4,5) p2(4,5) by (simp add: unmap_2MiB_def)
  ultimately show ?thesis
    using p1(6) wf_pml4_put [OF wf p1(2,1)] by (auto simp: mapped_def)
qed

lemma map_1GiB_ok:
  assumes wf: "wf_pml4 pml4" and align: "virt mod GiB 1 = 0" "phys mod GiB 1 = 0" and virt: "virt < 2 ^ 48"
    and free: "\<And>v. v < 2 ^ 48 \<Longrightarrow> v div 2 ^ 30 = virt div 2 ^ 30 \<Longrightarrow> walk pml4 v = None"
  shows "\<exists>pml4'. map_1GiB virt phys flags pml4 = Some pml4' \<and>
    mapped pml4 (unmap_1GiB virt)
      (\<lambda>v. pml4_index v = pml4_index virt \<and> pdpt_index v = pdpt_index virt)
      (entry_raw phys (flags OR fl_large), 30) pml4'"
proof -
  let ?raw = "entry_raw phys (flags OR fl_large)"
  note free0 = free [OF virt refl]
  obtain pdpt pml41 where 1: "descends pml4_index 39 walk_pdpt wf_pdpt virt pml4 pdpt pml41"
    using descend_pml4 [OF wf free0] by blast
  note d1 = descendsD [OF 1]
  have same: "walk pml4 v = walk_pdpt pdpt v" if "v < 2 ^ 48" "v div 2 ^ 30 = virt div 2 ^ 30" for v
    using d1(4) [of v] that(2) [unfolded same_page_iff(1) [OF that(1) virt]] by (simp add: walk_def)
  have "m_entries pdpt ! pdpt_index virt = NoEntry"
  proof (cases "m_entries pdpt ! pdpt_index virt")
    case (PageEntry raw)
    then show ?thesis
      using same [OF virt refl] free0 by (simp add: walk_pdpt_def walk_level_def)
  next
    case (TableEntry t)
    then have "inhabited wf_pd t"
      using wf_level_table [of "inhabited wf_pd" pdpt "pdpt_index virt" t] d1(2) by (simp add: wf_pdpt_def)
    then obtain i j where j: "i < 512" "j < 512"
        "\<forall>v. pd_index v = i \<longrightarrow> pt_index v = j \<longrightarrow> walk_pd t v \<noteq> None"
      by (rule inhabited_pd)
    obtain v where v: "v < 2 ^ 48" "v div 2 ^ 30 = virt div 2 ^ 30" "pd_index v = i" "pt_index v = j"
      using address_in_huge [of virt i j] align(1) virt j(1,2) by (auto simp: GiB_def)
    have "walk_pdpt pdpt v = walk_pd t v"
      using v(2) TableEntry by (simp add: walk_pdpt_def walk_level_def pdpt_index_def)
    then show ?thesis
      using same [OF v(1,2)] free [OF v(1,2)] j(3) [rule_format, OF v(3,4)] by simp
  qed simp
  then obtain pdpt' where 3: "level_set (pdpt_index virt) (PageEntry ?raw) pdpt = Some pdpt'" "wf_pdpt pdpt'"
      "m_entry_count pdpt' \<noteq> 0" "level_unset page_level_destroy (pdpt_index virt) pdpt' = Some pdpt"
      "updates walk_pdpt (\<lambda>v. pdpt_index v = pdpt_index virt) (?raw, 30) pdpt pdpt'"
    using level_set_updates [of "inhabited wf_pd" pdpt pdpt_index virt ?raw 30 walk_pd] d1(2)
    by (auto simp: wf_pdpt_def walk_pdpt_def)
  note p1 = descends_put [OF 1 3(2,3,5), folded walk_def]
  have "map_1GiB virt phys flags pml4 = Some (level_put (pml4_index virt) pdpt' pml41)"
    using align d1(1) 3(1) by (simp add: map_1GiB_def)
  moreover have "unmap_1GiB virt (level_put (pml4_index virt) pdpt' pml41) = Some pml4"
    using align(1) 3(4) p1(4,5) by (simp add: unmap_1GiB_def)
  ultimately show ?thesis
    using p1(6) wf_pml4_put [OF wf p1(2,1)] by (auto simp: mapped_def)
qed

lemma mapped_page:
  assumes "r = Some pml4' \<and> mapped pml4 undo C x pml4'" and "\<And>v. v < 2 ^ 48 \<Longrightarrow> C v \<longleftrightarrow> v div n = virt div n"
  shows "r = Some pml4' \<and> wf_pml4 pml4' \<and> undo pml4' = Some pml4 \<and>
    (\<forall>v < 2 ^ 48. walk pml4' v = (if v div n = virt div n then Some x else walk pml4 v))"
  using assms by (simp add: mapped_def updates_def)

lemma map_page_ok:
  assumes wf: "wf_pml4 pml4" and align: "virt mod from_page_size ps = 0" "phys mod from_page_size ps = 0"
    and virt: "virt < 2 ^ 48"
    and free: "\<And>v. v < 2 ^ 48 \<Longrightarrow> v div from_page_size ps = virt div from_page_size ps \<Longrightarrow> walk pml4 v = None"
  shows "\<exists>pml4'. map_page ps virt phys flags pml4 = Some pml4' \<and> wf_pml4 pml4' \<and>
    unmap_page ps virt pml4' = Some pml4 \<and>
    (\<forall>v < 2 ^ 48. walk pml4' v =
      (if v div from_page_size ps = virt div from_page_size ps then Some (page_entry_of ps phys flags) else walk pml4 v))"
proof (cases ps)
  case Normal
  obtain pml4' where "map_4KiB virt phys flags pml4 = Some pml4' \<and> mapped pml4 (unmap_4KiB virt)
      (\<lambda>v. pml4_index v = pml4_index virt \<and> pdpt_index v = pdpt_index virt \<and>
        pd_index v = pd_index virt \<and> pt_index v = pt_index virt)
      (entry_raw phys flags, 12) pml4'"
    using map_4KiB_ok [OF wf align [unfolded Normal from_page_size.simps] free [OF virt refl]] by blast
  from mapped_page [OF this, of "2 ^ 12" virt] show ?thesis
    using same_page_iff(3) [OF _ virt] by (auto simp: Normal from_page_size_bits simp del: from_page_size.simps)
next
  case Large
  note free' = free [unfolded Large from_page_size_bits page_bits.simps]
  obtain pml4' where "map_2MiB virt phys flags pml4 = Some pml4' \<and> mapped pml4 (unmap_2MiB virt)
      (\<lambda>v. pml4_index v = pml4_index virt \<and> pdpt_index v = pdpt_index virt \<and> pd_index v = pd_index virt)
      (entry_raw phys (flags OR fl_large), 21) pml4'"
    using map_2MiB_ok [OF wf align [unfolded Large from_page_size.simps] virt free'] by blast
  from mapped_page [OF this, of "2 ^ 21" virt] show ?thesis
    using same_page_iff(2) [OF _ virt] by (auto simp: Large from_page_size_bits simp del: from_page_size.simps)
next
  case Huge
  note free' = free [unfolded Huge from_page_size_bits page_bits.simps]
  obtain pml4' where "map_1GiB virt phys flags pml4 = Some pml4' \<and> mapped pml4 (unmap_1GiB virt)
      (\<lambda>v. pml4_index v = pml4_index virt \<and> pdpt_index v = pdpt_index virt)
      (entry_raw phys (flags OR fl_large), 30) pml4'"
    using map_1GiB_ok [OF wf align [unfolded Huge from_page_size.simps] virt free'] by blast
  from mapped_page [OF this, of "2 ^ 30" virt] show ?thesis
    using same_page_iff(1) [OF _ virt] by (auto simp: Huge from_page_size_bits simp del: from_page_size.simps)
qed

section \<open>Unmapping a page\<close>

definition clears :: "('l \<Rightarrow> nat \<Rightarrow> (u64 \<times> nat) option) \<Rightarrow> (nat \<Rightarrow> bool) \<Rightarrow> 'l \<Rightarrow> 'l \<Rightarrow> bool" where
  "clears look C l l' \<longleftrightarrow> (\<forall>v. look l' v = (if C v then None else look l v))"

lemma wf_level_remove:
  assumes "wf_level ok l" and "i < 512" and "m_entries l ! i \<noteq> NoEntry"
  shows "wf_level ok (l\<lparr>m_entries := (m_entries l)[i := NoEntry], m_entry_count := m_entry_count l - 1\<rparr>)"
    and "m_entry_count l > 0"
proof -
  let ?es = "(m_entries l)[i := NoEntry]"
  have len: "length (m_entries l) = 512"
    using assms(1) by (simp add: wf_level_def)
  have "length (filter (\<lambda>e. e \<noteq> NoEntry) (?es[i := m_entries l ! i])) = Suc (length (filter (\<lambda>e. e \<noteq> NoEntry) ?es))"
    using assms len by (intro length_filter_update) auto
  then have count: "length (filter (\<lambda>e. e \<noteq> NoEntry) (m_entries l)) = Suc (length (filter (\<lambda>e. e \<noteq> NoEntry) ?es))"
    by simp
  then show "m_entry_count l > 0"
    using assms(1) by (simp add: wf_level_def)
  show "wf_level ok (l\<lparr>m_entries := ?es, m_entry_count := m_entry_count l - 1\<rparr>)"
    using assms(1) count by (auto simp: wf_level_def dest!: set_update_table)
qed

lemma level_unset_page:
  assumes "wf_level ok l" and "index virt < 512" and "m_entries l ! index virt = PageEntry raw"
  shows "\<exists>l'. level_unset destroy (index virt) l = Some l' \<and> wf_level ok l' \<and>
    clears (walk_level index k below) (\<lambda>v. index v = index virt) l l'"
proof -
  let ?l' = "l\<lparr>m_entries := (m_entries l)[index virt := NoEntry], m_entry_count := m_entry_count l - 1\<rparr>"
  have "wf_level ok ?l'" "m_entry_count l > 0"
    using wf_level_remove [OF assms(1,2)] assms(3) by simp_all
  moreover have "clears (walk_level index k below) (\<lambda>v. index v = index virt) l ?l'"
    using walk_level_update [of ?l' l index virt NoEntry k below] assms(1,2)
    by (simp add: clears_def wf_level_def)
  ultimately show ?thesis
    using assms(2,3) by (simp add: level_unset_def)
qed

lemma empty_level:
  assumes "wf_level ok t" and "m_entry_count t = 0"
  shows "page_level_destroy t = Some ()" and "index v < 512 \<Longrightarrow> walk_level index k below t v = None"
proof -
  have es: "\<forall>e\<in>set (m_entries t). e = NoEntry" "length (m_entries t) = 512"
    using assms by (auto simp: wf_level_def filter_empty_conv)
  then show "page_level_destroy t = Some ()"
    using assms(2) by (simp add: page_level_destroy_def list_all_iff)
  show "walk_level index k below t v = None" if "index v < 512"
    using es(1) [rule_format, OF nth_mem, of "index v"] es(2) that by (simp add: walk_level_def)
qed

lemma level_release_clears:
  assumes wf: "wf_level (inhabited ok) l" and i: "index virt < 512"
    and t: "m_entries l ! index virt = TableEntry t" and t': "ok t'" "clears below C t t'"
    and empty: "m_entry_count t' = 0 \<Longrightarrow> page_level_destroy t' = Some () \<and> (\<forall>v. below t' v = None)"
  shows "\<exists>l'. level_release (index virt) t' l = Some l' \<and> wf_level (inhabited ok) l' \<and>
    clears (walk_level index k below) (\<lambda>v. index v = index virt \<and> C v) l l'"
proof (cases "m_entry_count t' = 0")
  case True
  let ?l' = "l\<lparr>m_entries := (m_entries l)[index virt := NoEntry], m_entry_count := m_entry_count l - 1\<rparr>"
  have wf': "wf_level (inhabited ok) ?l'" "m_entry_count l > 0"
    using wf_level_remove [OF wf i] t by simp_all
  then have "level_release (index virt) t' l = Some ?l'"
    using True i empty wf by (simp add: level_release_def level_unset_def level_put_def wf_level_def)
  moreover have "clears (walk_level index k below) (\<lambda>v. index v = index virt \<and> C v) l ?l'"
  proof -
    have "below t v = None" if "\<not> C v" for v
      using t'(2) empty [OF True] that unfolding clears_def by metis
    then show ?thesis
      using walk_level_update [of ?l' l index virt NoEntry k below] wf i t
      by (simp add: clears_def wf_level_def) (simp add: walk_level_def)
  qed
  ultimately show ?thesis
    using wf' by blast
next
  case False
  let ?l' = "level_put (index virt) t' l"
  have "wf_level (inhabited ok) ?l'"
    using wf i t t'(1) False
    by (auto simp: wf_level_def level_put_def length_filter_update_same dest!: set_update_table)
  moreover have "clears (walk_level index k below) (\<lambda>v. index v = index virt \<and> C v) l ?l'"
    using walk_level_update [of ?l' l index virt "TableEntry t'" k below] wf i t t'(2)
    by (simp add: clears_def wf_level_def walk_level_def level_put_def)
  ultimately show ?thesis
    using False by (auto simp: level_release_def)
qed

text \<open>The walk of an address that lands on a page of a lower level passes through a table.\<close>

lemma walk_level_table:
  assumes "walk_level index k below l v = Some (raw, j)" and "j \<noteq> k" and "index v < 512"
  obtains t where "m_entries l ! index v = TableEntry t" and "level_expect (index v) l = Some t"
    and "below t v = Some (raw, j)"
  using assms that by (auto simp: walk_level_def level_expect_def split: level_entry.splits)

lemma walk_level_page:
  assumes "wf_level ok l" and "index v < 512" and "walk_level index k below l v = Some (raw, k)"
    and "\<And>t. ok t \<Longrightarrow> below t v \<noteq> Some (raw, k)"
  shows "m_entries l ! index v = PageEntry raw"
  using assms wf_level_table [OF assms(1,2)] by (auto simp: walk_level_def split: level_entry.splits)

lemma walk_bits:
  "walk_pt t v = Some (raw, j) \<Longrightarrow> j = 12"
  "walk_pd d v = Some (raw, j) \<Longrightarrow> j = 12 \<or> j = 21"
  by (auto simp: walk_pt_def walk_pd_def walk_level_def split: level_entry.splits)

lemma clears_pml4_wf:
  assumes "wf_pml4 l" and "level_release (pml4_index virt) t' l = Some l'" and "wf_level (inhabited wf_pdpt) l'"
  shows "wf_pml4 l'"
  using assms
  by (auto simp: wf_pml4_def level_release_def level_unset_def level_put_def split: if_splits option.splits level_entry.splits
      dest!: set_update_subset_insert [THEN subsetD] bind_eq_Some_conv [THEN iffD1])

lemma release_pd:
  assumes "wf_pd l" and "m_entries l ! pd_index virt = TableEntry t" and "wf_pt t'" and "clears walk_pt C t t'"
  shows "\<exists>l'. level_release (pd_index virt) t' l = Some l' \<and> wf_pd l' \<and>
    clears walk_pd (\<lambda>v. pd_index v = pd_index virt \<and> C v) l l'"
  unfolding wf_pd_def walk_pd_def
  by (rule level_release_clears [where t = t])
    (use assms in \<open>auto simp: wf_pd_def wf_pt_def walk_pt_def empty_level\<close>)

lemma release_pdpt:
  assumes "wf_pdpt l" and "m_entries l ! pdpt_index virt = TableEntry t" and "wf_pd t'" and "clears walk_pd C t t'"
  shows "\<exists>l'. level_release (pdpt_index virt) t' l = Some l' \<and> wf_pdpt l' \<and>
    clears walk_pdpt (\<lambda>v. pdpt_index v = pdpt_index virt \<and> C v) l l'"
  unfolding wf_pdpt_def walk_pdpt_def
  by (rule level_release_clears [where t = t])
    (use assms in \<open>auto simp: wf_pdpt_def wf_pd_def walk_pd_def empty_level\<close>)

lemma release_pml4:
  assumes "wf_pml4 l" and "m_entries l ! pml4_index virt = TableEntry t" and "wf_pdpt t'" and "clears walk_pdpt C t t'"
  shows "\<exists>l'. level_release (pml4_index virt) t' l = Some l' \<and> wf_pml4 l' \<and>
    clears walk (\<lambda>v. pml4_index v = pml4_index virt \<and> C v) l l'"
proof -
  obtain l' where "level_release (pml4_index virt) t' l = Some l'" "wf_level (inhabited wf_pdpt) l'"
      "clears walk (\<lambda>v. pml4_index v = pml4_index virt \<and> C v) l l'"
    using level_release_clears [of wf_pdpt l pml4_index virt t t' walk_pdpt C 39] assms
      empty_level [of "inhabited wf_pd" t'] by (auto simp: wf_pml4_def wf_pdpt_def walk_pdpt_def walk_def)
  then show ?thesis
    using clears_pml4_wf [OF assms(1)] by blast
qed

lemma unmap_4KiB_ok:
  assumes wf: "wf_pml4 pml4" and align: "virt mod KiB 4 = 0" and walk: "walk pml4 virt = Some (raw, 12)"
  shows "\<exists>pml4'. unmap_4KiB virt pml4 = Some pml4' \<and> wf_pml4 pml4' \<and>
    clears walk (\<lambda>v. pml4_index v = pml4_index virt \<and> pdpt_index v = pdpt_index virt \<and>
        pd_index v = pd_index virt \<and> pt_index v = pt_index virt) pml4 pml4'"
proof -
  note top = wf [unfolded wf_pml4_def, THEN conjunct1]
  obtain pdpt where 1: "m_entries pml4 ! pml4_index virt = TableEntry pdpt"
      "level_expect (pml4_index virt) pml4 = Some pdpt" "walk_pdpt pdpt virt = Some (raw, 12)"
    by (rule walk_level_table [OF walk [unfolded walk_def]]) simp_all
  obtain pd where 2: "m_entries pdpt ! pdpt_index virt = TableEntry pd"
      "level_expect (pdpt_index virt) pdpt = Some pd" "walk_pd pd virt = Some (raw, 12)"
    by (rule walk_level_table [OF 1(3) [unfolded walk_pdpt_def]]) simp_all
  obtain pt where 3: "m_entries pd ! pd_index virt = TableEntry pt"
      "level_expect (pd_index virt) pd = Some pt" "walk_pt pt virt = Some (raw, 12)"
    by (rule walk_level_table [OF 2(3) [unfolded walk_pd_def]]) simp_all
  have ok: "wf_pdpt pdpt" "wf_pd pd" "wf_pt pt"
    using wf_level_table [OF top _ 1(1)] wf_level_table [of "inhabited wf_pd", OF _ _ 2(1)]
      wf_level_table [of "inhabited wf_pt", OF _ _ 3(1)]
    by (simp_all add: wf_pdpt_def wf_pd_def)
  have "m_entries pt ! pt_index virt = PageEntry raw"
    using walk_level_page [of "\<lambda>_. False" pt pt_index virt 12 "\<lambda>_ _. None" raw] ok(3) 3(3)
    by (simp add: wf_pt_def walk_pt_def)
  then obtain pt' where 4: "level_unset Some (pt_index virt) pt = Some pt'" "wf_pt pt'"
      "clears walk_pt (\<lambda>v. pt_index v = pt_index virt) pt pt'"
    using level_unset_page [of "\<lambda>_. False" pt pt_index virt raw Some 12 "\<lambda>_ _. None"] ok(3)
    by (auto simp: wf_pt_def walk_pt_def)
  obtain pd' where 5: "level_release (pd_index virt) pt' pd = Some pd'" "wf_pd pd'"
      "clears walk_pd (\<lambda>v. pd_index v = pd_index virt \<and> pt_index v = pt_index virt) pd pd'"
    using release_pd [OF ok(2) 3(1) 4(2,3)] by blast
  obtain pdpt' where 6: "level_release (pdpt_index virt) pd' pdpt = Some pdpt'" "wf_pdpt pdpt'"
      "clears walk_pdpt (\<lambda>v. pdpt_index v = pdpt_index virt \<and> pd_index v = pd_index virt \<and> pt_index v = pt_index virt) pdpt pdpt'"
    using release_pdpt [OF ok(1) 2(1) 5(2,3)] by blast
  obtain pml4' where 7: "level_release (pml4_index virt) pdpt' pml4 = Some pml4'" "wf_pml4 pml4'"
      "clears walk (\<lambda>v. pml4_index v = pml4_index virt \<and> pdpt_index v = pdpt_index virt \<and>
        pd_index v = pd_index virt \<and> pt_index v = pt_index virt) pml4 pml4'"
    using release_pml4 [OF wf 1(1) 6(2,3)] by blast
  have "unmap_4KiB virt pml4 = Some pml4'"
    using align 1(2) 2(2) 3(2) 4(1) 5(1) 6(1) 7(1) by (simp add: unmap_4KiB_def)
  then show ?thesis
    using 7(2,3) by blast
qed

lemma unmap_2MiB_ok:
  assumes wf: "wf_pml4 pml4" and align: "virt mod MiB 2 = 0" and walk: "walk pml4 virt = Some (raw, 21)"
  shows "\<exists>pml4'. unmap_2MiB virt pml4 = Some pml4' \<and> wf_pml4 pml4' \<and>
    clears walk (\<lambda>v. pml4_index v = pml4_index virt \<and> pdpt_index v = pdpt_index virt \<and>
        pd_index v = pd_index virt) pml4 pml4'"
proof -
  note top = wf [unfolded wf_pml4_def, THEN conjunct1]
  obtain pdpt where 1: "m_entries pml4 ! pml4_index virt = TableEntry pdpt"
      "level_expect (pml4_index virt) pml4 = Some pdpt" "walk_pdpt pdpt virt = Some (raw, 21)"
    by (rule walk_level_table [OF walk [unfolded walk_def]]) simp_all
  obtain pd where 2: "m_entries pdpt ! pdpt_index virt = TableEntry pd"
      "level_expect (pdpt_index virt) pdpt = Some pd" "walk_pd pd virt = Some (raw, 21)"
    by (rule walk_level_table [OF 1(3) [unfolded walk_pdpt_def]]) simp_all
  have ok: "wf_pdpt pdpt" "wf_pd pd"
    using wf_level_table [OF top _ 1(1)] wf_level_table [of "inhabited wf_pd", OF _ _ 2(1)]
    by (simp_all add: wf_pdpt_def)
  have "m_entries pd ! pd_index virt = PageEntry raw"
    using walk_level_page [of "inhabited wf_pt" pd pd_index virt 21 walk_pt raw] ok(2) 2(3) walk_bits(1)
    by (force simp: wf_pd_def walk_pd_def)
  then obtain pd' where 3: "level_unset page_level_destroy (pd_index virt) pd = Some pd'" "wf_pd pd'"
      "clears walk_pd (\<lambda>v. pd_index v = pd_index virt) pd pd'"
    using level_unset_page [of "inhabited wf_pt" pd pd_index virt raw page_level_destroy 21 walk_pt] ok(2)
    by (auto simp: wf_pd_def walk_pd_def)
  obtain pdpt' where 4: "level_release (pdpt_index virt) pd' pdpt = Some pdpt'" "wf_pdpt pdpt'"
      "clears walk_pdpt (\<lambda>v. pdpt_index v = pdpt_index virt \<and> pd_index v = pd_index virt) pdpt pdpt'"
    using release_pdpt [OF ok(1) 2(1) 3(2,3)] by blast
  obtain pml4' where 5: "level_release (pml4_index virt) pdpt' pml4 = Some pml4'" "wf_pml4 pml4'"
      "clears walk (\<lambda>v. pml4_index v = pml4_index virt \<and> pdpt_index v = pdpt_index virt \<and>
        pd_index v = pd_index virt) pml4 pml4'"
    using release_pml4 [OF wf 1(1) 4(2,3)] by blast
  have "unmap_2MiB virt pml4 = Some pml4'"
    using align 1(2) 2(2) 3(1) 4(1) 5(1) by (simp add: unmap_2MiB_def)
  then show ?thesis
    using 5(2,3) by blast
qed

lemma unmap_1GiB_ok:
  assumes wf: "wf_pml4 pml4" and align: "virt mod GiB 1 = 0" and walk: "walk pml4 virt = Some (raw, 30)"
  shows "\<exists>pml4'. unmap_1GiB virt pml4 = Some pml4' \<and> wf_pml4 pml4' \<and>
    clears walk (\<lambda>v. pml4_index v = pml4_index virt \<and> pdpt_index v = pdpt_index virt) pml4 pml4'"
proof -
  note top = wf [unfolded wf_pml4_def, THEN conjunct1]
  obtain pdpt where 1: "m_entries pml4 ! pml4_index virt = TableEntry pdpt"
      "level_expect (pml4_index virt) pml4 = Some pdpt" "walk_pdpt pdpt virt = Some (raw, 30)"
    by (rule walk_level_table [OF walk [unfolded walk_def]]) simp_all
  have ok: "wf_pdpt pdpt"
    using wf_level_table [OF top _ 1(1)] by simp
  have "m_entries pdpt ! pdpt_index virt = PageEntry raw"
    using walk_level_page [of "inhabited wf_pd" pdpt pdpt_index virt 30 walk_pd raw] ok 1(3) walk_bits(2)
    by (force simp: wf_pdpt_def walk_pdpt_def)
  then obtain pdpt' where 2: "level_unset page_level_destroy (pdpt_index virt) pdpt = Some pdpt'" "wf_pdpt pdpt'"
      "clears walk_pdpt (\<lambda>v. pdpt_index v = pdpt_index virt) pdpt pdpt'"
    using level_unset_page [of "inhabited wf_pd" pdpt pdpt_index virt raw page_level_destroy 30 walk_pd] ok
    by (auto simp: wf_pdpt_def walk_pdpt_def)
  obtain pml4' where 3: "level_release (pml4_index virt) pdpt' pml4 = Some pml4'" "wf_pml4 pml4'"
      "clears walk (\<lambda>v. pml4_index v = pml4_index virt \<and> pdpt_index v = pdpt_index virt) pml4 pml4'"
    using release_pml4 [OF wf 1(1) 2(2,3)] by blast
  have "unmap_1GiB virt pml4 = Some pml4'"
    using align 1(2) 2(1) 3(1) by (simp add: unmap_1GiB_def)
  then show ?thesis
    using 3(2,3) by blast
qed

lemma cleared_page:
  assumes "r = Some pml4' \<and> wf_pml4 pml4' \<and> clears walk C pml4 pml4'"
    and "\<And>v. v < 2 ^ 48 \<Longrightarrow> C v \<longleftrightarrow> v div n = virt div n"
  shows "r = Some pml4' \<and> wf_pml4 pml4' \<and>
    (\<forall>v < 2 ^ 48. walk pml4' v = (if v div n = virt div n then None else walk pml4 v))"
  using assms by (simp add: clears_def)

lemma unmap_page_ok:
  assumes wf: "wf_pml4 pml4" and align: "virt mod from_page_size ps = 0" and virt: "virt < 2 ^ 48"
    and walk: "walk pml4 virt = Some (raw, page_bits ps)"
  shows "\<exists>pml4'. unmap_page ps virt pml4 = Some pml4' \<and> wf_pml4 pml4' \<and>
    (\<forall>v < 2 ^ 48. walk pml4' v = (if v div from_page_size ps = virt div from_page_size ps then None else walk pml4 v))"
proof (cases ps)
  case Normal
  obtain pml4' where "unmap_4KiB virt pml4 = Some pml4' \<and> wf_pml4 pml4' \<and>
      clears walk (\<lambda>v. pml4_index v = pml4_index virt \<and> pdpt_index v = pdpt_index virt \<and>
        pd_index v = pd_index virt \<and> pt_index v = pt_index virt) pml4 pml4'"
    using unmap_4KiB_ok [OF wf _ walk [unfolded Normal page_bits.simps]] align Normal by auto
  from cleared_page [OF this, of "2 ^ 12" virt] show ?thesis
    using same_page_iff(3) [OF _ virt] by (auto simp: Normal from_page_size_bits simp del: from_page_size.simps)
next
  case Large
  obtain pml4' where "unmap_2MiB virt pml4 = Some pml4' \<and> wf_pml4 pml4' \<and>
      clears walk (\<lambda>v. pml4_index v = pml4_index virt \<and> pdpt_index v = pdpt_index virt \<and>
        pd_index v = pd_index virt) pml4 pml4'"
    using unmap_2MiB_ok [OF wf _ walk [unfolded Large page_bits.simps]] align Large by auto
  from cleared_page [OF this, of "2 ^ 21" virt] show ?thesis
    using same_page_iff(2) [OF _ virt] by (auto simp: Large from_page_size_bits simp del: from_page_size.simps)
next
  case Huge
  obtain pml4' where "unmap_1GiB virt pml4 = Some pml4' \<and> wf_pml4 pml4' \<and>
      clears walk (\<lambda>v. pml4_index v = pml4_index virt \<and> pdpt_index v = pdpt_index virt) pml4 pml4'"
    using unmap_1GiB_ok [OF wf _ walk [unfolded Huge page_bits.simps]] align Huge by auto
  from cleared_page [OF this, of "2 ^ 30" virt] show ?thesis
    using same_page_iff(1) [OF _ virt] by (auto simp: Huge from_page_size_bits simp del: from_page_size.simps)
qed

section \<open>The walk determines the tables\<close>

lemma canonical_level:
  assumes wf: "wf_level (inhabited ok) l" "wf_level (inhabited ok) l'"
    and same: "\<And>v. walk_level index k below l v = walk_level index k below l' v"
    and pick: "\<And>i w. i < 512 \<Longrightarrow> \<exists>v. index v = i \<and> (\<forall>t. below t v = below t w)"
    and low: "\<And>t v raw. below t v \<noteq> Some (raw, k)"
    and inh: "\<And>t. inhabited ok t \<Longrightarrow> \<exists>w. below t w \<noteq> None"
    and canon: "\<And>t t'. ok t \<Longrightarrow> ok t' \<Longrightarrow> (\<And>v. below t v = below t' v) \<Longrightarrow> t = t'"
  shows "l = l'"
proof -
  have len: "length (m_entries l) = 512" "length (m_entries l') = 512"
    using wf by (simp_all add: wf_level_def)
  have "m_entries l ! i = m_entries l' ! i" if i: "i < 512" for i
  proof -
    have at: "walk_level index k below u v = (case m_entries u ! i of NoEntry \<Rightarrow> None
        | PageEntry raw \<Rightarrow> Some (raw, k) | TableEntry t \<Rightarrow> below t v)" if "index v = i" for u v
      using that by (simp add: walk_level_def)
    have none: "m_entries u' ! i = NoEntry" if e: "m_entries u ! i = NoEntry" and u': "wf_level (inhabited ok) u'"
        and eq: "\<And>v. walk_level index k below u v = walk_level index k below u' v" for u u'
    proof (cases "m_entries u' ! i")
      case (PageEntry raw)
      then show ?thesis
        using pick [OF i, of 0] at [of _ u] at [of _ u'] e eq by fastforce
    next
      case (TableEntry t)
      then obtain w where "below t w \<noteq> None"
        using inh wf_level_table [OF u' i] by blast
      then show ?thesis
        using pick [OF i, of w] at [of _ u] at [of _ u'] e eq TableEntry by fastforce
    qed simp
    show ?thesis
    proof (cases "m_entries l ! i")
      case NoEntry
      then show ?thesis
        using none [OF NoEntry wf(2) same] by simp
    next
      case (PageEntry raw)
      then obtain v where v: "index v = i" "walk_level index k below l v = Some (raw, k)"
        using pick [OF i, of 0] at [of _ l] by auto
      then show ?thesis
        using same [of v] at [OF v(1), of l'] PageEntry low by (auto split: level_entry.splits)
    next
      case (TableEntry t)
      obtain w where w: "below t w \<noteq> None"
        using inh wf_level_table [OF wf(1) i TableEntry] by blast
      obtain v where v: "index v = i" "\<forall>t. below t v = below t w"
        using pick [OF i, of w] by blast
      show ?thesis
      proof (cases "m_entries l' ! i")
        case NoEntry
        then show ?thesis
          using at [OF v(1), of l] at [OF v(1), of l'] same [of v] TableEntry v(2) w by simp
      next
        case (PageEntry raw)
        then show ?thesis
          using at [OF v(1), of l] at [OF v(1), of l'] same [of v] TableEntry low [of t v raw] by simp
      next
        case (TableEntry t')
        have "below t u = below t' u" for u
          using pick [OF i, of u] at [of _ l] at [of _ l'] same \<open>m_entries l ! i = TableEntry t\<close> TableEntry by fastforce
        then have "t = t'"
          using canon wf_level_table [OF wf(1) i \<open>m_entries l ! i = TableEntry t\<close>] wf_level_table [OF wf(2) i TableEntry]
          by blast
        then show ?thesis
          using \<open>m_entries l ! i = TableEntry t\<close> TableEntry by simp
      qed
    qed
  qed
  then have "m_entries l = m_entries l'"
    using len by (intro nth_equalityI) auto
  then show ?thesis
    using wf by (simp add: wf_level_def)
qed

lemma index_bits:
  "pml4_index v = take_bit 9 (drop_bit 39 v)" "pdpt_index v = take_bit 9 (drop_bit 30 v)"
  "pd_index v = take_bit 9 (drop_bit 21 v)" "pt_index v = take_bit 9 (drop_bit 12 v)"
  by (simp_all add: pml4_index_def pdpt_index_def pd_index_def pt_index_def take_bit_eq_mod drop_bit_eq_div)

lemma low_index:
  "m + 9 \<le> n \<Longrightarrow> take_bit 9 (drop_bit m (i * 2 ^ n + take_bit n w)) = take_bit 9 (drop_bit m (w :: nat))"
proof -
  assume mn: "m + 9 \<le> n"
  obtain d where d: "n = 9 + m + d"
    using mn by (metis add.commute le_iff_add)
  have "i * 2 ^ n + w mod 2 ^ n = i * 2 ^ d * 2 ^ (9 + m) + w mod 2 ^ n"
    by (simp add: d power_add mult.commute mult.left_commute)
  moreover have "w mod 2 ^ n mod 2 ^ (9 + m) = w mod 2 ^ (9 + m)"
    by (rule mod_mod_cancel) (simp add: d power_add)
  ultimately have "take_bit (9 + m) (i * 2 ^ n + take_bit n w) = take_bit (9 + m) w"
    by (simp only: take_bit_eq_mod mod_mult_self3)
  then show ?thesis
    by (simp add: take_bit_drop_bit)
qed

lemma walk_cong:
  "pt_index v = pt_index w \<Longrightarrow> walk_pt t1 v = walk_pt t1 w"
  "pt_index v = pt_index w \<Longrightarrow> pd_index v = pd_index w \<Longrightarrow> walk_pd t2 v = walk_pd t2 w"
  "pt_index v = pt_index w \<Longrightarrow> pd_index v = pd_index w \<Longrightarrow> pdpt_index v = pdpt_index w \<Longrightarrow>
     walk_pdpt t3 v = walk_pdpt t3 w"
  "pt_index v = pt_index w \<Longrightarrow> pd_index v = pd_index w \<Longrightarrow> pdpt_index v = pdpt_index w \<Longrightarrow>
     pml4_index v = pml4_index w \<Longrightarrow> walk l v = walk l w"
  by (auto simp: walk_pt_def walk_pd_def walk_pdpt_def walk_def walk_level_def split: level_entry.split)

lemma high_index: "i < 512 \<Longrightarrow> take_bit 9 (drop_bit n (i * 2 ^ n + take_bit n w)) = (i :: nat)"
  by (simp add: take_bit_eq_mod drop_bit_eq_div)

lemma canonical_pt:
  assumes wf: "wf_pt t" "wf_pt t'" and same: "\<And>v. walk_pt t v = walk_pt t' v"
  shows "t = t'"
proof -
  have "m_entries t ! i = m_entries t' ! i" if i: "i < 512" for i
  proof -
    have "pt_index (i * 2 ^ 12) = i"
      using high_index [OF i, of 12 0] by (simp add: index_bits)
    moreover have "\<And>u. m_entries t ! i \<noteq> TableEntry u" "\<And>u. m_entries t' ! i \<noteq> TableEntry u"
      using wf_level_table [of "\<lambda>_. False" t i] wf_level_table [of "\<lambda>_. False" t' i] wf i
      by (auto simp: wf_pt_def)
    ultimately show ?thesis
      using same [of "i * 2 ^ 12"]
      by (auto simp: walk_pt_def walk_level_def simp del: power_numeral split: level_entry.splits)
  qed
  then have "m_entries t = m_entries t'"
    using wf by (intro nth_equalityI) (auto simp: wf_pt_def wf_level_def)
  then show ?thesis
    using wf by (simp add: wf_pt_def wf_level_def)
qed

lemma canonical_pd: "t = t'" if "wf_pd t" "wf_pd t'" "\<And>v. walk_pd t v = walk_pd t' v"
proof (rule canonical_level [of wf_pt t t' pd_index 21 walk_pt])
  show "\<exists>v. pd_index v = i \<and> (\<forall>t. walk_pt t v = walk_pt t w)" if "i < 512" for i w
    using high_index [OF that, of 21 w] low_index [of 12 21 i w]
    by (intro exI [of _ "i * 2 ^ 21 + take_bit 21 w"] conjI allI walk_cong) (simp_all add: index_bits)
  show "walk_pt u v \<noteq> Some (raw, 21)" for u v raw
    using walk_bits(1) by fastforce
  show "\<exists>w. walk_pt u w \<noteq> None" if u: "inhabited wf_pt u" for u
  proof -
    obtain j where "j < 512" "\<forall>v. pt_index v = j \<longrightarrow> walk_pt u v \<noteq> None"
      using u by (rule inhabited_pt)
    then show ?thesis
      using high_index [of j 12 0] by (metis index_bits(4))
  qed
  show "u = u'" if "wf_pt u" "wf_pt u'" "\<And>v. walk_pt u v = walk_pt u' v" for u u'
    by (rule canonical_pt) (use that in auto)
qed (use that in \<open>auto simp: wf_pd_def walk_pd_def\<close>)

lemma inhabited_pd_walk: "inhabited wf_pd u \<Longrightarrow> \<exists>w. walk_pd u w \<noteq> None"
proof -
  assume "inhabited wf_pd u"
  then obtain i j where ij: "i < 512" "j < 512" "\<forall>v. pd_index v = i \<longrightarrow> pt_index v = j \<longrightarrow> walk_pd u v \<noteq> None"
    by (rule inhabited_pd)
  let ?v = "i * 2 ^ 21 + take_bit 21 (j * 2 ^ 12)"
  have "pd_index ?v = i" "pt_index ?v = j"
    using high_index [OF ij(1), of 21 "j * 2 ^ 12"] low_index [of 12 21 i "j * 2 ^ 12"] high_index [OF ij(2), of 12 0]
    by (simp_all add: index_bits)
  then show ?thesis
    using ij(3) by blast
qed

lemma canonical_pdpt: "t = t'" if "wf_pdpt t" "wf_pdpt t'" "\<And>v. walk_pdpt t v = walk_pdpt t' v"
proof (rule canonical_level [of wf_pd t t' pdpt_index 30 walk_pd])
  show "\<exists>v. pdpt_index v = i \<and> (\<forall>t. walk_pd t v = walk_pd t w)" if "i < 512" for i w
    using high_index [OF that, of 30 w] low_index [of 12 30 i w] low_index [of 21 30 i w]
    by (intro exI [of _ "i * 2 ^ 30 + take_bit 30 w"] conjI allI walk_cong) (simp_all add: index_bits)
  show "walk_pd u v \<noteq> Some (raw, 30)" for u v raw
    using walk_bits(2) by fastforce
  show "u = u'" if "wf_pd u" "wf_pd u'" "\<And>v. walk_pd u v = walk_pd u' v" for u u'
    by (rule canonical_pd) (use that in auto)
qed (use that inhabited_pd_walk in \<open>auto simp: wf_pdpt_def walk_pdpt_def\<close>)

lemma inhabited_pdpt_walk: "inhabited wf_pdpt u \<Longrightarrow> \<exists>w. walk_pdpt u w \<noteq> None"
proof -
  assume u: "inhabited wf_pdpt u"
  obtain i where i: "i < 512" "m_entries u ! i \<noteq> NoEntry"
    using u inhabited_entry [of "inhabited wf_pd" u] by (auto simp: wf_pdpt_def)
  have "\<exists>w. pdpt_index w = i \<and> (\<forall>t. walk_pd t w = walk_pd t x)" for x
    using high_index [OF i(1), of 30 x] low_index [of 12 30 i x] low_index [of 21 30 i x]
    by (intro exI [of _ "i * 2 ^ 30 + take_bit 30 x"] conjI allI walk_cong) (simp_all add: index_bits)
  note pick = this
  show ?thesis
  proof (cases "m_entries u ! i")
    case (PageEntry raw)
    obtain w where "pdpt_index w = i"
      using pick by blast
    then have "walk_pdpt u w \<noteq> None"
      using PageEntry by (simp add: walk_pdpt_def walk_level_def)
    then show ?thesis
      by blast
  next
    case (TableEntry t)
    then obtain x where "walk_pd t x \<noteq> None"
      using inhabited_pd_walk [of t] wf_level_table [of "inhabited wf_pd" u i t] u i(1) by (auto simp: wf_pdpt_def)
    moreover obtain w where "pdpt_index w = i" "\<forall>t. walk_pd t w = walk_pd t x"
      using pick by blast
    ultimately have "walk_pdpt u w \<noteq> None"
      using TableEntry by (simp add: walk_pdpt_def walk_level_def)
    then show ?thesis
      by blast
  qed (use i in simp)
qed

lemma walk_mod: "walk l (take_bit 48 v) = walk l v"
  by (rule walk_cong(4)) (simp_all add: index_bits drop_bit_take_bit)

text \<open>Two sets of well-formed tables that map the same addresses to the same pages are equal.\<close>

lemma canonical_pml4:
  assumes wf: "wf_pml4 l" "wf_pml4 l'" and same: "\<And>v. v < 2 ^ 48 \<Longrightarrow> walk l v = walk l' v"
  shows "l = l'"
proof (rule canonical_level [of wf_pdpt l l' pml4_index 39 walk_pdpt])
  have "walk l v = walk l' v" for v
    using same [of "take_bit 48 v"] walk_mod by (metis take_bit_nat_less_exp)
  then show "walk_level pml4_index 39 walk_pdpt l v = walk_level pml4_index 39 walk_pdpt l' v" for v
    by (simp add: walk_def)
  show "\<exists>v. pml4_index v = i \<and> (\<forall>t. walk_pdpt t v = walk_pdpt t w)" if "i < 512" for i w
    using high_index [OF that, of 39 w] low_index [of 12 39 i w] low_index [of 21 39 i w] low_index [of 30 39 i w]
    by (intro exI [of _ "i * 2 ^ 39 + take_bit 39 w"] conjI allI walk_cong) (simp_all add: index_bits)
  show "walk_pdpt u v \<noteq> Some (raw, 39)" for u v raw
    using walk_bits(2) by (fastforce simp: walk_pdpt_def walk_level_def split: level_entry.splits)
  show "u = u'" if "wf_pdpt u" "wf_pdpt u'" "\<And>v. walk_pdpt u v = walk_pdpt u' v" for u u'
    by (rule canonical_pdpt) (use that in auto)
qed (use wf inhabited_pdpt_walk in \<open>auto simp: wf_pml4_def\<close>)

section \<open>Mapping and translation\<close>

lemma entry_phys_raw:
  assumes "phys mod 4096 = 0" and "phys < 2 ^ 52" and flags: "flags AND 0xffffffffff000 = 0"
  shows "entry_phys (entry_raw phys flags) = phys"
proof -
  obtain q where q: "phys = 2 ^ 12 * q"
    using assms(1) by auto
  then have q_less: "q < 2 ^ 40"
    using assms(2) by simp
  have mask: "(0xffffffffff000 :: u64) = push_bit 12 (mask 40)" "(0xfffffffffffff :: u64) = mask 52"
    by (simp_all add: mask_eq_exp_minus_1 push_bit_eq_mult)
  have word: "(of_nat phys :: u64) = push_bit 12 (of_nat q)"
    by (simp add: q push_bit_eq_mult)
  have small: "take_bit 40 (of_nat q :: u64) = of_nat q"
    using q_less by (simp add: take_bit_of_nat take_bit_nat_eq_self)
  have bits: "bit (of_nat q :: u64) n \<Longrightarrow> n < 40" for n
    using small by (metis bit_take_bit_iff)
  have "((of_nat phys AND 0xfffffffffffff) OR (flags OR fl_present)) AND 0xffffffffff000 = (of_nat phys :: u64)"
  proof (rule bit_word_eqI)
    fix n assume n: "n < LENGTH(64)"
    have "bit (flags AND 0xffffffffff000) n = bit (0 :: u64) n"
      using flags by simp
    then have "\<not> (bit flags n \<and> 12 \<le> n \<and> n - 12 < 40)"
      using n by (simp add: mask bit_and_iff bit_push_bit_iff bit_mask_iff)
    then show "bit (((of_nat phys AND 0xfffffffffffff) OR (flags OR fl_present)) AND 0xffffffffff000) n =
        bit (of_nat phys :: u64) n"
      using n bits [of "n - 12"] unfolding mask word fl_present_def
      by (auto simp: bit_and_iff bit_or_iff bit_push_bit_iff bit_mask_iff bit_1_iff)
  qed
  then have "entry_phys (entry_raw phys flags) = unat (of_nat phys :: u64)"
    by (simp only: entry_phys_def entry_raw_def)
  also have "\<dots> = phys"
    using assms(2) by (simp add: unat_of_nat)
  finally show ?thesis .
qed

abbreviation no_address_bits :: "u64 \<Rightarrow> bool" where
  "no_address_bits flags \<equiv> flags AND 0xffffffffff000 = 0"

lemma page_entry_translates:
  assumes "phys mod from_page_size ps = 0" and "phys < 2 ^ 52" and "no_address_bits flags"
  shows "(\<lambda>(raw, k). entry_phys raw + v mod 2 ^ k) (page_entry_of ps phys flags) = phys + v mod from_page_size ps"
proof -
  have "(flags OR fl_large) AND 0xffffffffff000 = (flags AND 0xffffffffff000) OR (fl_large AND 0xffffffffff000)"
    by (rule bit_word_eqI) (auto simp: bit_and_iff bit_or_iff)
  then have large: "no_address_bits (flags OR fl_large)"
    using assms(3) by (simp add: fl_large_def)
  have "phys mod 4096 = 0"
    using assms(1) by (cases ps) (auto simp: KiB_def MiB_def GiB_def mod_eq_0_iff_dvd dvd_def)
  then show ?thesis
    using entry_phys_raw [of phys] assms(2,3) large by (cases ps) (simp_all add: KiB_def MiB_def GiB_def)
qed



end
