(* ===== verification/Splay_Tree.thy ===== *)
theory Splay_Tree
  imports Prelude "HOL-Library.Tree"
begin

text \<open>
  The intrusive splay tree of \<^verbatim>\<open>src/ustd/splay_tree.hh\<close>, at the level of its pointers: a node
  is an address, and its parent and children are read from and written to a store. The lemmas relate
  the store to a binary tree whose inorder traversal is the sequence of nodes, and every operation
  to its effect on that sequence.
\<close>

section \<open>The store\<close>

record tree_node =
  parent :: "nat option"
  left_child :: "nat option"
  right_child :: "nat option"

record splay_tree =
  tree_nodes :: "nat \<Rightarrow> tree_node"
  m_root_node :: "nat option"
  m_minimum_node :: "nat option"

datatype direction = L | R

fun opposite :: "direction \<Rightarrow> direction" where
  "opposite L = R"
| "opposite R = L"

fun child :: "direction \<Rightarrow> tree_node \<Rightarrow> nat option" where
  "child L n = left_child n"
| "child R n = right_child n"

fun set_child :: "direction \<Rightarrow> nat option \<Rightarrow> tree_node \<Rightarrow> tree_node" where
  "set_child L c n = n\<lparr>left_child := c\<rparr>"
| "set_child R c n = n\<lparr>right_child := c\<rparr>"

definition write_node :: "nat \<Rightarrow> (tree_node \<Rightarrow> tree_node) \<Rightarrow> splay_tree \<Rightarrow> splay_tree" where
  "write_node p f s = s\<lparr>tree_nodes := (tree_nodes s)(p := f (tree_nodes s p))\<rparr>"

section \<open>Operations\<close>

definition rotate :: "direction \<Rightarrow> nat \<Rightarrow> splay_tree \<Rightarrow> splay_tree option" where
  "rotate d node s = do {
     let par = parent (tree_nodes s node);
     pivot \<leftarrow> child (opposite d) (tree_nodes s node);
     let pivot_child = child d (tree_nodes s pivot);
     let s = write_node node (set_child (opposite d) pivot_child) s;
     let s = (case pivot_child of None \<Rightarrow> s | Some c \<Rightarrow> write_node c (\<lambda>n. n\<lparr>parent := Some node\<rparr>) s);
     let s = write_node pivot (\<lambda>n. n\<lparr>parent := par\<rparr>) s;
     let s = (case par of
                None \<Rightarrow> s\<lparr>m_root_node := Some pivot\<rparr>
              | Some p \<Rightarrow>
                  if left_child (tree_nodes s p) = Some node
                  then write_node p (\<lambda>n. n\<lparr>left_child := Some pivot\<rparr>) s
                  else write_node p (\<lambda>n. n\<lparr>right_child := Some pivot\<rparr>) s);
     let s = write_node pivot (set_child d (Some node)) s;
     Some (write_node node (\<lambda>n. n\<lparr>parent := Some pivot\<rparr>) s)
   }"

text \<open>
  \<open>parent\<close> is a reference to the field of the node, so the second rotation of a step reads the
  parent that the first one has left.
\<close>

definition rotate_parent :: "direction \<Rightarrow> nat \<Rightarrow> splay_tree \<Rightarrow> splay_tree option" where
  "rotate_parent d node s = do { p \<leftarrow> parent (tree_nodes s node); rotate d p s }"

definition splay_step :: "nat \<Rightarrow> nat \<Rightarrow> splay_tree \<Rightarrow> splay_tree option" where
  "splay_step node p s =
     (case parent (tree_nodes s p) of
        None \<Rightarrow> if left_child (tree_nodes s p) = Some node then rotate R p s else rotate L p s
      | Some g \<Rightarrow>
          let nl = (left_child (tree_nodes s p) = Some node); nr = (right_child (tree_nodes s p) = Some node);
              pl = (left_child (tree_nodes s g) = Some p); pr = (right_child (tree_nodes s g) = Some p)
          in if nl \<and> pl then do { s' \<leftarrow> rotate R g s; rotate_parent R node s' }
             else if nr \<and> pr then do { s' \<leftarrow> rotate L g s; rotate_parent L node s' }
             else if nl \<and> pr then do { s' \<leftarrow> rotate R p s; rotate_parent L node s' }
             else do { s' \<leftarrow> rotate L p s; rotate_parent R node s' })"

partial_function (option) splay :: "nat \<Rightarrow> splay_tree \<Rightarrow> splay_tree option" where
  "splay node s =
     (case parent (tree_nodes s node) of
        None \<Rightarrow> do { ensure (m_root_node s = Some node); Some s }
      | Some p \<Rightarrow> do { s' \<leftarrow> splay_step node p s; splay node s' })"

partial_function (option) leftmost :: "nat \<Rightarrow> splay_tree \<Rightarrow> nat option" where
  "leftmost node s =
     (case left_child (tree_nodes s node) of None \<Rightarrow> Some node | Some l \<Rightarrow> leftmost l s)"

partial_function (option) ascend :: "nat \<Rightarrow> nat option \<Rightarrow> splay_tree \<Rightarrow> nat option option" where
  "ascend node temp s =
     (case temp of
        None \<Rightarrow> Some None
      | Some t \<Rightarrow>
          if right_child (tree_nodes s t) = Some node then ascend t (parent (tree_nodes s t)) s
          else Some temp)"

definition successor :: "nat \<Rightarrow> splay_tree \<Rightarrow> nat option option" where
  "successor node s =
     (case right_child (tree_nodes s node) of
        Some r \<Rightarrow> map_option Some (leftmost r s)
      | None \<Rightarrow> ascend node (parent (tree_nodes s node)) s)"

partial_function (option) find_from :: "(nat \<Rightarrow> nat) \<Rightarrow> nat \<Rightarrow> nat option \<Rightarrow> splay_tree \<Rightarrow> nat option option" where
  "find_from get_key key node s =
     (case node of
        None \<Rightarrow> Some None
      | Some n \<Rightarrow>
          if get_key n \<noteq> key
          then (if key < get_key n then find_from get_key key (left_child (tree_nodes s n)) s
                else find_from get_key key (right_child (tree_nodes s n)) s)
          else Some node)"

definition find_no_splay :: "(nat \<Rightarrow> nat) \<Rightarrow> nat \<Rightarrow> splay_tree \<Rightarrow> nat option option" where
  "find_no_splay get_key key s = find_from get_key key (m_root_node s) s"

definition splay_find :: "(nat \<Rightarrow> nat) \<Rightarrow> nat \<Rightarrow> splay_tree \<Rightarrow> (nat option \<times> splay_tree) option" where
  "splay_find get_key key s = do {
     node \<leftarrow> find_no_splay get_key key s;
     case node of None \<Rightarrow> Some (None, s) | Some n \<Rightarrow> do { s' \<leftarrow> splay n s; Some (node, s') }
   }"

text \<open>The search of \<open>insert\<close> for the node below which the new one is attached.\<close>

partial_function (option) insert_point ::
  "(nat \<Rightarrow> nat) \<Rightarrow> nat \<Rightarrow> nat option \<Rightarrow> nat option \<Rightarrow> splay_tree \<Rightarrow> nat option option" where
  "insert_point get_key key temp par s =
     (case temp of
        None \<Rightarrow> Some par
      | Some t \<Rightarrow>
          let temp' = (if key < get_key t then left_child (tree_nodes s t) else right_child (tree_nodes s t))
          in insert_point get_key key temp' (if temp' = None then par else temp') s)"

definition splay_insert :: "(nat \<Rightarrow> nat) \<Rightarrow> nat \<Rightarrow> splay_tree \<Rightarrow> splay_tree option" where
  "splay_insert get_key node s = do {
     par \<leftarrow> insert_point get_key (get_key node) (m_root_node s) (m_root_node s) s;
     case par of
       None \<Rightarrow> Some (s\<lparr>m_root_node := Some node, m_minimum_node := Some node\<rparr>)
     | Some p \<Rightarrow> do {
         let s = write_node node (\<lambda>n. n\<lparr>parent := Some p\<rparr>) s;
         s \<leftarrow> (if get_key node < get_key p
               then do { ensure (left_child (tree_nodes s p) = None);
                         Some (write_node p (\<lambda>n. n\<lparr>left_child := Some node\<rparr>) s) }
               else do { ensure (right_child (tree_nodes s p) = None);
                         Some (write_node p (\<lambda>n. n\<lparr>right_child := Some node\<rparr>) s) });
         s \<leftarrow> splay node s;
         m \<leftarrow> m_minimum_node s;
         Some (if left_child (tree_nodes s m) = Some node then s\<lparr>m_minimum_node := Some node\<rparr> else s)
       }
   }"

partial_function (option) rightmost :: "nat \<Rightarrow> splay_tree \<Rightarrow> nat option" where
  "rightmost node s =
     (case right_child (tree_nodes s node) of None \<Rightarrow> Some node | Some r \<Rightarrow> rightmost r s)"

text \<open>
  What is left after the minimum has been dealt with: the right subtree is hung below the largest
  node of the left one.
\<close>

definition unlink_root :: "nat \<Rightarrow> splay_tree \<Rightarrow> splay_tree option" where
  "unlink_root node s = do {
     s \<leftarrow> (case left_child (tree_nodes s node) of
            Some l \<Rightarrow>
              (case right_child (tree_nodes s node) of
                 None \<Rightarrow> Some (s\<lparr>m_root_node := Some l\<rparr>)
               | Some r \<Rightarrow> do {
                   m \<leftarrow> rightmost l s;
                   let s = write_node m (\<lambda>n. n\<lparr>right_child := Some r\<rparr>) (s\<lparr>m_root_node := Some l\<rparr>);
                   Some (write_node r (\<lambda>n. n\<lparr>parent := Some m\<rparr>) s)
                 })
          | None \<Rightarrow> Some (s\<lparr>m_root_node := right_child (tree_nodes s node)\<rparr>));
     case m_root_node s of
       Some p \<Rightarrow> Some (write_node p (\<lambda>n. n\<lparr>parent := None\<rparr>) s)
     | None \<Rightarrow> do { ensure (m_minimum_node s = None); Some s }
   }"

definition splay_remove :: "nat \<Rightarrow> splay_tree \<Rightarrow> splay_tree option" where
  "splay_remove node s = do {
     s \<leftarrow> splay node s;
     s \<leftarrow> (if m_minimum_node s = Some node
           then do { ensure (left_child (tree_nodes s node) = None);
                     m \<leftarrow> successor node s;
                     Some (s\<lparr>m_minimum_node := m\<rparr>) }
           else Some s);
     unlink_root node s
   }"

text \<open>
  The loop over the nodes in order that the users of the tree write: the body carries a state along
  and may leave the loop with a result.
\<close>

partial_function (option) for_nodes ::
  "(nat \<Rightarrow> 's \<Rightarrow> nat option option) \<Rightarrow> (nat \<Rightarrow> 'a \<Rightarrow> 'r + 'a) \<Rightarrow> nat option \<Rightarrow> 'a \<Rightarrow> 's \<Rightarrow> ('r + 'a) option" where
  "for_nodes succ body node acc s =
     (case node of
        None \<Rightarrow> Some (Inr acc)
      | Some n \<Rightarrow>
          (case body n acc of
             Inl res \<Rightarrow> Some (Inl res)
           | Inr acc' \<Rightarrow> do { next \<leftarrow> succ n s; for_nodes succ body next acc' s }))"

section \<open>The tree in the store\<close>

fun tree_at :: "(nat \<Rightarrow> tree_node) \<Rightarrow> nat option \<Rightarrow> nat option \<Rightarrow> nat tree \<Rightarrow> bool" where
  "tree_at h par ptr Leaf \<longleftrightarrow> ptr = None"
| "tree_at h par ptr (Node l p r) \<longleftrightarrow>
     ptr = Some p \<and> parent (h p) = par \<and>
     tree_at h (Some p) (left_child (h p)) l \<and> tree_at h (Some p) (right_child (h p)) r"

definition represents :: "splay_tree \<Rightarrow> nat tree \<Rightarrow> bool" where
  "represents s t \<longleftrightarrow> tree_at (tree_nodes s) None (m_root_node s) t \<and> distinct (inorder t)"

text \<open>The way from a node up to the root.\<close>

datatype crumb = LeftOf nat "nat tree" | RightOf "nat tree" nat

fun plug :: "crumb list \<Rightarrow> nat tree \<Rightarrow> nat tree" where
  "plug [] t = t"
| "plug (LeftOf p r # cs) t = plug cs (Node t p r)"
| "plug (RightOf l p # cs) t = plug cs (Node l p t)"

fun before :: "crumb list \<Rightarrow> nat list" where
  "before [] = []"
| "before (LeftOf p r # cs) = before cs"
| "before (RightOf l p # cs) = before cs @ inorder l @ [p]"

fun after :: "crumb list \<Rightarrow> nat list" where
  "after [] = []"
| "after (LeftOf p r # cs) = p # inorder r @ after cs"
| "after (RightOf l p # cs) = after cs"

lemma inorder_plug [simp]: "inorder (plug cs t) = before cs @ inorder t @ after cs"
  by (induction cs t rule: plug.induct) simp_all

lemma set_tree_split: "x \<in> set_tree t \<Longrightarrow> \<exists>cs' a b. plug cs t = plug cs' (Node a x b)"
proof (induction t arbitrary: cs)
  case (Node l p r)
  then show ?case
    using Node.IH(1) [of "LeftOf p r # cs"] Node.IH(2) [of "RightOf l p # cs"] by auto
qed simp

lemma obtain_plug:
  assumes "x \<in> set_tree t"
  obtains cs a b where "t = plug cs (Node a x b)"
  using set_tree_split [OF assms, of "[]"] by auto

fun ctx_at :: "(nat \<Rightarrow> tree_node) \<Rightarrow> nat option \<Rightarrow> crumb list \<Rightarrow> nat option \<Rightarrow> nat option \<Rightarrow> bool" where
  "ctx_at h root [] ptr par \<longleftrightarrow> root = ptr \<and> par = None"
| "ctx_at h root (LeftOf p r # cs) ptr par \<longleftrightarrow>
     par = Some p \<and> left_child (h p) = ptr \<and> tree_at h (Some p) (right_child (h p)) r \<and>
     ctx_at h root cs (Some p) (parent (h p))"
| "ctx_at h root (RightOf l p # cs) ptr par \<longleftrightarrow>
     par = Some p \<and> right_child (h p) = ptr \<and> tree_at h (Some p) (left_child (h p)) l \<and>
     ctx_at h root cs (Some p) (parent (h p))"

lemma tree_at_plug:
  "tree_at h None root (plug cs t) \<longleftrightarrow> (\<exists>ptr par. tree_at h par ptr t \<and> ctx_at h root cs ptr par)"
  by (induction cs t rule: plug.induct) auto

text \<open>Writes elsewhere do not matter.\<close>

lemma tree_at_cong:
  "(\<And>q. q \<in> set_tree t \<Longrightarrow> h' q = h q) \<Longrightarrow> tree_at h' par ptr t = tree_at h par ptr t"
  by (induction t arbitrary: par ptr) auto

lemma tree_at_elsewhere [simp]:
  "p \<notin> set_tree t \<Longrightarrow> tree_at (h(p := n)) par ptr t = tree_at h par ptr t"
  by (rule tree_at_cong) auto

lemma ctx_at_cong:
  "(\<And>q. q \<in> set (before cs) \<or> q \<in> set (after cs) \<Longrightarrow> h' q = h q) \<Longrightarrow>
     ctx_at h' root cs ptr par = ctx_at h root cs ptr par"
proof (induction cs arbitrary: ptr par)
  case (Cons c cs)
  have ih: "ctx_at h' root cs ptr par = ctx_at h root cs ptr par" for ptr par
    by (rule Cons.IH) (use Cons.prems in \<open>cases c; auto\<close>)
  show ?case
  proof (cases c)
    case (LeftOf p r)
    then show ?thesis
      using ih tree_at_cong [of r h' h] Cons.prems by simp
  next
    case (RightOf l p)
    then show ?thesis
      using ih tree_at_cong [of l h' h] Cons.prems by simp
  qed
qed simp

lemma ctx_at_elsewhere [simp]:
  "p \<notin> set (before cs) \<Longrightarrow> p \<notin> set (after cs) \<Longrightarrow>
     ctx_at (h(p := n)) root cs ptr par = ctx_at h root cs ptr par"
  by (rule ctx_at_cong) auto

text \<open>Turning the root of a subtree to a new parent.\<close>

definition set_parent :: "nat option \<Rightarrow> nat option \<Rightarrow> (nat \<Rightarrow> tree_node) \<Rightarrow> nat \<Rightarrow> tree_node" where
  "set_parent ptr par h = (case ptr of None \<Rightarrow> h | Some c \<Rightarrow> h(c := (h c)\<lparr>parent := par\<rparr>))"

lemma tree_at_set_parent:
  assumes "tree_at h par ptr t" and "distinct (inorder t)"
  shows "tree_at (set_parent ptr par' h) par' ptr t"
  using assms by (cases t) (auto simp: set_parent_def)

lemma tree_at_ptr: "tree_at h par (Some p) t \<Longrightarrow> p \<in> set_tree t"
  by (cases t) simp_all

lemma tree_at_set_parent_elsewhere:
  assumes "tree_at h par ptr u" and "set_tree u \<inter> set_tree t = {}"
  shows "tree_at (set_parent ptr par' h) q r t = tree_at h q r t"
  using assms by (cases u) (auto simp: set_parent_def)

lemma ctx_at_set_parent_elsewhere:
  assumes "tree_at h par ptr u" and "set_tree u \<inter> (set (before cs) \<union> set (after cs)) = {}"
  shows "ctx_at (set_parent ptr par' h) root cs q r = ctx_at h root cs q r"
  using assms by (cases u) (auto simp: set_parent_def)

lemma set_parent_elsewhere:
  assumes "tree_at h par ptr u" and "x \<notin> set_tree u"
  shows "set_parent ptr par' h x = h x"
  using assms by (cases u) (auto simp: set_parent_def)

text \<open>Redirecting the link from above to another node.\<close>

definition redirect :: "nat option \<Rightarrow> nat \<Rightarrow> nat \<Rightarrow> (nat \<Rightarrow> tree_node) \<Rightarrow> nat \<Rightarrow> tree_node" where
  "redirect par p x h =
     (case par of
        None \<Rightarrow> h
      | Some g \<Rightarrow> if left_child (h g) = Some p then h(g := (h g)\<lparr>left_child := Some x\<rparr>)
                  else h(g := (h g)\<lparr>right_child := Some x\<rparr>))"

lemma ctx_at_redirect:
  assumes "ctx_at h root cs (Some p) par" and "p \<notin> set (before cs) \<union> set (after cs)"
    and "distinct (before cs @ after cs)"
  shows "ctx_at (redirect par p x h) (if par = None then Some x else root) cs (Some x) par"
proof (cases cs)
  case (Cons c cs')
  show ?thesis
  proof (cases c)
    case (LeftOf g r)
    then show ?thesis
      using assms Cons by (auto simp: redirect_def)
  next
    case (RightOf l g)
    then show ?thesis
      using assms Cons tree_at_ptr [of h "Some g" p l]
      by (auto simp: redirect_def)
  qed
qed (use assms in \<open>simp add: redirect_def\<close>)

lemma redirect_elsewhere:
  assumes "ctx_at h root cs (Some p) par" and "q \<notin> set (before cs)" and "q \<notin> set (after cs)"
  shows "redirect par p x h' q = h' q"
  using assms by (cases cs rule: plug.cases [of "(cs, Leaf)" for cs]) (auto simp: redirect_def split: option.splits)

section \<open>Rotations\<close>

text \<open>A node and a crumb seen from one side, so that both directions of a rotation read alike.\<close>

fun node_dir :: "direction \<Rightarrow> nat tree \<Rightarrow> nat \<Rightarrow> nat tree \<Rightarrow> nat tree" where
  "node_dir R a x b = Node a x b"
| "node_dir L a x b = Node b x a"

fun crumb_dir :: "direction \<Rightarrow> nat \<Rightarrow> nat tree \<Rightarrow> crumb" where
  "crumb_dir R p c = LeftOf p c"
| "crumb_dir L p c = RightOf c p"

lemma child_simps [simp]:
  "child d (set_child d c n) = c" "child (opposite d) (set_child d c n) = child (opposite d) n"
  "child d (set_child (opposite d) c n) = child d n" "parent (set_child d c n) = parent n"
  "child d (n\<lparr>parent := q\<rparr>) = child d n"
  by (cases d; simp)+

lemma opposite_opposite [simp]: "opposite (opposite d) = d"
  by (cases d) simp_all

lemma tree_at_node_dir:
  "tree_at h par ptr (node_dir d a x b) \<longleftrightarrow>
     ptr = Some x \<and> parent (h x) = par \<and>
     tree_at h (Some x) (child (opposite d) (h x)) a \<and> tree_at h (Some x) (child d (h x)) b"
  by (cases d) auto

lemma ctx_at_crumb_dir:
  "ctx_at h root (crumb_dir d p c # cs) ptr par \<longleftrightarrow>
     par = Some p \<and> child (opposite d) (h p) = ptr \<and> tree_at h (Some p) (child d (h p)) c \<and>
     ctx_at h root cs (Some p) (parent (h p))"
  by (cases d) auto

lemma distinct_plug_dir:
  "distinct (inorder (plug (crumb_dir d p c # cs) (node_dir d a x b))) \<longleftrightarrow>
     distinct (x # p # inorder a @ inorder b @ inorder c @ before cs @ after cs)"
  by (cases d) auto

lemma inorder_rotated:
  "inorder (plug cs (node_dir d a x (node_dir d b p c))) = inorder (plug (crumb_dir d p c # cs) (node_dir d a x b))"
  by (cases d) simp_all

text \<open>The writes of a rotation, in order.\<close>

definition rotated :: "direction \<Rightarrow> nat \<Rightarrow> nat \<Rightarrow> (nat \<Rightarrow> tree_node) \<Rightarrow> nat \<Rightarrow> tree_node" where
  "rotated d p x h =
     (let h1 = h(p := set_child (opposite d) (child d (h x)) (h p));
          h2 = set_parent (child d (h x)) (Some p) h1;
          h3 = h2(x := (h2 x)\<lparr>parent := parent (h p)\<rparr>);
          h4 = redirect (parent (h p)) p x h3;
          h5 = h4(x := set_child d (Some p) (h4 x))
      in h5(p := (h5 p)\<lparr>parent := Some x\<rparr>))"

lemma rotate_rotated:
  assumes "child (opposite d) (tree_nodes s p) = Some x"
  shows "rotate d p s =
    Some (s\<lparr>tree_nodes := rotated d p x (tree_nodes s),
            m_root_node := (if parent (tree_nodes s p) = None then Some x else m_root_node s)\<rparr>)"
  using assms
  by (cases "parent (tree_nodes s p)"; cases "child d (tree_nodes s x)")
    (simp_all add: rotate_def rotated_def write_node_def set_parent_def redirect_def Let_def)

lemma rotated_tree:
  assumes x: "child (opposite d) (h p) = Some x"
    and a: "tree_at h (Some x) (child (opposite d) (h x)) a" and b: "tree_at h (Some x) (child d (h x)) b"
    and c: "tree_at h (Some p) (child d (h p)) c" and ctx: "ctx_at h root cs (Some p) (parent (h p))"
    and dist: "distinct (x # p # inorder a @ inorder b @ inorder c @ before cs @ after cs)"
  shows "tree_at (rotated d p x h) (parent (h p)) (Some x) (node_dir d a x (node_dir d b p c))"
    and "ctx_at (rotated d p x h) (if parent (h p) = None then Some x else root) cs (Some x) (parent (h p))"
    and "q \<notin> set_tree a \<union> set_tree b \<union> set_tree c \<union> {x, p} \<union> set (before cs) \<union> set (after cs) \<Longrightarrow>
      rotated d p x h q = h q"
proof -
  define h1 where "h1 = h(p := set_child (opposite d) (child d (h x)) (h p))"
  define h2 where "h2 = set_parent (child d (h x)) (Some p) h1"
  define h3 where "h3 = h2(x := (h2 x)\<lparr>parent := parent (h p)\<rparr>)"
  define h4 where "h4 = redirect (parent (h p)) p x h3"
  define h5 where "h5 = h4(x := set_child d (Some p) (h4 x))"
  have h6: "rotated d p x h = h5(p := (h5 p)\<lparr>parent := Some x\<rparr>)"
    by (simp add: rotated_def h1_def h2_def h3_def h4_def h5_def Let_def)
  have b1: "tree_at h1 (Some x) (child d (h x)) b"
    using b dist by (simp add: h1_def)
  have h2: "h2 q = h1 q" if "q \<notin> set_tree b" for q
    unfolding h2_def by (rule set_parent_elsewhere [OF b1 that])
  have redir: "h4 q = h3 q" if "q \<notin> set (before cs)" "q \<notin> set (after cs)" for q
    unfolding h4_def using redirect_elsewhere [OF ctx that] .
  have apart: "h4 x = h3 x" "h4 p = h3 p" "h2 x = h x" "h2 p = h1 p" "x \<noteq> p"
    using dist by (simp_all add: redir h2) (simp add: h1_def)
  have same: "rotated d p x h q = h q"
    if "q \<noteq> x" "q \<noteq> p" "q \<notin> set_tree b" "q \<notin> set (before cs)" "q \<notin> set (after cs)" for q
    using that by (simp add: h6 h5_def redir h3_def h2 h1_def)
  have keep: "tree_at (rotated d p x h) r ptr t = tree_at h r ptr t"
    if "set_tree t \<inter> ({x, p} \<union> set_tree b \<union> set (before cs) \<union> set (after cs)) = {}" for r ptr t
    by (rule tree_at_cong, rule same) (use that in blast)+
  have "set_tree a \<inter> ({x, p} \<union> set_tree b \<union> set (before cs) \<union> set (after cs)) = {}"
    "set_tree c \<inter> ({x, p} \<union> set_tree b \<union> set (before cs) \<union> set (after cs)) = {}"
    using dist by auto
  note ac = this [THEN keep]
  have "rotated d p x h q = h2 q" if "q \<in> set_tree b" for q
  proof -
    have "q \<noteq> x" "q \<noteq> p" "q \<notin> set (before cs)" "q \<notin> set (after cs)"
      using that dist by auto
    then show ?thesis
      by (simp add: h6 h5_def redir h3_def)
  qed
  then have "tree_at (rotated d p x h) (Some p) (child d (h x)) b = tree_at h2 (Some p) (child d (h x)) b"
    by (rule tree_at_cong)
  moreover have "tree_at h2 (Some p) (child d (h x)) b"
    unfolding h2_def using tree_at_set_parent [OF b1, of "Some p"] dist by simp
  moreover have "rotated d p x h x = set_child d (Some p) ((h x)\<lparr>parent := parent (h p)\<rparr>)"
    using apart by (simp add: h6 h5_def h3_def)
  moreover have "rotated d p x h p = (set_child (opposite d) (child d (h x)) (h p))\<lparr>parent := Some x\<rparr>"
    using apart by (simp add: h6 h5_def h3_def h1_def)
  ultimately show "tree_at (rotated d p x h) (parent (h p)) (Some x) (node_dir d a x (node_dir d b p c))"
    using a c by (simp add: tree_at_node_dir ac)
  have "h3 q = h q" if "q \<in> set (before cs) \<or> q \<in> set (after cs)" for q
  proof -
    have "q \<noteq> x" "q \<noteq> p" "q \<notin> set_tree b"
      using that dist by auto
    then show ?thesis
      by (simp add: h3_def h2 h1_def)
  qed
  then have "ctx_at h3 root cs (Some p) (parent (h p))"
    using ctx ctx_at_cong by metis
  then have "ctx_at h4 (if parent (h p) = None then Some x else root) cs (Some x) (parent (h p))"
    unfolding h4_def by (rule ctx_at_redirect) (use dist in auto)
  then show "ctx_at (rotated d p x h) (if parent (h p) = None then Some x else root) cs (Some x) (parent (h p))"
    by (rule ctx_at_cong [THEN iffD2, rotated]) (use dist in \<open>auto simp: h6 h5_def\<close>)
  show "rotated d p x h q = h q"
    if "q \<notin> set_tree a \<union> set_tree b \<union> set_tree c \<union> {x, p} \<union> set (before cs) \<union> set (after cs)"
    using that by (intro same) auto
qed

text \<open>
  The store \<open>s'\<close> holds the tree \<open>t'\<close>, with the nodes of \<open>t\<close> in the same order, and differs from
  \<open>s\<close> in nothing else.
\<close>

definition reshaped :: "splay_tree \<Rightarrow> nat tree \<Rightarrow> splay_tree \<Rightarrow> nat tree \<Rightarrow> bool" where
  "reshaped s t s' t' \<longleftrightarrow>
     represents s' t' \<and> inorder t' = inorder t \<and> m_minimum_node s' = m_minimum_node s \<and>
     (\<forall>q. q \<notin> set (inorder t) \<longrightarrow> tree_nodes s' q = tree_nodes s q)"

lemma reshaped_trans: "reshaped s t s' t' \<Longrightarrow> reshaped s' t' s'' t'' \<Longrightarrow> reshaped s t s'' t''"
  by (simp add: reshaped_def)

lemma rotate_reshapes:
  assumes "represents s (plug (crumb_dir d p c # cs) (node_dir d a x b))"
  shows "\<exists>s'. rotate d p s = Some s' \<and>
    reshaped s (plug (crumb_dir d p c # cs) (node_dir d a x b)) s' (plug cs (node_dir d a x (node_dir d b p c)))"
proof -
  let ?h = "tree_nodes s"
  let ?root = "if parent (?h p) = None then Some x else m_root_node s"
  have dist: "distinct (x # p # inorder a @ inorder b @ inorder c @ before cs @ after cs)"
    using assms distinct_plug_dir unfolding represents_def by blast
  have pre: "child (opposite d) (?h p) = Some x"
      "tree_at ?h (Some x) (child (opposite d) (?h x)) a" "tree_at ?h (Some x) (child d (?h x)) b"
      "tree_at ?h (Some p) (child d (?h p)) c" "ctx_at ?h (m_root_node s) cs (Some p) (parent (?h p))"
    using assms unfolding represents_def tree_at_plug by (auto simp: tree_at_node_dir ctx_at_crumb_dir)
  note post = rotated_tree [OF pre dist]
  let ?s' = "s\<lparr>tree_nodes := rotated d p x ?h, m_root_node := ?root\<rparr>"
  have "represents ?s' (plug cs (node_dir d a x (node_dir d b p c)))"
    unfolding represents_def inorder_rotated tree_at_plug
    using post(1,2) assms by (auto simp: represents_def)
  moreover have "tree_nodes ?s' q = ?h q"
    if "q \<notin> set (inorder (plug (crumb_dir d p c # cs) (node_dir d a x b)))" for q
    using that post(3) [of q] by (cases d) auto
  ultimately show ?thesis
    using rotate_rotated [OF pre(1)] unfolding reshaped_def inorder_rotated by simp
qed

lemma rotate_R_reshapes:
  "represents s (plug (LeftOf p c # cs) (Node a x b)) \<Longrightarrow> \<exists>s'. rotate R p s = Some s' \<and>
     reshaped s (plug (LeftOf p c # cs) (Node a x b)) s' (plug cs (Node a x (Node b p c)))"
  using rotate_reshapes [of s R p c cs a x b] by simp

lemma rotate_L_reshapes:
  "represents s (plug (RightOf c p # cs) (Node a x b)) \<Longrightarrow> \<exists>s'. rotate L p s = Some s' \<and>
     reshaped s (plug (RightOf c p # cs) (Node a x b)) s' (plug cs (Node (Node c p a) x b))"
  using rotate_reshapes [of s L p c cs b x a] by simp

text \<open>The links of a node below the root.\<close>

lemma links_LeftOf:
  assumes "represents s (plug (LeftOf p c # cs) (Node a x b))"
  shows "parent (tree_nodes s x) = Some p" and "left_child (tree_nodes s p) = Some x"
    and "right_child (tree_nodes s p) \<noteq> Some x"
proof -
  show 1: "parent (tree_nodes s x) = Some p" "left_child (tree_nodes s p) = Some x"
    using assms unfolding represents_def tree_at_plug by auto
  have "tree_at (tree_nodes s) (Some p) (right_child (tree_nodes s p)) c" "x \<notin> set_tree c"
    using assms unfolding represents_def tree_at_plug by auto
  then show "right_child (tree_nodes s p) \<noteq> Some x"
    using tree_at_ptr by metis
qed

lemma links_RightOf:
  assumes "represents s (plug (RightOf c p # cs) (Node a x b))"
  shows "parent (tree_nodes s x) = Some p" and "right_child (tree_nodes s p) = Some x"
    and "left_child (tree_nodes s p) \<noteq> Some x"
proof -
  show 1: "parent (tree_nodes s x) = Some p" "right_child (tree_nodes s p) = Some x"
    using assms unfolding represents_def tree_at_plug by auto
  have "tree_at (tree_nodes s) (Some p) (left_child (tree_nodes s p)) c" "x \<notin> set_tree c"
    using assms unfolding represents_def tree_at_plug by auto
  then show "left_child (tree_nodes s p) \<noteq> Some x"
    using tree_at_ptr by metis
qed

lemma links_root:
  assumes "represents s (Node a x b)"
  shows "parent (tree_nodes s x) = None" and "m_root_node s = Some x"
  using assms unfolding represents_def by auto

section \<open>Splaying\<close>

lemma zig_zig:
  assumes rep: "represents s (plug (LeftOf p r # LeftOf g u # cs) (Node a x b))"
  shows "\<exists>s'. splay_step x p s = Some s' \<and>
    reshaped s (plug (LeftOf p r # LeftOf g u # cs) (Node a x b)) s' (plug cs (Node a x (Node b p (Node r g u))))"
proof -
  let ?t = "plug (LeftOf p r # LeftOf g u # cs) (Node a x b)"
  have rep': "represents s (plug (LeftOf g u # cs) (Node (Node a x b) p r))"
    using rep by simp
  obtain s1 where s1: "rotate R g s = Some s1" "reshaped s ?t s1 (plug (LeftOf p (Node r g u) # cs) (Node a x b))"
    using rotate_R_reshapes [of s g u cs "Node a x b" p r] rep' by auto
  have rep1: "represents s1 (plug (LeftOf p (Node r g u) # cs) (Node a x b))"
    using s1(2) by (simp only: reshaped_def)
  obtain s2 where s2: "rotate R p s1 = Some s2"
      "reshaped s1 (plug (LeftOf p (Node r g u) # cs) (Node a x b)) s2 (plug cs (Node a x (Node b p (Node r g u))))"
    using rotate_R_reshapes [of s1 p "Node r g u" cs a x b] rep1 by auto
  have "splay_step x p s = Some s2"
    using links_LeftOf [OF rep] links_LeftOf [OF rep'] s1(1) s2(1) links_LeftOf(1) [OF rep1]
    by (simp add: splay_step_def rotate_parent_def Let_def)
  then show ?thesis
    using reshaped_trans [OF s1(2) s2(2)] by blast
qed

lemma zig_zig_right:
  assumes rep: "represents s (plug (RightOf r p # RightOf u g # cs) (Node a x b))"
  shows "\<exists>s'. splay_step x p s = Some s' \<and>
    reshaped s (plug (RightOf r p # RightOf u g # cs) (Node a x b)) s' (plug cs (Node (Node (Node u g r) p a) x b))"
proof -
  let ?t = "plug (RightOf r p # RightOf u g # cs) (Node a x b)"
  have rep': "represents s (plug (RightOf u g # cs) (Node r p (Node a x b)))"
    using rep by simp
  obtain s1 where s1: "rotate L g s = Some s1" "reshaped s ?t s1 (plug (RightOf (Node u g r) p # cs) (Node a x b))"
    using rotate_L_reshapes [of s u g cs r p "Node a x b"] rep' by auto
  have rep1: "represents s1 (plug (RightOf (Node u g r) p # cs) (Node a x b))"
    using s1(2) by (simp only: reshaped_def)
  obtain s2 where s2: "rotate L p s1 = Some s2"
      "reshaped s1 (plug (RightOf (Node u g r) p # cs) (Node a x b)) s2 (plug cs (Node (Node (Node u g r) p a) x b))"
    using rotate_L_reshapes [of s1 "Node u g r" p cs a x b] rep1 by auto
  have "splay_step x p s = Some s2"
    using links_RightOf [OF rep] links_RightOf [OF rep'] s1(1) s2(1) links_RightOf(1) [OF rep1]
    by (simp add: splay_step_def rotate_parent_def Let_def)
  then show ?thesis
    using reshaped_trans [OF s1(2) s2(2)] by blast
qed

lemma zig_zag:
  assumes rep: "represents s (plug (LeftOf p r # RightOf u g # cs) (Node a x b))"
  shows "\<exists>s'. splay_step x p s = Some s' \<and>
    reshaped s (plug (LeftOf p r # RightOf u g # cs) (Node a x b)) s' (plug cs (Node (Node u g a) x (Node b p r)))"
proof -
  let ?t = "plug (LeftOf p r # RightOf u g # cs) (Node a x b)"
  have rep': "represents s (plug (RightOf u g # cs) (Node (Node a x b) p r))"
    using rep by simp
  obtain s1 where s1: "rotate R p s = Some s1" "reshaped s ?t s1 (plug (RightOf u g # cs) (Node a x (Node b p r)))"
    using rotate_R_reshapes [of s p r "RightOf u g # cs" a x b] rep by auto
  have rep1: "represents s1 (plug (RightOf u g # cs) (Node a x (Node b p r)))"
    using s1(2) by (simp only: reshaped_def)
  obtain s2 where s2: "rotate L g s1 = Some s2"
      "reshaped s1 (plug (RightOf u g # cs) (Node a x (Node b p r))) s2 (plug cs (Node (Node u g a) x (Node b p r)))"
    using rotate_L_reshapes [of s1 u g cs a x "Node b p r"] rep1 by auto
  have "splay_step x p s = Some s2"
    using links_LeftOf [OF rep] links_RightOf [OF rep'] s1(1) s2(1) links_RightOf(1) [OF rep1]
    by (simp add: splay_step_def rotate_parent_def Let_def)
  then show ?thesis
    using reshaped_trans [OF s1(2) s2(2)] by blast
qed

lemma zag_zig:
  assumes rep: "represents s (plug (RightOf r p # LeftOf g u # cs) (Node a x b))"
  shows "\<exists>s'. splay_step x p s = Some s' \<and>
    reshaped s (plug (RightOf r p # LeftOf g u # cs) (Node a x b)) s' (plug cs (Node (Node r p a) x (Node b g u)))"
proof -
  let ?t = "plug (RightOf r p # LeftOf g u # cs) (Node a x b)"
  have rep': "represents s (plug (LeftOf g u # cs) (Node r p (Node a x b)))"
    using rep by simp
  obtain s1 where s1: "rotate L p s = Some s1" "reshaped s ?t s1 (plug (LeftOf g u # cs) (Node (Node r p a) x b))"
    using rotate_L_reshapes [of s r p "LeftOf g u # cs" a x b] rep by auto
  have rep1: "represents s1 (plug (LeftOf g u # cs) (Node (Node r p a) x b))"
    using s1(2) by (simp only: reshaped_def)
  obtain s2 where s2: "rotate R g s1 = Some s2"
      "reshaped s1 (plug (LeftOf g u # cs) (Node (Node r p a) x b)) s2 (plug cs (Node (Node r p a) x (Node b g u)))"
    using rotate_R_reshapes [of s1 g u cs "Node r p a" x b] rep1 by auto
  have "splay_step x p s = Some s2"
    using links_RightOf [OF rep] links_LeftOf [OF rep'] s1(1) s2(1) links_LeftOf(1) [OF rep1]
    by (simp add: splay_step_def rotate_parent_def Let_def)
  then show ?thesis
    using reshaped_trans [OF s1(2) s2(2)] by blast
qed

lemma splay_step_climbs:
  assumes "represents s (plug (c # cs) (Node a x b))"
  shows "\<exists>p s' cs' a' b'. parent (tree_nodes s x) = Some p \<and> splay_step x p s = Some s' \<and>
    reshaped s (plug (c # cs) (Node a x b)) s' (plug cs' (Node a' x b')) \<and> length cs' < length (c # cs)"
proof (cases c)
  case (LeftOf p r)
  note rep = assms [unfolded LeftOf]
  note par = links_LeftOf [OF rep]
  show ?thesis
  proof (cases cs)
    case Nil
    then have "parent (tree_nodes s p) = None"
      using rep links_root(1) [of s "Node a x b" p r] by simp
    then have step: "splay_step x p s = rotate R p s"
      using par by (simp add: splay_step_def)
    obtain s' where "rotate R p s = Some s'" "reshaped s (plug (LeftOf p r # cs) (Node a x b)) s' (Node a x (Node b p r))"
      using rotate_R_reshapes [OF rep] Nil by auto
    then show ?thesis
      using step par(1) Nil LeftOf
      by (intro exI [of _ p] exI [of _ s'] exI [of _ "[]"] exI [of _ a] exI [of _ "Node b p r"]) auto
  next
    case (Cons c' cs')
    show ?thesis
    proof (cases c')
      case (LeftOf g u)
      show ?thesis
        using zig_zig [of s p r g u cs' a x b] rep par(1) Cons \<open>c = LeftOf p r\<close> LeftOf
        by (metis length_Cons lessI less_SucI)
    next
      case (RightOf u g)
      show ?thesis
        using zig_zag [of s p r u g cs' a x b] rep par(1) Cons \<open>c = LeftOf p r\<close> RightOf
        by (metis length_Cons lessI less_SucI)
    qed
  qed
next
  case (RightOf r p)
  note rep = assms [unfolded RightOf]
  note par = links_RightOf [OF rep]
  show ?thesis
  proof (cases cs)
    case Nil
    then have "parent (tree_nodes s p) = None"
      using rep links_root(1) [of s r p "Node a x b"] by simp
    then have step: "splay_step x p s = rotate L p s"
      using par by (simp add: splay_step_def)
    obtain s' where "rotate L p s = Some s'" "reshaped s (plug (RightOf r p # cs) (Node a x b)) s' (Node (Node r p a) x b)"
      using rotate_L_reshapes [OF rep] Nil by auto
    then show ?thesis
      using step par(1) Nil RightOf
      by (intro exI [of _ p] exI [of _ s'] exI [of _ "[]"] exI [of _ "Node r p a"] exI [of _ b]) auto
  next
    case (Cons c' cs')
    show ?thesis
    proof (cases c')
      case (LeftOf g u)
      show ?thesis
        using zag_zig [of s r p g u cs' a x b] rep par(1) Cons \<open>c = RightOf r p\<close> LeftOf
        by (metis length_Cons lessI less_SucI)
    next
      case (RightOf u g)
      show ?thesis
        using zig_zig_right [of s r p u g cs' a x b] rep par(1) Cons \<open>c = RightOf r p\<close> RightOf
        by (metis length_Cons lessI less_SucI)
    qed
  qed
qed

lemma reshaped_refl: "represents s t \<Longrightarrow> reshaped s t s t"
  by (simp add: reshaped_def)

text \<open>Splaying a node returns, with the node at the root and the order unchanged.\<close>

lemma splay_plug:
  assumes "represents s (plug cs (Node a x b))"
  shows "\<exists>s' a' b'. splay x s = Some s' \<and> reshaped s (plug cs (Node a x b)) s' (Node a' x b')"
  using assms
proof (induction "length cs" arbitrary: s cs a b rule: less_induct)
  case less
  show ?case
  proof (cases cs)
    case Nil
    then have rep: "represents s (Node a x b)"
      using less.prems by simp
    then have "splay x s = Some s"
      using links_root [OF rep] by (simp add: splay.simps)
    then show ?thesis
      using reshaped_refl [OF rep] Nil by auto
  next
    case (Cons c cs')
    obtain p s1 cs1 a1 b1 where 1: "parent (tree_nodes s x) = Some p" "splay_step x p s = Some s1"
        "reshaped s (plug cs (Node a x b)) s1 (plug cs1 (Node a1 x b1))" "length cs1 < length cs"
      using splay_step_climbs less.prems Cons by metis
    then have "represents s1 (plug cs1 (Node a1 x b1))"
      by (simp only: reshaped_def)
    then obtain s' a' b' where 2: "splay x s1 = Some s'" "reshaped s1 (plug cs1 (Node a1 x b1)) s' (Node a' x b')"
      using less.hyps [OF 1(4)] by blast
    have "splay x s = Some s'"
      using 1(1,2) 2(1) by (subst splay.simps) simp
    then show ?thesis
      using reshaped_trans [OF 1(3) 2(2)] by blast
  qed
qed

lemma splay_reshapes:
  assumes "represents s t" and "x \<in> set_tree t"
  obtains s' a b where "splay x s = Some s'" and "reshaped s t s' (Node a x b)"
proof -
  obtain cs a b where "t = plug cs (Node a x b)"
    using obtain_plug [OF assms(2)] .
  then show ?thesis
    using splay_plug [of s cs a x b] assms(1) that by blast
qed

section \<open>Searching\<close>

text \<open>The nodes in the order of their keys.\<close>

abbreviation by_key :: "(nat \<Rightarrow> nat) \<Rightarrow> nat list \<Rightarrow> bool" where
  "by_key key xs \<equiv> sorted (map key xs)"

lemma find_from_tree:
  assumes "tree_at (tree_nodes s) par ptr t" and "by_key key (inorder t)"
  shows "\<exists>r. find_from key k ptr s = Some r \<and>
    (case r of None \<Rightarrow> k \<notin> key ` set_tree t | Some n \<Rightarrow> n \<in> set_tree t \<and> key n = k)"
  using assms
proof (induction t arbitrary: par ptr)
  case Leaf
  then show ?case
    by (subst find_from.simps) simp
next
  case (Node l p r)
  have sub: "by_key key (inorder l)" "by_key key (inorder r)"
    "\<forall>q\<in>set_tree l. key q \<le> key p" "\<forall>q\<in>set_tree r. key p \<le> key q"
    using Node.prems(2) by (auto simp: sorted_append)
  have at: "ptr = Some p" "tree_at (tree_nodes s) (Some p) (left_child (tree_nodes s p)) l"
    "tree_at (tree_nodes s) (Some p) (right_child (tree_nodes s p)) r"
    using Node.prems(1) by simp_all
  note unfold = find_from.simps [of key k ptr s]
  consider "key p = k" | "k < key p" | "key p < k"
    by linarith
  then show ?case
  proof cases
    case 1
    then show ?thesis
      using at(1) unfold by simp
  next
    case 2
    then have "k \<notin> key ` set_tree r" "k \<noteq> key p"
      using sub(4) by auto
    then show ?thesis
      using Node.IH(1) [OF at(2) sub(1)] 2 at(1) unfold by (auto split: option.splits)
  next
    case 3
    then have "k \<notin> key ` set_tree l" "k \<noteq> key p"
      using sub(3) by auto
    then show ?thesis
      using Node.IH(2) [OF at(3) sub(2)] 3 at(1) unfold by (auto split: option.splits)
  qed
qed

lemma leftmost_tree:
  "tree_at (tree_nodes s) par (Some p) t \<Longrightarrow> leftmost p s = Some (hd (inorder t))"
proof (induction t arbitrary: par p)
  case (Node l q r)
  then show ?case
    by (subst leftmost.simps) (cases l; auto simp: hd_append)
qed simp

lemma rightmost_tree:
  "tree_at (tree_nodes s) par (Some p) t \<Longrightarrow> rightmost p s = Some (last (inorder t))"
proof (induction t arbitrary: par p)
  case (Node l q r)
  then show ?case
    by (subst rightmost.simps) (cases r; auto simp: last_append)
qed simp

lemma ascend_ctx:
  "ctx_at (tree_nodes s) root cs (Some x) par \<Longrightarrow> x \<notin> set (after cs) \<Longrightarrow> distinct (before cs @ after cs) \<Longrightarrow>
     ascend x par s = Some (case after cs of [] \<Rightarrow> None | y # _ \<Rightarrow> Some y)"
proof (induction cs arbitrary: x par)
  case Nil
  then show ?case
    by (subst ascend.simps) simp
next
  case (Cons c cs)
  show ?case
  proof (cases c)
    case (LeftOf p r)
    then have "right_child (tree_nodes s p) \<noteq> Some x"
      using Cons.prems tree_at_ptr by (metis UnI1 UnI2 after.simps(2) ctx_at.simps(2) set_ConsD set_append set_inorder list.set_intros(2))
    then show ?thesis
      using Cons.prems LeftOf by (subst ascend.simps) simp
  next
    case (RightOf l p)
    then show ?thesis
      using Cons by (subst ascend.simps) auto
  qed
qed

text \<open>The successor is the next node in the order.\<close>

lemma successor_next:
  assumes "represents s t" and "inorder t = us @ x # vs"
  shows "successor x s = Some (case vs of [] \<Rightarrow> None | y # _ \<Rightarrow> Some y)"
proof -
  have "x \<in> set_tree t"
    using assms(2) by (metis in_set_conv_decomp set_inorder)
  then obtain cs a b where t: "t = plug cs (Node a x b)"
    by (rule obtain_plug)
  have d: "distinct (us @ x # vs)" "distinct (before cs @ after cs)" "x \<notin> set (after cs)"
    using assms t unfolding represents_def by (metis, auto)
  have "(before cs @ inorder a) @ x # (inorder b @ after cs) = us @ x # vs"
    using assms(2) t by simp
  then have vs: "vs = inorder b @ after cs"
    using d(1) by (metis (no_types, lifting) append_Cons_eq_iff distinct_append distinct.simps(2)
        not_distinct_conv_prefix disjoint_insert(1) list.simps(15))
  obtain par where at: "tree_at (tree_nodes s) (Some x) (right_child (tree_nodes s x)) b"
      "ctx_at (tree_nodes s) (m_root_node s) cs (Some x) par" "par = parent (tree_nodes s x)"
    using assms(1) [unfolded t represents_def tree_at_plug] by auto
  show ?thesis
  proof (cases "right_child (tree_nodes s x)")
    case None
    then have "b = Leaf"
      using at(1) by (cases b) auto
    then show ?thesis
      using ascend_ctx [OF at(2) d(3,2)] vs at(3) None by (simp add: successor_def)
  next
    case (Some r)
    then have "inorder b \<noteq> []"
      using at(1) by (cases b) auto
    then show ?thesis
      using leftmost_tree [of s "Some x" r b] at(1) Some vs
      by (cases "inorder b") (auto simp: successor_def)
  qed
qed

section \<open>Insertion\<close>

fun tree_ins :: "(nat \<Rightarrow> nat) \<Rightarrow> nat \<Rightarrow> nat tree \<Rightarrow> nat tree" where
  "tree_ins key x Leaf = Node Leaf x Leaf"
| "tree_ins key x (Node l p r) =
     (if key x < key p then Node (tree_ins key x l) p r else Node l p (tree_ins key x r))"

text \<open>The place of a new node in the order: behind those with the same key.\<close>

definition insert_in_order :: "(nat \<Rightarrow> nat) \<Rightarrow> nat \<Rightarrow> nat list \<Rightarrow> nat list" where
  "insert_in_order key x xs = filter (\<lambda>y. key y \<le> key x) xs @ x # filter (\<lambda>y. key x < key y) xs"

lemma inorder_tree_ins:
  "by_key key (inorder t) \<Longrightarrow> inorder (tree_ins key x t) = insert_in_order key x (inorder t)"
proof (induction t)
  case (Node l p r)
  have sub: "by_key key (inorder l)" "by_key key (inorder r)"
    "\<forall>q\<in>set (inorder l). key q \<le> key p" "\<forall>q\<in>set (inorder r). key p \<le> key q"
    using Node.prems by (auto simp: sorted_append)
  have "filter (\<lambda>y. key x < key y) (inorder r) = inorder r" "filter (\<lambda>y. key y \<le> key x) (inorder r) = []"
    if "key x < key p"
    using that sub(4) by (auto simp: filter_id_conv filter_empty_conv)
  moreover have "filter (\<lambda>y. key x < key y) (inorder l) = []" "filter (\<lambda>y. key y \<le> key x) (inorder l) = inorder l"
    if "\<not> key x < key p"
    using that sub(3) by (auto simp: filter_id_conv filter_empty_conv)
  ultimately show ?case
    using Node.IH sub(1,2) by (auto simp: insert_in_order_def)
qed (simp add: insert_in_order_def)

lemma insert_in_order_sorted: "by_key key xs \<Longrightarrow> by_key key (insert_in_order key x xs)"
  by (auto simp: insert_in_order_def sorted_append sorted_filter)

lemma set_insert_in_order: "set (insert_in_order key x xs) = insert x (set xs)"
  by (auto simp: insert_in_order_def)

lemma distinct_insert_in_order: "distinct xs \<Longrightarrow> x \<notin> set xs \<Longrightarrow> distinct (insert_in_order key x xs)"
  by (auto simp: insert_in_order_def)

lemma plug_append: "plug (cs @ cs') t = plug cs' (plug cs t)"
  by (induction cs t rule: plug.induct) auto

text \<open>The loop ends at the node below which the tree insertion attaches the new one.\<close>

lemma insert_point_tree:
  assumes "tree_at (tree_nodes s) q (Some r) t"
  shows "\<exists>p cs a b. insert_point key (key x) (Some r) (Some r) s = Some (Some p) \<and> t = plug cs (Node a p b) \<and>
    (if key x < key p then a = Leaf \<and> tree_ins key x t = plug cs (Node (Node Leaf x Leaf) p b)
     else b = Leaf \<and> tree_ins key x t = plug cs (Node a p (Node Leaf x Leaf)))"
  using assms
proof (induction t arbitrary: q r)
  case (Node l p u)
  have at: "r = p" "tree_at (tree_nodes s) (Some p) (left_child (tree_nodes s p)) l"
    "tree_at (tree_nodes s) (Some p) (right_child (tree_nodes s p)) u"
    using Node.prems by simp_all
  let ?next = "if key x < key p then left_child (tree_nodes s p) else right_child (tree_nodes s p)"
  let ?sub = "if key x < key p then l else u"
  have step: "insert_point key (key x) (Some r) (Some r) s =
      insert_point key (key x) ?next (if ?next = None then Some r else ?next) s"
    using at(1) by (subst insert_point.simps) (simp add: Let_def)
  show ?case
  proof (cases ?next)
    case None
    then have "insert_point key (key x) (Some r) (Some r) s = Some (Some p)"
      using step at(1) by (subst (asm) (2) insert_point.simps) simp
    moreover have "?sub = Leaf"
      using None at(2,3) by (cases l; cases u) (auto split: if_splits)
    ultimately show ?thesis
      by (intro exI [of _ p] exI [of _ "[]"] exI [of _ l] exI [of _ u]) (auto split: if_splits)
  next
    case (Some n)
    have "\<exists>p' cs a b. insert_point key (key x) (Some n) (Some n) s = Some (Some p') \<and> ?sub = plug cs (Node a p' b) \<and>
        (if key x < key p' then a = Leaf \<and> tree_ins key x ?sub = plug cs (Node (Node Leaf x Leaf) p' b)
         else b = Leaf \<and> tree_ins key x ?sub = plug cs (Node a p' (Node Leaf x Leaf)))"
    proof (cases "key x < key p")
      case True
      then show ?thesis
        using Node.IH(1) [of "Some p" n] at(2) Some by (simp only: if_True)
    next
      case False
      then show ?thesis
        using Node.IH(2) [of "Some p" n] at(3) Some by (simp only: if_False)
    qed
    then obtain p' cs a b where ih: "insert_point key (key x) (Some n) (Some n) s = Some (Some p')"
        "?sub = plug cs (Node a p' b)"
        "if key x < key p' then a = Leaf \<and> tree_ins key x ?sub = plug cs (Node (Node Leaf x Leaf) p' b)
         else b = Leaf \<and> tree_ins key x ?sub = plug cs (Node a p' (Node Leaf x Leaf))"
      by blast
    let ?crumb = "if key x < key p then LeftOf p u else RightOf l p"
    show ?thesis
      using step Some ih
      by (intro exI [of _ p'] exI [of _ "cs @ [?crumb]"] exI [of _ a] exI [of _ b])
        (auto simp: plug_append split: if_splits)
  qed
qed simp

definition fresh_node :: "splay_tree \<Rightarrow> nat \<Rightarrow> bool" where
  "fresh_node s x \<longleftrightarrow> tree_nodes s x = \<lparr>parent = None, left_child = None, right_child = None\<rparr>"

lemma attach_left:
  assumes "represents s (plug cs (Node Leaf p b))" and "x \<notin> set (inorder (plug cs (Node Leaf p b)))" and "fresh_node s x"
  shows "left_child (tree_nodes s p) = None"
    and "represents (write_node p (\<lambda>n. n\<lparr>left_child := Some x\<rparr>) (write_node x (\<lambda>n. n\<lparr>parent := Some p\<rparr>) s))
      (plug cs (Node (Node Leaf x Leaf) p b))"
  using assms unfolding represents_def tree_at_plug by (auto simp: write_node_def fresh_node_def)

lemma attach_right:
  assumes "represents s (plug cs (Node a p Leaf))" and "x \<notin> set (inorder (plug cs (Node a p Leaf)))" and "fresh_node s x"
  shows "right_child (tree_nodes s p) = None"
    and "represents (write_node p (\<lambda>n. n\<lparr>right_child := Some x\<rparr>) (write_node x (\<lambda>n. n\<lparr>parent := Some p\<rparr>) s))
      (plug cs (Node a p (Node Leaf x Leaf)))"
  using assms unfolding represents_def tree_at_plug by (auto simp: write_node_def fresh_node_def)

lemma root_is_no_child:
  assumes "represents s (Node a x b)" and "m \<in> set_tree (Node a x b)"
  shows "left_child (tree_nodes s m) \<noteq> Some x"
proof
  assume left: "left_child (tree_nodes s m) = Some x"
  obtain cs l r where t: "Node a x b = plug cs (Node l m r)"
    using obtain_plug [OF assms(2)] .
  have "tree_at (tree_nodes s) (Some m) (left_child (tree_nodes s m)) l"
    using assms(1) [unfolded t represents_def tree_at_plug] by auto
  then have "parent (tree_nodes s x) = Some m"
    using left by (cases l) auto
  then show False
    using links_root(1) [OF assms(1)] by simp
qed

lemma splay_insert_ok:
  assumes rep: "represents s t" and srt: "by_key key (inorder t)" and new: "x \<notin> set (inorder t)"
    and fresh: "fresh_node s x" and min: "t \<noteq> Leaf \<Longrightarrow> \<exists>m\<in>set (inorder t). m_minimum_node s = Some m"
  shows "\<exists>s' t'. splay_insert key x s = Some s' \<and> represents s' t' \<and>
    inorder t' = insert_in_order key x (inorder t) \<and>
    m_minimum_node s' = (if t = Leaf then Some x else m_minimum_node s) \<and>
    (\<forall>q. q \<notin> insert x (set (inorder t)) \<longrightarrow> tree_nodes s' q = tree_nodes s q)"
proof (cases t)
  case Leaf
  then have "insert_point key (key x) (m_root_node s) (m_root_node s) s = Some None"
    using rep by (subst insert_point.simps) (simp add: represents_def)
  then show ?thesis
    using Leaf fresh
    by (intro exI [of _ "s\<lparr>m_root_node := Some x, m_minimum_node := Some x\<rparr>"] exI [of _ "Node Leaf x Leaf"])
      (simp add: splay_insert_def represents_def fresh_node_def insert_in_order_def)
next
  case (Node l r u)
  then obtain m where m: "m \<in> set (inorder t)" "m_minimum_node s = Some m"
    using min by blast
  have root: "m_root_node s = Some r"
    using rep Node by (simp add: represents_def)
  obtain p cs a b where ip: "insert_point key (key x) (Some r) (Some r) s = Some (Some p)" "t = plug cs (Node a p b)"
      "if key x < key p then a = Leaf \<and> tree_ins key x t = plug cs (Node (Node Leaf x Leaf) p b)
       else b = Leaf \<and> tree_ins key x t = plug cs (Node a p (Node Leaf x Leaf))"
    using insert_point_tree [of s None r t key x] rep root by (auto simp: represents_def)
  let ?s0 = "write_node x (\<lambda>n. n\<lparr>parent := Some p\<rparr>) s"
  let ?s1 = "if key x < key p then write_node p (\<lambda>n. n\<lparr>left_child := Some x\<rparr>) ?s0
             else write_node p (\<lambda>n. n\<lparr>right_child := Some x\<rparr>) ?s0"
  have p: "p \<in> set (inorder t)" "p \<noteq> x"
    using ip(2) new by auto
  have rep1: "represents ?s1 (tree_ins key x t)"
    using ip attach_left(2) [of s cs p b x] attach_right(2) [of s cs a p x] rep new fresh by (auto split: if_splits)
  have links: "if key x < key p then left_child (tree_nodes ?s0 p) = None else right_child (tree_nodes ?s0 p) = None"
    using ip attach_left(1) [of s cs p b x] attach_right(1) [of s cs a p x] rep new fresh p(2)
    by (auto simp: write_node_def split: if_splits)
  have ord: "inorder (tree_ins key x t) = insert_in_order key x (inorder t)"
    by (rule inorder_tree_ins [OF srt])
  have set1: "set_tree (tree_ins key x t) = insert x (set (inorder t))"
    using ord set_insert_in_order by (metis set_inorder)
  obtain s2 a2 b2 where s2: "splay x ?s1 = Some s2" "reshaped ?s1 (tree_ins key x t) s2 (Node a2 x b2)"
    using splay_reshapes [OF rep1, of x] set1 by auto
  have m2: "m_minimum_node s2 = Some m" "m \<in> set_tree (Node a2 x b2)" "represents s2 (Node a2 x b2)"
    using s2(2) m ord set_insert_in_order [of key x "inorder t"] set_inorder [of "Node a2 x b2"]
    by (auto simp: reshaped_def write_node_def split: if_splits)
  have frame: "tree_nodes s2 q = tree_nodes s q" if "q \<notin> insert x (set (inorder t))" for q
    using s2(2) that p(1) set1 by (auto simp: reshaped_def write_node_def split: if_splits)
  have "splay_insert key x s = Some s2"
    using root ip(1) links s2(1) m2(1) root_is_no_child [OF m2(3,2)]
    by (simp add: splay_insert_def Let_def split: if_splits)
  then show ?thesis
    using s2(2) m2 ord frame Node m(2) unfolding reshaped_def
    by (intro exI [of _ s2] exI [of _ "Node a2 x b2"]) simp
qed

section \<open>Removal\<close>

fun join_right :: "nat tree \<Rightarrow> nat tree \<Rightarrow> nat tree" where
  "join_right Leaf b = b"
| "join_right (Node l p r) b = Node l p (join_right r b)"

lemma inorder_join_right [simp]: "inorder (join_right a b) = inorder a @ inorder b"
  by (induction a) simp_all

lemma join_right_at:
  assumes "tree_at h par (Some p) a" and "tree_at h q (Some r) b" and "distinct (inorder a @ inorder b)"
    and "m = last (inorder a)"
  shows "tree_at (h(m := (h m)\<lparr>right_child := Some r\<rparr>, r := (h r)\<lparr>parent := Some m\<rparr>)) par (Some p) (join_right a b)"
  using assms
proof (induction a arbitrary: par p)
  case (Node l p' u)
  let ?h' = "h(m := (h m)\<lparr>right_child := Some r\<rparr>, r := (h r)\<lparr>parent := Some m\<rparr>)"
  have at: "p' = p" "parent (h p) = par" "tree_at h (Some p) (left_child (h p)) l"
    "tree_at h (Some p) (right_child (h p)) u"
    using Node.prems(1) by simp_all
  have r: "r \<in> set_tree b"
    using tree_at_ptr Node.prems(2) by blast
  then have r': "r \<noteq> p" "r \<notin> set_tree l" "r \<notin> set_tree u"
    using Node.prems(3) at(1) by auto
  show ?case
  proof (cases u)
    case Leaf
    then have "m = p"
      using Node.prems(4) at(1) by simp
    moreover have "tree_at (h(r := (h r)\<lparr>parent := Some p\<rparr>)) (Some p) (Some r) b"
      using tree_at_set_parent [OF Node.prems(2), of "Some p"] Node.prems(3) by (simp add: set_parent_def)
    moreover have "p \<notin> set_tree b" "p \<notin> set_tree l"
      using Node.prems(3) at(1) by auto
    ultimately have "tree_at ?h' (Some p) (Some r) b" "tree_at ?h' (Some p) (left_child (h p)) l"
      using at(3) r' fun_upd_twist [of p r h] by (simp_all del: fun_upd_apply)
    then show ?thesis
      using at(1,2) r'(1) Leaf \<open>m = p\<close> by (simp only: tree_at.simps join_right.simps) simp
  next
    case (Node u1 n u2)
    then have m: "m = last (inorder u)" "m \<in> set_tree u"
      using Node.prems(4) last_in_set [of "inorder u"] by auto
    then have m': "m \<noteq> p" "m \<notin> set_tree l"
      using Node.prems(3) at(1) by auto
    have "right_child (h p) = Some n"
      using at(4) Node by simp
    then have "tree_at ?h' (Some p) (right_child (h p)) (join_right u b)"
      using Node.IH(2) [of "Some p" n] at(4) Node.prems(2,3) m(1) by (simp del: fun_upd_apply)
    moreover have "tree_at ?h' (Some p) (left_child (h p)) l"
      using at(3) r'(2) m'(2) by (simp del: fun_upd_apply)
    ultimately show ?thesis
      using at(1,2) r'(1) m'(1) by (simp only: tree_at.simps join_right.simps) simp
  qed
qed simp

lemma tree_at_new_root:
  assumes "tree_at h par (Some p) t" and "distinct (inorder t)"
  shows "tree_at (h(p := (h p)\<lparr>parent := None\<rparr>)) None (Some p) t"
  using tree_at_set_parent [OF assms, of None] by (simp add: set_parent_def)

lemma unlink_root_ok:
  assumes rep: "represents s (Node a x b)" and min: "a = Leaf \<Longrightarrow> b = Leaf \<Longrightarrow> m_minimum_node s = None"
  shows "\<exists>s'. unlink_root x s = Some s' \<and> represents s' (join_right a b) \<and> m_minimum_node s' = m_minimum_node s \<and>
    (\<forall>q. q \<notin> set (inorder (Node a x b)) \<longrightarrow> tree_nodes s' q = tree_nodes s q)"
proof -
  let ?h = "tree_nodes s"
  have at: "tree_at ?h (Some x) (left_child (?h x)) a" "tree_at ?h (Some x) (right_child (?h x)) b"
    and d: "distinct (inorder a @ inorder b)"
    using rep by (auto simp: represents_def)
  show ?thesis
  proof (cases a)
    case Leaf
    then have l: "left_child (?h x) = None"
      using at(1) by simp
    show ?thesis
    proof (cases "right_child (?h x)")
      case None
      then have "b = Leaf"
        using at(2) by (cases b) auto
      then show ?thesis
        using l None Leaf min by (simp add: unlink_root_def represents_def)
    next
      case (Some r)
      then show ?thesis
        using l Leaf at(2) d tree_at_new_root [of ?h "Some x" r b] tree_at_ptr [of ?h "Some x" r b]
        by (auto simp: unlink_root_def represents_def write_node_def)
    qed
  next
    case (Node a1 l a2)
    then have l: "left_child (?h x) = Some l"
      using at(1) by simp
    have l_in: "l \<in> set_tree a"
      using Node by simp
    show ?thesis
    proof (cases "right_child (?h x)")
      case None
      then have "b = Leaf"
        using at(2) by (cases b) auto
      moreover have "join_right a Leaf = a"
        by (induction a) simp_all
      ultimately show ?thesis
        using l None at(1) d tree_at_new_root [of ?h "Some x" l a] l_in
        by (auto simp: unlink_root_def represents_def write_node_def)
    next
      case (Some r)
      let ?m = "last (inorder a)"
      have m: "rightmost l s = Some ?m" "?m \<in> set_tree a"
        using rightmost_tree [of s "Some x" l a] at(1) l Node last_in_set [of "inorder a"] by auto
      have r_in: "r \<in> set_tree b" "r \<notin> set_tree a"
        using tree_at_ptr [of ?h "Some x" r b] at(2) Some d by auto
      let ?h1 = "?h(?m := (?h ?m)\<lparr>right_child := Some r\<rparr>, r := (?h r)\<lparr>parent := Some ?m\<rparr>)"
      have "tree_at ?h1 (Some x) (Some l) (join_right a b)"
        using join_right_at [of ?h "Some x" l a "Some x" r b ?m] at l Some d by simp
      then have "tree_at (?h1(l := (?h1 l)\<lparr>parent := None\<rparr>)) None (Some l) (join_right a b)"
        by (rule tree_at_new_root) (use d in simp)
      moreover have "r \<noteq> ?m"
        using m(2) r_in(2) by auto
      ultimately show ?thesis
        using l Some m r_in(1) l_in d by (auto simp: unlink_root_def represents_def write_node_def Let_def)
    qed
  qed
qed

lemma represents_minimum: "represents (s\<lparr>m_minimum_node := m\<rparr>) t = represents s t"
  by (simp add: represents_def)

lemma splay_remove_ok:
  assumes rep: "represents s t" and x: "x \<in> set (inorder t)"
    and min: "m_minimum_node s = Some (hd (inorder t))"
  shows "\<exists>s' t'. splay_remove x s = Some s' \<and> represents s' t' \<and> inorder t' = remove1 x (inorder t) \<and>
    m_minimum_node s' = (case inorder t' of [] \<Rightarrow> None | y # _ \<Rightarrow> Some y) \<and>
    (\<forall>q. q \<notin> set (inorder t) \<longrightarrow> tree_nodes s' q = tree_nodes s q)"
proof -
  obtain s1 a b where s1: "splay x s = Some s1" "reshaped s t s1 (Node a x b)"
    using splay_reshapes [OF rep, of x] x by auto
  have rep1: "represents s1 (Node a x b)" and ord: "inorder t = inorder a @ x # inorder b"
    and min1: "m_minimum_node s1 = Some (hd (inorder a @ x # inorder b))"
    and frame1: "\<forall>q. q \<notin> set (inorder t) \<longrightarrow> tree_nodes s1 q = tree_nodes s q"
    using s1(2) min by (auto simp: reshaped_def)
  have d: "x \<notin> set (inorder a)"
    using rep1 by (auto simp: represents_def)
  have rem: "remove1 x (inorder t) = inorder a @ inorder b"
    using d by (simp add: ord remove1_append)
  let ?s2 = "if a = Leaf then s1\<lparr>m_minimum_node := (case inorder b of [] \<Rightarrow> None | y # _ \<Rightarrow> Some y)\<rparr> else s1"
  have "left_child (tree_nodes s1 x) = None" if "a = Leaf"
    using rep1 that by (simp add: represents_def)
  moreover have "successor x s1 = Some (case inorder b of [] \<Rightarrow> None | y # _ \<Rightarrow> Some y)" if "a = Leaf"
    using successor_next [OF rep1, of "[]" x "inorder b"] that by simp
  moreover have "m_minimum_node s1 = Some x \<longleftrightarrow> a = Leaf"
    using min1 d by (cases "inorder a") auto
  ultimately have step: "splay_remove x s = unlink_root x ?s2"
    using s1(1) by (simp add: splay_remove_def)
  have rep2: "represents ?s2 (Node a x b)"
    using rep1 represents_minimum by auto
  obtain s' where s': "unlink_root x ?s2 = Some s'" "represents s' (join_right a b)"
      "m_minimum_node s' = m_minimum_node ?s2"
      "\<forall>q. q \<notin> set (inorder (Node a x b)) \<longrightarrow> tree_nodes s' q = tree_nodes ?s2 q"
    using unlink_root_ok [OF rep2] by auto
  have "m_minimum_node s' = (case inorder a @ inorder b of [] \<Rightarrow> None | y # _ \<Rightarrow> Some y)"
    using s'(3) min1 by (cases "inorder a") auto
  then show ?thesis
    using step s' rem frame1 ord by (intro exI [of _ s'] exI [of _ "join_right a b"]) auto
qed

section \<open>The interface\<close>

text \<open>
  What the users of the tree rely on: the nodes are kept in the order of their keys, the first one is
  known, and from each the next one is found.
\<close>

fun iterate :: "(nat \<Rightarrow> 'a \<Rightarrow> 'r + 'a) \<Rightarrow> nat list \<Rightarrow> 'a \<Rightarrow> 'r + 'a" where
  "iterate body [] acc = Inr acc"
| "iterate body (n # ns) acc = (case body n acc of Inl res \<Rightarrow> Inl res | Inr acc' \<Rightarrow> iterate body ns acc')"

locale node_order =
  fixes holds :: "'s \<Rightarrow> nat list \<Rightarrow> bool"
    and succ :: "nat \<Rightarrow> 's \<Rightarrow> nat option option"
  assumes succ_holds: "holds s (us @ x # vs) \<Longrightarrow> succ x s = Some (case vs of [] \<Rightarrow> None | y # _ \<Rightarrow> Some y)"
begin

text \<open>The loop visits the nodes in order, and it ends.\<close>

lemma for_nodes_suffix:
  "holds s (us @ vs) \<Longrightarrow>
     for_nodes succ body (case vs of [] \<Rightarrow> None | y # _ \<Rightarrow> Some y) acc s = Some (iterate body vs acc)"
proof (induction vs arbitrary: us acc)
  case Nil
  then show ?case
    by (subst for_nodes.simps) simp
next
  case (Cons v vs)
  have next_node: "succ v s = Some (case vs of [] \<Rightarrow> None | y # _ \<Rightarrow> Some y)"
    using succ_holds Cons.prems by blast
  have "for_nodes succ body (case vs of [] \<Rightarrow> None | y # _ \<Rightarrow> Some y) acc' s = Some (iterate body vs acc')" for acc'
    using Cons.IH [of "us @ [v]" acc'] Cons.prems by simp
  then show ?case
    using next_node by (subst for_nodes.simps) (simp split: sum.splits)
qed

end

locale node_index = node_order +
  fixes fresh :: "'s \<Rightarrow> nat \<Rightarrow> bool"
    and ins :: "(nat \<Rightarrow> nat) \<Rightarrow> nat \<Rightarrow> 's \<Rightarrow> 's option"
    and rem :: "nat \<Rightarrow> 's \<Rightarrow> 's option"
    and first :: "'s \<Rightarrow> nat option"
  assumes holds_distinct: "holds s xs \<Longrightarrow> distinct xs"
    and ins_holds: "holds s xs \<Longrightarrow> by_key key xs \<Longrightarrow> x \<notin> set xs \<Longrightarrow> fresh s x \<Longrightarrow>
      xs = [] \<or> key (hd xs) \<le> key x \<Longrightarrow>
      \<exists>s'. ins key x s = Some s' \<and> holds s' (insert_in_order key x xs) \<and>
        (\<forall>y. y \<noteq> x \<longrightarrow> y \<notin> set xs \<longrightarrow> fresh s y \<longrightarrow> fresh s' y)"
    and rem_holds: "holds s xs \<Longrightarrow> x \<in> set xs \<Longrightarrow>
      \<exists>s'. rem x s = Some s' \<and> holds s' (remove1 x xs) \<and> (\<forall>y. y \<notin> set xs \<longrightarrow> fresh s y \<longrightarrow> fresh s' y)"
    and first_holds: "holds s xs \<Longrightarrow> first s = (case xs of [] \<Rightarrow> None | y # _ \<Rightarrow> Some y)"
begin

lemma for_nodes_iterate:
  "holds s xs \<Longrightarrow> for_nodes succ body (first s) acc s = Some (iterate body xs acc)"
  using for_nodes_suffix [of s "[]" xs body acc] first_holds by simp

lemma ins_rem:
  assumes "holds s xs" and "by_key key xs" and "x \<notin> set xs" and "fresh s x" and "xs = [] \<or> key (hd xs) \<le> key x"
  shows "\<exists>s' s''. ins key x s = Some s' \<and> rem x s' = Some s'' \<and> holds s'' xs"
proof -
  obtain s' where s': "ins key x s = Some s'" "holds s' (insert_in_order key x xs)"
    using ins_holds [OF assms] by blast
  then obtain s'' where s'': "rem x s' = Some s''" "holds s'' (remove1 x (insert_in_order key x xs))"
    using rem_holds [of s' "insert_in_order key x xs" x] set_insert_in_order by blast
  have "remove1 x (insert_in_order key x xs) = filter (\<lambda>y. key y \<le> key x) xs @ filter (\<lambda>y. key x < key y) xs"
    using assms(3) by (simp add: insert_in_order_def remove1_append)
  also have "\<dots> = xs"
    using assms(2)
  proof (induction xs)
    case (Cons z zs)
    then have "key x < key z \<Longrightarrow> filter (\<lambda>y. key y \<le> key x) zs = []"
      by (auto simp: filter_empty_conv)
    then show ?case
      using Cons by auto
  qed simp
  finally show ?thesis
    using s'(1) s'' by simp
qed

end

text \<open>The nodes in the store, whatever the minimum is said to be.\<close>

definition tree_order :: "splay_tree \<Rightarrow> nat list \<Rightarrow> bool" where
  "tree_order s xs \<longleftrightarrow> (\<exists>t. represents s t \<and> inorder t = xs)"

interpretation order: node_order tree_order successor
  by unfold_locales (auto simp: tree_order_def successor_next)

definition tree_holds :: "splay_tree \<Rightarrow> nat list \<Rightarrow> bool" where
  "tree_holds s xs \<longleftrightarrow>
     (\<exists>t. represents s t \<and> inorder t = xs) \<and> m_minimum_node s = (case xs of [] \<Rightarrow> None | y # _ \<Rightarrow> Some y)"

interpretation regions: node_index tree_holds successor fresh_node splay_insert splay_remove m_minimum_node
proof unfold_locales
  fix s xs key x
  show "distinct xs" if "tree_holds s xs"
    using that by (auto simp: tree_holds_def represents_def)
  show "\<exists>s'. splay_insert key x s = Some s' \<and> tree_holds s' (insert_in_order key x xs) \<and>
      (\<forall>y. y \<noteq> x \<longrightarrow> y \<notin> set xs \<longrightarrow> fresh_node s y \<longrightarrow> fresh_node s' y)"
    if h: "tree_holds s xs" "by_key key xs" "x \<notin> set xs" "fresh_node s x" "xs = [] \<or> key (hd xs) \<le> key x"
  proof -
    obtain t where t: "represents s t" "inorder t = xs"
      and min: "m_minimum_node s = (case xs of [] \<Rightarrow> None | y # _ \<Rightarrow> Some y)"
      using h(1) by (auto simp: tree_holds_def)
    have "t \<noteq> Leaf \<Longrightarrow> \<exists>m\<in>set (inorder t). m_minimum_node s = Some m"
      using min t(2) by (cases xs) auto
    then obtain s' t' where s': "splay_insert key x s = Some s'" "represents s' t'"
        "inorder t' = insert_in_order key x xs" "m_minimum_node s' = (if t = Leaf then Some x else m_minimum_node s)"
        "\<forall>q. q \<notin> insert x (set xs) \<longrightarrow> tree_nodes s' q = tree_nodes s q"
      using splay_insert_ok [OF t(1), of key x] h(2-4) t(2) by auto
    have "m_minimum_node s' = (case insert_in_order key x xs of [] \<Rightarrow> None | y # _ \<Rightarrow> Some y)"
      using s'(4) min t(2) h(5) by (cases xs) (auto simp: insert_in_order_def)
    then show ?thesis
      using s' by (auto simp: tree_holds_def fresh_node_def)
  qed
  show "\<exists>s'. splay_remove x s = Some s' \<and> tree_holds s' (remove1 x xs) \<and>
      (\<forall>y. y \<notin> set xs \<longrightarrow> fresh_node s y \<longrightarrow> fresh_node s' y)"
    if h: "tree_holds s xs" "x \<in> set xs"
  proof -
    obtain t where t: "represents s t" "inorder t = xs" "m_minimum_node s = Some (hd (inorder t))"
      using h by (cases xs) (auto simp: tree_holds_def)
    show ?thesis
      using splay_remove_ok [OF t(1) _ t(3), of x] h(2) t(2) by (auto simp: tree_holds_def fresh_node_def)
  qed
  show "m_minimum_node s = (case xs of [] \<Rightarrow> None | y # _ \<Rightarrow> Some y)" if "tree_holds s xs"
    using that by (simp add: tree_holds_def)
  show "successor x s = Some (case vs of [] \<Rightarrow> None | y # _ \<Rightarrow> Some y)" if "tree_holds s (us @ x # vs)" for us vs
    using that successor_next by (auto simp: tree_holds_def)
qed

section \<open>Sequences of operations\<close>

datatype tree_op = Insert nat | Remove nat

fun run_ops :: "(nat \<Rightarrow> nat) \<Rightarrow> tree_op list \<Rightarrow> splay_tree \<Rightarrow> splay_tree option" where
  "run_ops key [] s = Some s"
| "run_ops key (Insert x # ops) s = do { s' \<leftarrow> splay_insert key x s; run_ops key ops s' }"
| "run_ops key (Remove x # ops) s = do { s' \<leftarrow> splay_remove x s; run_ops key ops s' }"

fun spec_ops :: "(nat \<Rightarrow> nat) \<Rightarrow> tree_op list \<Rightarrow> nat list \<Rightarrow> nat list" where
  "spec_ops key [] xs = xs"
| "spec_ops key (Insert x # ops) xs = spec_ops key ops (insert_in_order key x xs)"
| "spec_ops key (Remove x # ops) xs = spec_ops key ops (remove1 x xs)"

text \<open>
  Every node is inserted once, not in front of the first one, and only nodes that are there are removed.
\<close>

fun valid_ops :: "(nat \<Rightarrow> nat) \<Rightarrow> nat list \<Rightarrow> tree_op list \<Rightarrow> nat list \<Rightarrow> bool" where
  "valid_ops key used [] xs \<longleftrightarrow> True"
| "valid_ops key used (Insert x # ops) xs \<longleftrightarrow>
     x \<notin> set used \<and> (xs = [] \<or> key (hd xs) \<le> key x) \<and> valid_ops key (x # used) ops (insert_in_order key x xs)"
| "valid_ops key used (Remove x # ops) xs \<longleftrightarrow> x \<in> set xs \<and> valid_ops key used ops (remove1 x xs)"

definition empty_tree :: splay_tree where
  "empty_tree = \<lparr>tree_nodes = (\<lambda>_. \<lparr>parent = None, left_child = None, right_child = None\<rparr>),
     m_root_node = None, m_minimum_node = None\<rparr>"

lemma by_key_remove1: "by_key key xs \<Longrightarrow> by_key key (remove1 x xs)"
  by (induction xs) (auto dest: in_set_remove1 set_remove1_subset [THEN subsetD])

lemma run_ops_holds:
  assumes "tree_holds s xs" and "by_key key xs" and "valid_ops key used ops xs" and "set xs \<subseteq> set used"
    and "\<And>y. y \<notin> set used \<Longrightarrow> fresh_node s y"
  shows "\<exists>s'. run_ops key ops s = Some s' \<and> tree_holds s' (spec_ops key ops xs) \<and> by_key key (spec_ops key ops xs)"
  using assms
proof (induction key ops s arbitrary: used xs rule: run_ops.induct)
  case (1 key s)
  then show ?case
    by simp
next
  case (2 key x ops s)
  have v: "x \<notin> set used" "xs = [] \<or> key (hd xs) \<le> key x" "valid_ops key (x # used) ops (insert_in_order key x xs)"
    using "2.prems"(3) by simp_all
  have x: "x \<notin> set xs" "fresh_node s x"
    using v(1) "2.prems"(4,5) by auto
  obtain s' where s': "splay_insert key x s = Some s'" "tree_holds s' (insert_in_order key x xs)"
      "\<forall>y. y \<noteq> x \<longrightarrow> y \<notin> set xs \<longrightarrow> fresh_node s y \<longrightarrow> fresh_node s' y"
    using regions.ins_holds [OF "2.prems"(1,2) x v(2)] by blast
  have "\<And>y. y \<notin> set (x # used) \<Longrightarrow> fresh_node s' y"
    using s'(3) "2.prems"(4,5) by auto
  then show ?case
    using "2.IH" [OF s'(1,2) insert_in_order_sorted [OF "2.prems"(2)] v(3)] "2.prems"(4) s'(1)
    by (auto simp: set_insert_in_order)
next
  case (3 key x ops s)
  have v: "x \<in> set xs" "valid_ops key used ops (remove1 x xs)"
    using "3.prems"(3) by simp_all
  obtain s' where s': "splay_remove x s = Some s'" "tree_holds s' (remove1 x xs)"
      "\<forall>y. y \<notin> set xs \<longrightarrow> fresh_node s y \<longrightarrow> fresh_node s' y"
    using regions.rem_holds [OF "3.prems"(1) v(1)] by blast
  have sub: "set (remove1 x xs) \<subseteq> set used"
    using "3.prems"(4) set_remove1_subset by fast
  have fresh: "\<And>y. y \<notin> set used \<Longrightarrow> fresh_node s' y"
    using s'(3) "3.prems"(4,5) by auto
  show ?case
    using "3.IH" [OF s'(1,2) by_key_remove1 [OF "3.prems"(2)] v(2) sub fresh] s'(1) by auto
qed



text \<open>
  A node inserted in front of the first one is never recorded as the minimum, because the check
  looks at the children after the new node was splayed to the root, where it is nobody's child.
  Every later loop over the tree starts at the old minimum and misses the new node.
\<close>

theorem minimum_goes_stale:
  assumes "tree_holds s xs" and "xs \<noteq> []" and "by_key key xs" and "x \<notin> set xs" and "fresh_node s x"
    and "key x < key (hd xs)"
  shows "\<exists>s'. splay_insert key x s = Some s' \<and> m_minimum_node s' = Some (hd xs) \<and>
    (\<exists>t. represents s' t \<and> inorder t = x # xs) \<and>
    (\<forall>body acc. for_nodes successor body (m_minimum_node s') acc s' = Some (iterate body xs acc))"
proof -
  obtain t where t: "represents s t" "inorder t = xs" "m_minimum_node s = Some (hd xs)"
    using assms(1,2) by (cases xs) (auto simp: tree_holds_def)
  have "filter (\<lambda>y. key y \<le> key x) xs = []" "filter (\<lambda>y. key x < key y) xs = xs"
    using assms(3,6) by (cases xs; auto simp: filter_empty_conv filter_id_conv)+
  then have order: "insert_in_order key x xs = x # xs"
    by (simp add: insert_in_order_def)
  have "t \<noteq> Leaf" "\<exists>m\<in>set (inorder t). m_minimum_node s = Some m"
    using t assms(2) by auto
  then obtain s' t' where s': "splay_insert key x s = Some s'" "represents s' t'" "inorder t' = x # xs"
      "m_minimum_node s' = Some (hd xs)"
    using splay_insert_ok [OF t(1), of key x] assms(3-5) t(2,3) order by auto
  have "for_nodes successor body (Some (hd xs)) acc s' = Some (iterate body xs acc)" for body acc
    using order.for_nodes_suffix [of s' "[x]" xs body acc] s'(2,3) assms(2)
    by (cases xs) (auto simp: tree_order_def)
  then show ?thesis
    using s' by auto
qed

theorem minimum_goes_stale_witness:
  "\<exists>s s'. splay_insert (\<lambda>x. x) 7 empty_tree = Some s \<and> splay_insert (\<lambda>x. x) 3 s = Some s' \<and>
    for_nodes successor (\<lambda>n acc. Inr (acc @ [n]) :: unit + nat list) (m_minimum_node s') [] s' = Some (Inr [7])"
proof -
  let ?s = "empty_tree\<lparr>m_root_node := Some 7, m_minimum_node := Some 7\<rparr>"
  have "splay_insert (\<lambda>x. x) 7 empty_tree = Some ?s"
    by (simp add: splay_insert_def empty_tree_def insert_point.simps)
  moreover have "tree_holds ?s [7]"
    by (auto simp: tree_holds_def represents_def empty_tree_def intro!: exI [of _ "Node Leaf 7 Leaf"])
  moreover have "fresh_node ?s 3"
    by (simp add: fresh_node_def empty_tree_def)
  ultimately show ?thesis
    using minimum_goes_stale [where ?'a = "nat list" and ?'b = unit, of ?s "[7]" "\<lambda>x. x" 3] by (auto simp del: splay_tree.simps)
qed

end
