(* ===== verification/Address_Space.thy ===== *)
theory Address_Space
  imports Paging Splay_Tree
begin

text \<open>
  Regions and address spaces: \<^verbatim>\<open>src/kernel/mem/region.cc\<close> and
  \<^verbatim>\<open>src/kernel/mem/address_space.cc\<close>. An address space owns its page tables, its regions
  and the splay tree that orders the regions by base address; a region maps the pages of a memory
  object one behind the other. Flushing the translation buffer has no effect that the page tables show.
\<close>

section \<open>State\<close>

record region =
  r_base :: nat
  r_size :: nat
  r_access :: u32
  r_vm_object :: "vm_object option"

definition r_end :: "region \<Rightarrow> nat" where
  "r_end r = add64 (r_base r) (r_size r)"

text \<open>Regions are objects: an address space refers to them by address.\<close>

record address_space =
  m_pml4 :: pml4
  m_region_tree :: splay_tree
  m_regions :: "nat list"
  region_at :: "nat \<Rightarrow> region"

definition address_space_new :: "(nat \<Rightarrow> region) \<Rightarrow> address_space" where
  "address_space_new regions =
     \<lparr>m_pml4 = page_level_new, m_region_tree = empty_tree, m_regions = [], region_at = regions\<rparr>"

definition region_key :: "address_space \<Rightarrow> nat \<Rightarrow> nat" where
  "region_key as r = r_base (region_at as r)"

definition ra_writable :: u32 where "ra_writable = push_bit 0 1"
definition ra_executable :: u32 where "ra_executable = push_bit 1 1"
definition ra_user_accessible :: u32 where "ra_user_accessible = push_bit 2 1"
definition ra_uncacheable :: u32 where "ra_uncacheable = push_bit 3 1"
definition ra_global :: u32 where "ra_global = push_bit 4 1"

definition page_flags :: "u32 \<Rightarrow> u64" where
  "page_flags access =
     (let fs = 0;
          fs = (if access AND ra_writable = ra_writable then fs OR fl_writable else fs);
          fs = (if access AND ra_executable \<noteq> ra_executable then fs OR fl_no_execute else fs);
          fs = (if access AND ra_user_accessible = ra_user_accessible then fs OR fl_user else fs);
          fs = (if access AND ra_uncacheable = ra_uncacheable then fs OR fl_cache_disable else fs);
          fs = (if access AND ra_global = ra_global then fs OR fl_global else fs)
      in fs)"

section \<open>Mapping a region\<close>

definition map_next :: "u64 \<Rightarrow> physical_page \<Rightarrow> nat \<times> pml4 \<Rightarrow> (nat \<times> pml4) option" where
  "map_next flags page = (\<lambda>(virt, pml4). do {
     ps \<leftarrow> pp_size page;
     pml4' \<leftarrow> map_page ps virt (pp_phys page) flags pml4;
     Some (add64 virt (from_page_size ps), pml4')
   })"

definition unmap_next :: "physical_page \<Rightarrow> nat \<times> pml4 \<Rightarrow> (nat \<times> pml4) option" where
  "unmap_next page = (\<lambda>(virt, pml4). do {
     ps \<leftarrow> pp_size page;
     pml4' \<leftarrow> unmap_page ps virt pml4;
     Some (add64 virt (from_page_size ps), pml4')
   })"

definition region_map :: "nat \<Rightarrow> vm_object \<Rightarrow> address_space \<Rightarrow> address_space option" where
  "region_map r vm as = do {
     let reg = region_at as r;
     ensure (r_vm_object reg = None);
     ensure (vm_size vm \<le> r_size reg);
     (_, pml4) \<leftarrow> for_each (map_next (page_flags (r_access reg))) (vm_physical_pages vm) (r_base reg, m_pml4 as);
     Some (as\<lparr>m_pml4 := pml4, region_at := (region_at as)(r := reg\<lparr>r_vm_object := Some vm\<rparr>)\<rparr>)
   }"

definition region_unmap_if_needed :: "nat \<Rightarrow> address_space \<Rightarrow> address_space option" where
  "region_unmap_if_needed r as =
     (let reg = region_at as r
      in case r_vm_object reg of
           None \<Rightarrow> Some as
         | Some vm \<Rightarrow> do {
             (_, pml4) \<leftarrow> for_each unmap_next (vm_physical_pages vm) (r_base reg, m_pml4 as);
             Some (as\<lparr>m_pml4 := pml4, region_at := (region_at as)(r := reg\<lparr>r_vm_object := None\<rparr>)\<rparr>)
           })"

definition detree_region :: "nat \<Rightarrow> address_space \<Rightarrow> address_space option" where
  "detree_region r as = do {
     t \<leftarrow> splay_remove r (m_region_tree as);
     Some (as\<lparr>m_region_tree := t\<rparr>)
   }"

definition region_destroy :: "nat \<Rightarrow> address_space \<Rightarrow> address_space option" where
  "region_destroy r as = do { as' \<leftarrow> detree_region r as; region_unmap_if_needed r as' }"

text \<open>The vector of regions is cleared from the back.\<close>

definition address_space_destroy :: "address_space \<Rightarrow> address_space option" where
  "address_space_destroy as = do {
     as' \<leftarrow> for_each region_destroy (rev (m_regions as)) as;
     ensure (m_root_node (m_region_tree as') = None);
     page_level_destroy (m_pml4 as');
     Some (as'\<lparr>m_regions := []\<rparr>)
   }"

section \<open>Allocating a region\<close>

definition k_total_size :: nat where "k_total_size = 2 ^ 48"

definition range_alignment :: "nat \<Rightarrow> nat" where
  "range_alignment n = (if GiB 1 \<le> n then GiB 1 else if MiB 2 \<le> n then MiB 2 else KiB 4)"

text \<open>
  One round of the loop over the regions: the loop is left with the base of the gap in front of the
  region, or goes on with the aligned end of the region.
\<close>

definition gap_before :: "(nat \<Rightarrow> region) \<Rightarrow> nat \<Rightarrow> nat \<Rightarrow> nat \<Rightarrow> nat option + nat" where
  "gap_before regions n r previous_region_end =
     (let reg = regions r;
          available = sub64 (r_base reg) previous_region_end
      in if r_base reg > previous_region_end \<and> available \<ge> n \<and>
            add64 previous_region_end available < k_total_size
         then Inl (Some previous_region_end)
         else case align_up (r_end reg) (range_alignment n) of None \<Rightarrow> Inl None | Some e \<Rightarrow> Inr e)"

definition allocate_range_anywhere :: "nat \<Rightarrow> address_space \<Rightarrow> nat option" where
  "allocate_range_anywhere n as = do {
     ensure (n mod KiB 4 = 0);
     found \<leftarrow> for_nodes successor (gap_before (region_at as) n) (m_minimum_node (m_region_tree as))
                (range_alignment n) (m_region_tree as);
     case found of
       Inl base \<Rightarrow> base
     | Inr previous_region_end \<Rightarrow>
         if previous_region_end < k_total_size \<and> k_total_size - previous_region_end \<ge> n
         then Some previous_region_end else None
   }"

text \<open>A new region is an object at the address \<open>r\<close> that the allocator returned.\<close>

definition new_region :: "nat \<Rightarrow> nat \<Rightarrow> nat \<Rightarrow> u32 \<Rightarrow> address_space \<Rightarrow> address_space option" where
  "new_region r base n access as = do {
     let as = as\<lparr>m_regions := m_regions as @ [r],
                 region_at := (region_at as)(r := \<lparr>r_base = base, r_size = n, r_access = access, r_vm_object = None\<rparr>)\<rparr>;
     t \<leftarrow> splay_insert (region_key as) r (m_region_tree as);
     Some (as\<lparr>m_region_tree := t\<rparr>)
   }"

definition allocate_anywhere :: "nat \<Rightarrow> nat \<Rightarrow> u32 \<Rightarrow> address_space \<Rightarrow> address_space option" where
  "allocate_anywhere r n access as = do {
     base \<leftarrow> allocate_range_anywhere n as;
     new_region r base n access as
   }"

text \<open>The result of the search is not used: a specific range is never refused.\<close>

definition allocate_range_specific :: "nat \<Rightarrow> nat \<Rightarrow> address_space \<Rightarrow> (nat \<times> nat) option" where
  "allocate_range_specific base n as = do {
     _ \<leftarrow> find_no_splay (region_key as) base (m_region_tree as);
     Some (base, n)
   }"

definition allocate_specific :: "nat \<Rightarrow> nat \<Rightarrow> nat \<Rightarrow> u32 \<Rightarrow> address_space \<Rightarrow> address_space option" where
  "allocate_specific r base n access as = do {
     (base, n) \<leftarrow> allocate_range_specific base n as;
     new_region r base n access as
   }"

section \<open>Finding the physical address\<close>

text \<open>
  The loop over the pages: the address of the page is only advanced when the page was the right one,
  and then the function returns.
\<close>

fun page_search :: "nat \<Rightarrow> nat \<Rightarrow> physical_page list \<Rightarrow> nat option option" where
  "page_search virt page_virt [] = Some None"
| "page_search virt page_virt (p # ps) = do {
     n \<leftarrow> pp_size p;
     let page_end = add64 page_virt (from_page_size n);
     if virt < page_virt \<or> virt \<ge> page_end then page_search virt page_virt ps
     else Some (Some (add64 (pp_phys p) (sub64 virt page_virt)))
   }"

definition search_region :: "(nat \<Rightarrow> region) \<Rightarrow> nat \<Rightarrow> nat \<Rightarrow> unit \<Rightarrow> nat option + unit" where
  "search_region regions virt r u =
     (let reg = regions r
      in if virt < r_base reg \<or> virt \<ge> r_end reg then Inr ()
         else case r_vm_object reg of
                None \<Rightarrow> Inl None
              | Some vm \<Rightarrow>
                  (case page_search virt (r_base reg) (vm_physical_pages vm) of
                     None \<Rightarrow> Inl None
                   | Some None \<Rightarrow> Inr ()
                   | Some (Some phys) \<Rightarrow> Inl (Some phys)))"

definition virt_to_phys :: "nat \<Rightarrow> address_space \<Rightarrow> (kerror + nat) option" where
  "virt_to_phys virt as = do {
     found \<leftarrow> for_nodes successor (search_region (region_at as) virt) (m_minimum_node (m_region_tree as)) ()
                (m_region_tree as);
     case found of Inl None \<Rightarrow> None | Inl (Some phys) \<Rightarrow> Some (Inr phys) | Inr _ \<Rightarrow> Some (Inl NonExistent)
   }"

section \<open>The pages of a region\<close>

text \<open>
  The pages fit behind each other from a base address: each has a size, lies at a multiple of it on both
  sides, and ends inside the address space.
\<close>

fun page_run :: "nat \<Rightarrow> physical_page list \<Rightarrow> bool" where
  "page_run virt [] \<longleftrightarrow> True"
| "page_run virt (p # pages) \<longleftrightarrow>
     (case pp_size p of
        None \<Rightarrow> False
      | Some ps \<Rightarrow> virt mod from_page_size ps = 0 \<and> pp_phys p mod from_page_size ps = 0 \<and>
          pp_phys p < 2 ^ 52 \<and> virt + from_page_size ps \<le> 2 ^ 48 \<and> page_run (virt + from_page_size ps) pages)"

fun run_end :: "nat \<Rightarrow> physical_page list \<Rightarrow> nat" where
  "run_end virt [] = virt"
| "run_end virt (p # pages) = run_end (virt + (case pp_size p of None \<Rightarrow> 0 | Some ps \<Rightarrow> from_page_size ps)) pages"

text \<open>The page that holds an address, with its physical address.\<close>

fun page_of :: "nat \<Rightarrow> physical_page list \<Rightarrow> nat \<Rightarrow> (physical_page_size \<times> nat) option" where
  "page_of virt [] v = None"
| "page_of virt (p # pages) v =
     (case pp_size p of
        None \<Rightarrow> None
      | Some ps \<Rightarrow> if virt \<le> v \<and> v < virt + from_page_size ps then Some (ps, pp_phys p)
                  else page_of (virt + from_page_size ps) pages v)"

lemma from_page_size_pos [simp]: "0 < from_page_size ps"
  by (cases ps) (simp_all add: size_units)

lemma run_end_ge: "virt \<le> run_end virt pages"
proof (induction pages arbitrary: virt)
  case (Cons p pages)
  show ?case
    using Cons.IH [of "virt + (case pp_size p of None \<Rightarrow> 0 | Some ps \<Rightarrow> from_page_size ps)"] by simp
qed simp

lemma page_of_None: "v < virt \<or> run_end virt pages \<le> v \<Longrightarrow> page_of virt pages v = None"
proof (induction pages arbitrary: virt)
  case (Cons p pages)
  then show ?case
    using run_end_ge [of "virt + from_page_size (the (pp_size p))" pages] by (auto split: option.splits)
qed simp

lemma same_page_interval:
  "0 < n \<Longrightarrow> virt mod n = 0 \<Longrightarrow> v div n = virt div n \<longleftrightarrow> virt \<le> v \<and> v < virt + (n :: nat)"
proof -
  assume n: "0 < n" "virt mod n = 0"
  then obtain q where q: "virt = n * q"
    by (metis dvd_def mod_eq_0_iff_dvd)
  have "v div n = q \<longleftrightarrow> n * q \<le> v \<and> v < n * (q + 1)"
    using n(1) by (metis Suc_eq_plus1 div_nat_eqI dividend_less_times_div dividend_less_div_times mult.commute times_div_less_eq_dividend add.commute mult_Suc_right)
  then show ?thesis
    using n(1) q by (simp add: algebra_simps)
qed

lemma map_pages:
  assumes "wf_pml4 pml4" and "page_run virt pages"
    and "\<And>v. virt \<le> v \<Longrightarrow> v < run_end virt pages \<Longrightarrow> walk pml4 v = None"
  shows "\<exists>pml4'. for_each (map_next fl) pages (virt, pml4) = Some (run_end virt pages, pml4') \<and> wf_pml4 pml4' \<and>
    (\<forall>v < 2 ^ 48. walk pml4' v =
      (case page_of virt pages v of Some (ps, phys) \<Rightarrow> Some (page_entry_of ps phys fl) | None \<Rightarrow> walk pml4 v))"
  using assms
proof (induction pages arbitrary: virt pml4)
  case (Cons p pages)
  obtain ps where ps: "pp_size p = Some ps"
    using Cons.prems(2) by (auto split: option.splits)
  let ?n = "from_page_size ps"
  have run: "virt mod ?n = 0" "pp_phys p mod ?n = 0" "virt + ?n \<le> 2 ^ 48" "page_run (virt + ?n) pages"
    using Cons.prems(2) ps by simp_all
  note interval = same_page_interval [OF from_page_size_pos run(1)]
  have virt: "virt < 2 ^ 48"
    using run(3) by (metis add_lessD1 from_page_size_pos le_neq_implies_less less_add_same_cancel1 order_less_le_trans)
  have end_eq: "run_end virt (p # pages) = run_end (virt + ?n) pages"
    using ps by simp
  have "walk pml4 v = None" if "v div ?n = virt div ?n" for v
    using Cons.prems(3) [of v] that interval end_eq run_end_ge [of "virt + ?n" pages] by simp
  then obtain pml41 where 1: "map_page ps virt (pp_phys p) fl pml4 = Some pml41" "wf_pml4 pml41"
      "\<forall>v < 2 ^ 48. walk pml41 v =
        (if virt \<le> v \<and> v < virt + ?n then Some (page_entry_of ps (pp_phys p) fl) else walk pml4 v)"
    using map_page_ok [OF Cons.prems(1) run(1,2) virt, of fl] interval by auto
  have bound: "run_end (virt + ?n) pages \<le> 2 ^ 48"
    using run(3,4)
  proof (induction pages arbitrary: virt ps)
    case (Cons q qs)
    then show ?case
      by (auto split: option.splits)
  qed simp
  have "walk pml41 v = None" if "virt + ?n \<le> v" "v < run_end (virt + ?n) pages" for v
    using 1(3) that bound Cons.prems(3) [of v] end_eq by simp
  then obtain pml4' where 2: "for_each (map_next fl) pages (virt + ?n, pml41) = Some (run_end (virt + ?n) pages, pml4')"
      "wf_pml4 pml4'" "\<forall>v < 2 ^ 48. walk pml4' v = (case page_of (virt + ?n) pages v of
        Some (ps, phys) \<Rightarrow> Some (page_entry_of ps phys fl) | None \<Rightarrow> walk pml41 v)"
    using Cons.IH [OF 1(2) run(4)] by blast
  have "map_next fl p (virt, pml4) = Some (virt + ?n, pml41)"
    using ps 1(1) run(3) by (simp add: map_next_def add64_def)
  moreover have "walk pml4' v = (case page_of virt (p # pages) v of
      Some (ps, phys) \<Rightarrow> Some (page_entry_of ps phys fl) | None \<Rightarrow> walk pml4 v)" if "v < 2 ^ 48" for v
    using 1(3) 2(3) that ps page_of_None [of v "virt + ?n" pages] by (auto split: option.splits)
  ultimately show ?case
    using 2(1,2) end_eq by simp
qed simp

lemma run_end_bound: "page_run virt pages \<Longrightarrow> virt \<le> 2 ^ 48 \<Longrightarrow> run_end virt pages \<le> 2 ^ 48"
  by (induction pages arbitrary: virt) (auto split: option.splits)

lemma page_entry_bits: "\<exists>raw. page_entry_of ps phys fl = (raw, page_bits ps)"
  by (cases ps) simp_all

lemma unmap_pages:
  assumes "wf_pml4 pml4" and "page_run virt pages"
    and "\<And>v. virt \<le> v \<Longrightarrow> v < run_end virt pages \<Longrightarrow>
      (case page_of virt pages v of Some (ps, phys) \<Rightarrow> walk pml4 v = Some (page_entry_of ps phys fl) | None \<Rightarrow> False)"
  shows "\<exists>pml4'. for_each unmap_next pages (virt, pml4) = Some (run_end virt pages, pml4') \<and> wf_pml4 pml4' \<and>
    (\<forall>v < 2 ^ 48. walk pml4' v = (if virt \<le> v \<and> v < run_end virt pages then None else walk pml4 v))"
  using assms
proof (induction pages arbitrary: virt pml4)
  case (Cons p pages)
  obtain ps where ps: "pp_size p = Some ps"
    using Cons.prems(2) by (auto split: option.splits)
  let ?n = "from_page_size ps"
  have run: "virt mod ?n = 0" "virt + ?n \<le> 2 ^ 48" "page_run (virt + ?n) pages"
    using Cons.prems(2) ps by simp_all
  note interval = same_page_interval [OF from_page_size_pos run(1)]
  have virt: "virt < 2 ^ 48"
    using run(2) by (metis add_lessD1 from_page_size_pos le_neq_implies_less less_add_same_cancel1 order_less_le_trans)
  have ends: "run_end virt (p # pages) = run_end (virt + ?n) pages" "virt + ?n \<le> run_end (virt + ?n) pages"
      "run_end (virt + ?n) pages \<le> 2 ^ 48"
    using ps run_end_ge run_end_bound [OF run(3,2)] by simp_all
  have "walk pml4 virt = Some (page_entry_of ps (pp_phys p) fl)"
    using Cons.prems(3) [of virt] ps ends(1,2) from_page_size_pos [of ps] by simp
  then obtain pml41 where 1: "unmap_page ps virt pml4 = Some pml41" "wf_pml4 pml41"
      "\<forall>v < 2 ^ 48. walk pml41 v = (if virt \<le> v \<and> v < virt + ?n then None else walk pml4 v)"
    using unmap_page_ok [OF Cons.prems(1) run(1) virt] page_entry_bits [of ps "pp_phys p" fl] interval by auto
  have "case page_of (virt + ?n) pages v of Some (ps, phys) \<Rightarrow> walk pml41 v = Some (page_entry_of ps phys fl) | None \<Rightarrow> False"
    if "virt + ?n \<le> v" "v < run_end (virt + ?n) pages" for v
    using Cons.prems(3) [of v] that ps ends(1,3) 1(3) by (simp split: option.splits prod.splits)
  then obtain pml4' where 2: "for_each unmap_next pages (virt + ?n, pml41) = Some (run_end (virt + ?n) pages, pml4')"
      "wf_pml4 pml4'" "\<forall>v < 2 ^ 48. walk pml4' v =
        (if virt + ?n \<le> v \<and> v < run_end (virt + ?n) pages then None else walk pml41 v)"
    using Cons.IH [OF 1(2) run(3)] by blast
  have "unmap_next p (virt, pml4) = Some (virt + ?n, pml41)"
    using ps 1(1) run(2) by (simp add: unmap_next_def add64_def)
  moreover have "walk pml4' v = (if virt \<le> v \<and> v < run_end virt (p # pages) then None else walk pml4 v)"
    if "v < 2 ^ 48" for v
    using 1(3) 2(3) that ends by auto
  ultimately show ?case
    using 2(1,2) ends(1) by simp
qed auto

lemma page_of_run:
  "page_run virt pages \<Longrightarrow> virt \<le> v \<Longrightarrow> v < run_end virt pages \<Longrightarrow> \<exists>ps phys. page_of virt pages v = Some (ps, phys)"
proof (induction pages arbitrary: virt)
  case (Cons p pages)
  then show ?case
    by (auto split: option.splits)
qed simp

text \<open>Mapping the pages and unmapping them again restores the tables.\<close>

lemma map_unmap_pages:
  assumes wf: "wf_pml4 pml4" and run: "page_run virt pages" "virt \<le> 2 ^ 48"
    and free: "\<And>v. virt \<le> v \<Longrightarrow> v < run_end virt pages \<Longrightarrow> walk pml4 v = None"
    and mapped: "for_each (map_next fl) pages (virt, pml4) = Some (e, pml4')"
  shows "for_each unmap_next pages (virt, pml4') = Some (run_end virt pages, pml4)"
proof -
  have bound: "run_end virt pages \<le> 2 ^ 48"
    using run_end_bound [OF run] .
  have 1: "wf_pml4 pml4'" "\<forall>v < 2 ^ 48. walk pml4' v =
      (case page_of virt pages v of Some (ps, phys) \<Rightarrow> Some (page_entry_of ps phys fl) | None \<Rightarrow> walk pml4 v)"
    using map_pages [OF wf run(1) free, of fl] mapped by auto
  have "case page_of virt pages v of Some (ps, phys) \<Rightarrow> walk pml4' v = Some (page_entry_of ps phys fl) | None \<Rightarrow> False"
    if "virt \<le> v" "v < run_end virt pages" for v
    using page_of_run [OF run(1) that] 1(2) bound that by auto
  then obtain pml4'' where 2: "for_each unmap_next pages (virt, pml4') = Some (run_end virt pages, pml4'')"
      "wf_pml4 pml4''" "\<forall>v < 2 ^ 48. walk pml4'' v = (if virt \<le> v \<and> v < run_end virt pages then None else walk pml4' v)"
    using unmap_pages [OF 1(1) run(1)] by blast
  have "walk pml4'' v = walk pml4 v" if "v < 2 ^ 48" for v
    using 1(2) 2(3) that free [of v] page_of_None [of v virt pages] by auto
  then have "pml4'' = pml4"
    using canonical_pml4 [OF 2(2) wf] by blast
  then show ?thesis
    using 2(1) by simp
qed

lemma page_of_aligned:
  "page_run virt pages \<Longrightarrow> page_of virt pages v = Some (ps, phys) \<Longrightarrow> phys mod from_page_size ps = 0 \<and> phys < 2 ^ 52"
  by (induction pages arbitrary: virt) (auto split: option.splits if_splits)

lemma page_flags_no_address: "no_address_bits (page_flags access)"
proof -
  have flags: "fl_writable = 2" "fl_no_execute = 2 ^ 63" "fl_user = 4" "fl_cache_disable = 16" "fl_global = 256"
    by (simp_all add: fl_writable_def fl_no_execute_def fl_user_def fl_cache_disable_def fl_global_def)
  have zero: "no_address_bits 0" and step: "no_address_bits a \<Longrightarrow> no_address_bits b \<Longrightarrow> no_address_bits (a OR b)" for a b :: u64
    by (simp_all add: bit_eq_iff bit_and_iff bit_or_iff) (metis (no_types, lifting))
  show ?thesis
    unfolding page_flags_def Let_def flags
    by (intro step zero if_split [where P = "\<lambda>x. no_address_bits x", THEN iffD2] conjI impI) simp_all
qed


section \<open>Where regions are placed\<close>

abbreviation apart :: "region \<Rightarrow> region \<Rightarrow> bool" where
  "apart r q \<equiv> r_base r + r_size r \<le> r_base q"

text \<open>
  The regions of a space in the order of the tree: each ends before the next one begins, and all lie
  inside the address space.
\<close>

definition space_inv :: "address_space \<Rightarrow> nat list \<Rightarrow> bool" where
  "space_inv as rs \<longleftrightarrow>
     tree_holds (m_region_tree as) rs \<and> sorted_wrt apart (map (region_at as) rs) \<and>
     (\<forall>r\<in>set rs. r_base (region_at as r) + r_size (region_at as r) \<le> k_total_size)"

lemma range_alignment_pow: "\<exists>k < 31. range_alignment n = 2 ^ k"
  by (auto simp: range_alignment_def size_units intro: exI [of _ 12] exI [of _ 21] exI [of _ 30])

lemma align_up_range:
  assumes "e \<le> k_total_size"
  obtains e' where "align_up e (range_alignment n) = Some e'" and "e \<le> e'" and "e' < e + range_alignment n"
    and "e' mod range_alignment n = 0"
proof -
  obtain k where k: "k < 31" "range_alignment n = 2 ^ k"
    using range_alignment_pow by blast
  have "(2 :: nat) ^ k \<le> 2 ^ 30"
    using k(1) by (intro power_increasing) auto
  then have small: "e + (2 ^ k - 1) < 2 ^ 64" "e < 2 ^ 64"
    using assms by (simp_all add: k_total_size_def)
  have "align_up e (range_alignment n) = Some ((e + (2 ^ k - 1)) div 2 ^ k * 2 ^ k)"
    using align_up_value [of k e, OF _ small(2)] k small(1) by simp
  moreover have "e \<le> (e + (2 ^ k - 1)) div 2 ^ k * 2 ^ k" "(e + (2 ^ k - 1)) div 2 ^ k * 2 ^ k < e + 2 ^ k"
  proof -
    have "(e + (2 ^ k - 1)) mod 2 ^ k < 2 ^ k" "(e + (2 ^ k - 1)) div 2 ^ k * 2 ^ k = e + (2 ^ k - 1) - (e + (2 ^ k - 1)) mod 2 ^ k"
      by (simp_all add: minus_mod_eq_div_mult)
    then show "e \<le> (e + (2 ^ k - 1)) div 2 ^ k * 2 ^ k" "(e + (2 ^ k - 1)) div 2 ^ k * 2 ^ k < e + 2 ^ k"
      by (simp_all add: less_eq_Suc_le)
  qed
  ultimately show ?thesis
    using that k(2) by simp
qed

lemma gap_search:
  assumes "sorted_wrt apart (map regions (us @ xs))"
    and "\<forall>r\<in>set (us @ xs). r_base (regions r) + r_size (regions r) \<le> k_total_size"
    and "\<forall>r\<in>set us. r_base (regions r) + r_size (regions r) \<le> prev"
    and "prev mod range_alignment n = 0" and "prev < 2 ^ 64"
  shows "case iterate (gap_before regions n) xs prev of
      Inl None \<Rightarrow> False
    | Inl (Some b) \<Rightarrow> b mod range_alignment n = 0 \<and> b + n \<le> k_total_size \<and>
        (\<forall>r\<in>set (us @ xs). r_base (regions r) + r_size (regions r) \<le> b \<or> b + n \<le> r_base (regions r))
    | Inr e \<Rightarrow> e mod range_alignment n = 0 \<and>
        (\<forall>r\<in>set (us @ xs). r_base (regions r) + r_size (regions r) \<le> e) \<and>
        (if xs = [] then e = prev
         else e < r_base (regions (last xs)) + r_size (regions (last xs)) + range_alignment n)"
  using assms
proof (induction xs arbitrary: us prev)
  case (Cons r xs)
  let ?reg = "regions r"
  have rend: "r_base ?reg + r_size ?reg \<le> k_total_size"
    using Cons.prems(2) by simp
  then have end_eq: "r_end ?reg = r_base ?reg + r_size ?reg" "r_base ?reg < 2 ^ 64"
    by (simp_all add: r_end_def k_total_size_def add64_def)
  obtain e where e: "align_up (r_end ?reg) (range_alignment n) = Some e" "r_end ?reg \<le> e"
      "e < r_end ?reg + range_alignment n" "e mod range_alignment n = 0"
    using align_up_range [of "r_end ?reg" n] rend end_eq by auto
  have al: "range_alignment n \<le> 2 ^ 30"
    by (simp add: range_alignment_def size_units)
  have before: "r_base (regions q) + r_size (regions q) \<le> r_base ?reg" if "q \<in> set us" for q
    using Cons.prems(1) that by (simp add: sorted_wrt_append)
  have later: "r_base ?reg + r_size ?reg \<le> r_base (regions q)" if "q \<in> set xs" for q
    using Cons.prems(1) that by (simp add: sorted_wrt_append)
  have ih: "case iterate (gap_before regions n) xs e of
      Inl None \<Rightarrow> False
    | Inl (Some b) \<Rightarrow> b mod range_alignment n = 0 \<and> b + n \<le> k_total_size \<and>
        (\<forall>q\<in>set ((us @ [r]) @ xs). r_base (regions q) + r_size (regions q) \<le> b \<or> b + n \<le> r_base (regions q))
    | Inr e' \<Rightarrow> e' mod range_alignment n = 0 \<and>
        (\<forall>q\<in>set ((us @ [r]) @ xs). r_base (regions q) + r_size (regions q) \<le> e') \<and>
        (if xs = [] then e' = e
         else e' < r_base (regions (last xs)) + r_size (regions (last xs)) + range_alignment n)"
  proof (rule Cons.IH)
    show "\<forall>q\<in>set (us @ [r]). r_base (regions q) + r_size (regions q) \<le> e"
      using before e(2) end_eq by fastforce
    show "e < 2 ^ 64"
      using e(3) end_eq rend al by (simp add: k_total_size_def)
  qed (use Cons.prems(1,2) e(4) in auto)
  show ?case
  proof (cases "gap_before regions n r prev")
    case (Inl b)
    then have gap: "b = Some prev" "prev < r_base ?reg" "n \<le> r_base ?reg - prev" "r_base ?reg < k_total_size"
      using e(1) end_eq sub64_exact [of prev "r_base ?reg"]
      by (auto simp: gap_before_def Let_def add64_def split: if_splits)
    have "r_base (regions q) + r_size (regions q) \<le> prev \<or> prev + n \<le> r_base (regions q)"
      if "q \<in> set (us @ r # xs)" for q
      using that gap(2,3) Cons.prems(3) later [of q] by auto
    then show ?thesis
      using Inl gap Cons.prems(4) by auto
  next
    case (Inr e')
    then have "e' = e"
      using e(1) by (auto simp: gap_before_def Let_def split: if_splits)
    then show ?thesis
      using Inr ih e(3) end_eq by (cases "xs = []") (auto split: sum.splits option.splits)
  qed
qed simp

lemma allocate_range_anywhere_search:
  assumes "space_inv as rs" and "n mod KiB 4 = 0"
  shows "allocate_range_anywhere n as =
    (case iterate (gap_before (region_at as) n) rs (range_alignment n) of
       Inl base \<Rightarrow> base
     | Inr e \<Rightarrow> if e < k_total_size \<and> n \<le> k_total_size - e then Some e else None)"
  using assms regions.for_nodes_iterate
    [of "m_region_tree as" rs "gap_before (region_at as) n" "range_alignment n"]
  by (auto simp: allocate_range_anywhere_def space_inv_def split: sum.splits)

lemma allocate_range_anywhere_disjoint:
  assumes "space_inv as rs" and "n mod KiB 4 = 0" and "allocate_range_anywhere n as = Some b"
  shows "b mod range_alignment n = 0" and "b + n \<le> k_total_size"
    and "\<forall>r\<in>set rs. r_base (region_at as r) + r_size (region_at as r) \<le> b \<or> b + n \<le> r_base (region_at as r)"
proof -
  have "range_alignment n mod range_alignment n = 0" "range_alignment n < 2 ^ 64"
    by (simp_all add: range_alignment_def size_units)
  note search = gap_search [of "region_at as" "[]" rs "range_alignment n" n, OF _ _ _ this]
  show "b mod range_alignment n = 0" "b + n \<le> k_total_size"
    "\<forall>r\<in>set rs. r_base (region_at as r) + r_size (region_at as r) \<le> b \<or> b + n \<le> r_base (region_at as r)"
    using search assms by (auto simp: allocate_range_anywhere_search [OF assms(1,2)] space_inv_def
        split: sum.splits option.splits if_splits)
qed

text \<open>There is room when there is room behind the last region.\<close>

lemma allocate_range_anywhere_succeeds:
  assumes "space_inv as rs" and "rs \<noteq> []" and "n mod KiB 4 = 0" and "0 < n"
    and "r_base (region_at as (last rs)) + r_size (region_at as (last rs)) + range_alignment n + n \<le> k_total_size"
  shows "allocate_range_anywhere n as \<noteq> None"
proof -
  have "range_alignment n mod range_alignment n = 0" "range_alignment n < 2 ^ 64"
    by (simp_all add: range_alignment_def size_units)
  note search = gap_search [of "region_at as" "[]" rs "range_alignment n" n, OF _ _ _ this]
  show ?thesis
    using search assms by (auto simp: allocate_range_anywhere_search [OF assms(1,3)] space_inv_def
        split: sum.splits option.splits if_splits)
qed

lemma insert_apart:
  assumes "sorted_wrt (\<lambda>x y. apart (f x) (f y)) rs"
    and low: "\<And>q. q \<in> set rs \<Longrightarrow> key q \<le> key r \<Longrightarrow> apart (f q) (f r)"
    and high: "\<And>q. q \<in> set rs \<Longrightarrow> key r < key q \<Longrightarrow> apart (f r) (f q)"
  shows "sorted_wrt (\<lambda>x y. apart (f x) (f y)) (insert_in_order key r rs)"
proof -
  have "apart (f u) (f v)" if "u \<in> set rs" "key u \<le> key r" "v \<in> set rs" "key r < key v" for u v
    using low [OF that(1,2)] high [OF that(3,4)] by linarith
  then show ?thesis
    using assms by (auto simp: insert_in_order_def sorted_wrt_append sorted_wrt_filter)
qed

lemma new_region_ok:
  assumes inv: "space_inv as rs" and r: "r \<notin> set rs" "fresh_node (m_region_tree as) r" and n: "0 < n"
    and first: "rs = [] \<or> r_base (region_at as (hd rs)) \<le> base"
    and place: "base + n \<le> k_total_size"
      "\<forall>q\<in>set rs. r_base (region_at as q) + r_size (region_at as q) \<le> base \<or> base + n \<le> r_base (region_at as q)"
  shows "\<exists>as' rs'. new_region r base n access as = Some as' \<and> space_inv as' rs' \<and> set rs' = insert r (set rs) \<and>
    (rs = [] \<or> hd rs' = hd rs) \<and> m_pml4 as' = m_pml4 as \<and> m_regions as' = m_regions as @ [r] \<and>
    region_at as' = (region_at as)(r := \<lparr>r_base = base, r_size = n, r_access = access, r_vm_object = None\<rparr>)"
proof -
  define f where "f = (region_at as)(r := \<lparr>r_base = base, r_size = n, r_access = access, r_vm_object = None\<rparr>)"
  let ?as = "as\<lparr>m_regions := m_regions as @ [r], region_at := f\<rparr>"
  define key where "key = region_key ?as"
  have old: "f q = region_at as q" if "q \<in> set rs" for q
    using that r(1) by (auto simp: f_def)
  have new: "f r = \<lparr>r_base = base, r_size = n, r_access = access, r_vm_object = None\<rparr>"
    by (simp add: f_def)
  have keys: "key q = r_base (f q)" for q
    by (simp add: key_def region_key_def)
  have srt: "sorted_wrt (\<lambda>x y. apart (f x) (f y)) rs"
    using inv old by (auto simp: space_inv_def sorted_wrt_map intro: sorted_wrt_mono_rel [rotated])
  have by_key: "by_key key rs"
    using srt unfolding sorted_map sorted_wrt_map
    by (rule sorted_wrt_mono_rel [rotated]) (auto simp: keys)
  have front: "rs = [] \<or> key (hd rs) \<le> key r"
    using first old [of "hd rs"] new by (cases rs) (auto simp: keys)
  obtain t where t: "splay_insert key r (m_region_tree as) = Some t" "tree_holds t (insert_in_order key r rs)"
    using regions.ins_holds [OF inv [unfolded space_inv_def, THEN conjunct1] by_key r(1,2) front] by blast
  let ?rs' = "insert_in_order key r rs" and ?as' = "?as\<lparr>m_region_tree := t\<rparr>"
  have "sorted_wrt (\<lambda>x y. apart (f x) (f y)) ?rs'"
    using srt
  proof (rule insert_apart)
    show "apart (f q) (f r)" if "q \<in> set rs" "key q \<le> key r" for q
      using place(2) that old [of q] new n by (auto simp: keys)
    show "apart (f r) (f q)" if "q \<in> set rs" "key r < key q" for q
      using place(2) that old [of q] new by (auto simp: keys)
  qed
  moreover have "\<forall>q\<in>set ?rs'. r_base (f q) + r_size (f q) \<le> k_total_size"
    using inv place(1) old new by (auto simp: set_insert_in_order space_inv_def)
  ultimately have "space_inv ?as' ?rs'"
    using t(2) by (simp add: space_inv_def sorted_wrt_map)
  moreover have "rs = [] \<or> hd ?rs' = hd rs"
    using front by (cases rs) (auto simp: insert_in_order_def)
  moreover have "new_region r base n access as = Some ?as'"
    using t(1) by (simp add: new_region_def Let_def f_def [symmetric] key_def)
  ultimately show ?thesis
    using set_insert_in_order by (intro exI [of _ ?as'] exI [of _ ?rs']) (simp add: f_def)
qed

text \<open>
  C24. In a space whose first region begins at address zero, as the kernel's own region does, allocating
  a region anywhere keeps the regions apart: the new region is aligned to the pages it will be mapped
  with, overlaps no other region and ends inside the address space. It fails only when the space behind
  the last region is too small.
\<close>

theorem allocate_anywhere_disjoint:
  assumes "space_inv as rs" and "rs \<noteq> []" and "r_base (region_at as (hd rs)) = 0"
    and "r \<notin> set rs" and "fresh_node (m_region_tree as) r" and "0 < n" and "n mod KiB 4 = 0"
  shows "case allocate_anywhere r n access as of
      None \<Rightarrow> k_total_size <
        r_base (region_at as (last rs)) + r_size (region_at as (last rs)) + range_alignment n + n
    | Some as' \<Rightarrow> r_base (region_at as' r) mod range_alignment n = 0 \<and> r_size (region_at as' r) = n \<and>
        (\<exists>rs'. space_inv as' rs' \<and> set rs' = insert r (set rs) \<and> hd rs' = hd rs)"
proof (cases "allocate_range_anywhere n as")
  case None
  then show ?thesis
    using allocate_range_anywhere_succeeds [OF assms(1,2,7,6)] by (auto simp: allocate_anywhere_def intro: leI ccontr)
next
  case (Some b)
  note place = allocate_range_anywhere_disjoint [OF assms(1,7) Some]
  have first: "rs = [] \<or> r_base (region_at as (hd rs)) \<le> b"
    using assms(3) by simp
  obtain as' rs' where "new_region r b n access as = Some as'" "space_inv as' rs'" "set rs' = insert r (set rs)"
      "hd rs' = hd rs"
      "region_at as' = (region_at as)(r := \<lparr>r_base = b, r_size = n, r_access = access, r_vm_object = None\<rparr>)"
    using new_region_ok [OF assms(1,4,5,6) first place(2,3)] assms(2) by blast
  then show ?thesis
    using Some place(1) by (auto simp: allocate_anywhere_def)
qed

section \<open>The reverse lookup\<close>

lemma iterate_skip: "(\<And>q. q \<in> set us \<Longrightarrow> body q acc = Inr acc) \<Longrightarrow> iterate body (us @ xs) acc = iterate body xs acc"
  by (induction us) simp_all

lemma page_search_none:
  assumes "\<forall>q\<in>set pages. \<exists>qs. pp_size q = Some qs \<and> base + from_page_size qs \<le> v" and "base \<le> 2 ^ 48"
  shows "page_search v base pages = Some None"
  using assms
proof (induction pages)
  case (Cons q pages)
  then obtain qs where qs: "pp_size q = Some qs" "base + from_page_size qs \<le> v"
    by auto
  have "from_page_size qs \<le> 2 ^ 30"
    by (cases qs) (simp_all add: size_units)
  then have "add64 base (from_page_size qs) = base + from_page_size qs"
    using Cons.prems(2) by (intro add64_exact) simp
  then show ?case
    using Cons qs by (auto simp: Let_def)
qed simp

text \<open>
  The kernel's own lookup of a physical address, which the drivers use for buffers handed to a
  device, works for the first page of a region only: the loop over the pages does not move on by the
  size of a page that does not hold the address, so every other address of the region is reported as
  not existing although it is mapped.
\<close>

theorem virt_to_phys_first_page:
  assumes "space_inv as rs" and "r \<in> set rs" and "r_vm_object (region_at as r) = Some vm"
    and "vm_physical_pages vm = p # pages" and "pp_size p = Some ps"
    and "\<forall>q\<in>set pages. \<exists>qs. pp_size q = Some qs \<and> from_page_size qs \<le> from_page_size ps"
    and "r_base (region_at as r) \<le> v" and "v < r_base (region_at as r) + r_size (region_at as r)"
  shows "virt_to_phys v as = Some
    (if v < r_base (region_at as r) + from_page_size ps
     then Inr (add64 (pp_phys p) (v - r_base (region_at as r))) else Inl NonExistent)"
proof -
  let ?body = "search_region (region_at as) v"
  let ?base = "r_base (region_at as r)"
  obtain us vs where rs: "rs = us @ r # vs"
    using assms(2) by (metis in_set_conv_decomp)
  have srt: "sorted_wrt apart (map (region_at as) (us @ r # vs))"
    using assms(1) rs by (simp add: space_inv_def)
  have bound: "r_base (region_at as q) + r_size (region_at as q) \<le> k_total_size" if "q \<in> set rs" for q
    using assms(1) that by (auto simp: space_inv_def)
  have ends: "r_end (region_at as q) = r_base (region_at as q) + r_size (region_at as q)" if "q \<in> set rs" for q
    using bound [OF that] by (simp add: r_end_def add64_def k_total_size_def)
  have skip: "?body q () = Inr ()" if q: "q \<in> set us \<or> q \<in> set vs" for q
  proof -
    have "apart (region_at as q) (region_at as r) \<or> apart (region_at as r) (region_at as q)"
      using q srt by (auto simp: sorted_wrt_append)
    then have "v < r_base (region_at as q) \<or> r_end (region_at as q) \<le> v"
      using assms(7,8) ends [of q] q rs by auto
    then show ?thesis
      by (simp add: search_region_def Let_def)
  qed
  have base: "?base \<le> 2 ^ 48" "v < 2 ^ 64"
    using bound [OF assms(2)] assms(8) by (simp_all add: k_total_size_def)
  have first: "page_search v ?base (p # pages) = (if v < ?base + from_page_size ps
      then Some (Some (add64 (pp_phys p) (v - ?base))) else Some None)"
  proof -
    have "from_page_size ps \<le> 2 ^ 30"
      by (cases ps) (simp_all add: size_units)
    then have "add64 ?base (from_page_size ps) = ?base + from_page_size ps"
      using base(1) by (intro add64_exact) simp
    moreover have "page_search v ?base pages = Some None" if "?base + from_page_size ps \<le> v"
      using assms(6) that base(1) by (intro page_search_none) fastforce+
    ultimately show ?thesis
      using assms(5,7) sub64_exact [OF assms(7) base(2)] by (auto simp: Let_def)
  qed
  have tail: "iterate ?body vs () = Inr ()"
    using iterate_skip [of vs ?body "()" "[]"] skip by simp
  have "iterate ?body rs () = (if v < ?base + from_page_size ps
      then Inl (Some (add64 (pp_phys p) (v - ?base))) else Inr ())"
    using iterate_skip [of us ?body "()" "r # vs"] skip tail rs assms(3,4,7,8) ends [OF assms(2)] first
    by (simp add: search_region_def Let_def)
  then show ?thesis
    using assms(1) regions.for_nodes_iterate [of "m_region_tree as" rs ?body "()"]
    by (simp add: virt_to_phys_def space_inv_def)
qed

section \<open>A small address space\<close>

text \<open>One region at address zero, and a memory object of a large and a normal page.\<close>

definition demo_vm :: vm_object where
  "demo_vm = \<lparr>vm_physical_pages = [physical_page_new 0x600000 Large True, physical_page_new 0x5000 Normal True],
     vm_size = 0x201000\<rparr>"

definition demo_space :: "vm_object option \<Rightarrow> address_space" where
  "demo_space vm = \<lparr>m_pml4 = page_level_new,
     m_region_tree = empty_tree\<lparr>m_root_node := Some 1, m_minimum_node := Some 1\<rparr>,
     m_regions = [1],
     region_at = (\<lambda>_. \<lparr>r_base = 0, r_size = 0x201000, r_access = ra_writable, r_vm_object = vm\<rparr>)\<rparr>"

lemma demo_space_inv: "space_inv (demo_space vm) [1]"
  by (auto simp: space_inv_def demo_space_def tree_holds_def represents_def empty_tree_def k_total_size_def
      intro!: exI [of _ "Node Leaf 1 Leaf"])

lemma demo_pages:
  "pp_size (physical_page_new 0x600000 Large True) = Some Large" "pp_phys (physical_page_new 0x600000 Large True) = 0x600000"
  "pp_size (physical_page_new 0x5000 Normal True) = Some Normal" "pp_phys (physical_page_new 0x5000 Normal True) = 0x5000"
  by (simp_all add: physical_page_new_simps)


theorem allocate_anywhere_disjoint_witness:
  "case allocate_anywhere 2 0x3000 ra_writable (demo_space None) of
     None \<Rightarrow> False
   | Some as' \<Rightarrow> r_base (region_at as' 2) mod 0x1000 = 0 \<and> (\<exists>rs'. space_inv as' rs' \<and> set rs' = {1, 2} \<and> hd rs' = 1)"
  using allocate_anywhere_disjoint [of "demo_space None" "[1]" 2 "0x3000" ra_writable] demo_space_inv
  by (auto simp: demo_space_def fresh_node_def empty_tree_def size_units range_alignment_def k_total_size_def insert_commute
      split: option.splits)

theorem virt_to_phys_first_page_witness:
  "virt_to_phys 0x1ffff8 (demo_space (Some demo_vm)) = Some (Inr 0x7ffff8) \<and>
   virt_to_phys 0x200000 (demo_space (Some demo_vm)) = Some (Inl NonExistent)"
  using virt_to_phys_first_page [of "demo_space (Some demo_vm)" "[1]" 1 demo_vm
      "physical_page_new 0x600000 Large True" "[physical_page_new 0x5000 Normal True]" Large "0x1ffff8"]
    virt_to_phys_first_page [of "demo_space (Some demo_vm)" "[1]" 1 demo_vm
      "physical_page_new 0x600000 Large True" "[physical_page_new 0x5000 Normal True]" Large "0x200000"]
    demo_space_inv
  by (simp add: demo_space_def demo_vm_def demo_pages size_units add64_def)

end
