(* ===== verification/Cstring.thy ===== *)
theory Cstring
  imports Prelude
begin

text \<open>
  The memory and string functions of the C library: \<^verbatim>\<open>src/ustd/builtin.cc\<close> and
  \<^verbatim>\<open>src/libs/posix/string.cc\<close>. Memory is a function from addresses to bytes, and a
  pointer is an address. A loop that runs until it finds a terminator may not end, so it is a
  partial function whose value is \<open>None\<close> when it does not return. \<open>char\<close> is signed.
\<close>

type_synonym memory = "nat \<Rightarrow> u8"

section \<open>Blocks of memory\<close>

fun memcmp_from :: "memory \<Rightarrow> nat \<Rightarrow> nat \<Rightarrow> nat list \<Rightarrow> int" where
  "memcmp_from m a b [] = 0"
| "memcmp_from m a b (i # is') =
     (if m (a + i) < m (b + i) then -1
      else if m (b + i) < m (a + i) then 1
      else memcmp_from m a b is')"

definition memcmp :: "memory \<Rightarrow> nat \<Rightarrow> nat \<Rightarrow> nat \<Rightarrow> int" where
  "memcmp m a b n = memcmp_from m a b [0..<n]"

definition memcpy :: "nat \<Rightarrow> nat \<Rightarrow> nat \<Rightarrow> memory \<Rightarrow> memory" where
  "memcpy dst src n m = fold (\<lambda>i m. m(dst + i := m (src + i))) [0..<n] m"

definition memset :: "nat \<Rightarrow> int \<Rightarrow> nat \<Rightarrow> memory \<Rightarrow> memory" where
  "memset buf v n m = fold (\<lambda>i m. m(buf + i := word_of_int v)) [0..<n] m"

text \<open>The backward loop decrements both pointers before each copy.\<close>

fun memmove_down :: "nat \<Rightarrow> nat \<Rightarrow> nat \<Rightarrow> memory \<Rightarrow> memory" where
  "memmove_down d s 0 m = m"
| "memmove_down d s (Suc n) m = memmove_down (d - 1) (s - 1) n (m(d - 1 := m (s - 1)))"

definition memmove :: "nat \<Rightarrow> nat \<Rightarrow> nat \<Rightarrow> memory \<Rightarrow> memory" where
  "memmove dst src n m =
     (if dst < src then memcpy dst src n m else memmove_down (dst + n) (src + n) n m)"

section \<open>Lengths, copies and concatenation\<close>

partial_function (option) strlen_from :: "memory \<Rightarrow> nat \<Rightarrow> nat \<Rightarrow> nat option" where
  "strlen_from m str len = (if m (str + len) \<noteq> 0 then strlen_from m str (len + 1) else Some len)"

definition strlen :: "memory \<Rightarrow> nat \<Rightarrow> nat option" where
  "strlen m str = strlen_from m str 0"

fun strnlen_from :: "memory \<Rightarrow> nat \<Rightarrow> nat \<Rightarrow> nat \<Rightarrow> nat" where
  "strnlen_from m str len 0 = len"
| "strnlen_from m str len (Suc k) =
     (if m str \<noteq> 0 then strnlen_from m (str + 1) (len + 1) k else len)"

definition strnlen :: "memory \<Rightarrow> nat \<Rightarrow> nat \<Rightarrow> nat" where
  "strnlen m str max_len = strnlen_from m str 0 max_len"

text \<open>The result is the pointer that is returned, with the memory afterwards.\<close>

partial_function (option) strcpy :: "nat \<Rightarrow> nat \<Rightarrow> memory \<Rightarrow> (nat \<times> memory) option" where
  "strcpy dst src m =
     (let m' = m(dst := m src)
      in if m' dst \<noteq> 0 then strcpy (dst + 1) (src + 1) m' else Some (dst, m'))"

definition strcat :: "nat \<Rightarrow> nat \<Rightarrow> memory \<Rightarrow> (nat \<times> memory) option" where
  "strcat dst src m = do {
     len \<leftarrow> strlen m dst;
     (_, m') \<leftarrow> strcpy (dst + len) src m;
     Some (dst, m')
   }"

fun strncat_loop :: "nat \<Rightarrow> nat \<Rightarrow> nat \<Rightarrow> memory \<Rightarrow> nat \<times> memory" where
  "strncat_loop dst src 0 m = (dst, m)"
| "strncat_loop dst src (Suc n) m =
     (if m src \<noteq> 0 then strncat_loop (dst + 1) (src + 1) n (m(dst := m src)) else (dst, m))"

definition strncat :: "nat \<Rightarrow> nat \<Rightarrow> nat \<Rightarrow> memory \<Rightarrow> (nat \<times> memory) option" where
  "strncat dst src n m = do {
     len \<leftarrow> strlen m dst;
     let (d, m') = strncat_loop (dst + len) src n m;
     Some (dst, m'(d := 0))
   }"

fun strncpy_loop :: "nat \<Rightarrow> nat \<Rightarrow> nat \<Rightarrow> memory \<Rightarrow> nat \<times> nat \<times> memory" where
  "strncpy_loop dst src 0 m = (dst, 0, m)"
| "strncpy_loop dst src (Suc n) m =
     (let m' = m(dst := m src)
      in if m' dst \<noteq> 0 then strncpy_loop (dst + 1) (src + 1) n m' else (dst, Suc n, m'))"

definition strncpy :: "nat \<Rightarrow> nat \<Rightarrow> nat \<Rightarrow> memory \<Rightarrow> nat \<times> memory" where
  "strncpy dst src n m =
     (let (d, k, m') = strncpy_loop dst src n m in (d, memset d 0 k m'))"

section \<open>Comparison\<close>

partial_function (option) strcmp :: "memory \<Rightarrow> nat \<Rightarrow> nat \<Rightarrow> int option" where
  "strcmp m s1 s2 =
     (if m s1 = m s2
      then if m s1 = 0 then Some 0 else strcmp m (s1 + 1) (s2 + 1)
      else Some (uint (m s1) - uint (m s2)))"

fun strncmp_loop :: "memory \<Rightarrow> nat \<Rightarrow> nat \<Rightarrow> nat \<Rightarrow> int" where
  "strncmp_loop m s1 s2 0 = 0"
| "strncmp_loop m s1 s2 (Suc n) =
     (if m s1 \<noteq> m s2 then uint (m s1) - uint (m s2)
      else if m s1 = 0 then 0
      else strncmp_loop m (s1 + 1) (s2 + 1) n)"

definition strncmp :: "memory \<Rightarrow> nat \<Rightarrow> nat \<Rightarrow> nat \<Rightarrow> int" where
  "strncmp m s1 s2 n = (if n = 0 then 0 else strncmp_loop m s1 s2 n)"

section \<open>Searching\<close>

partial_function (option) strchrnul_loop :: "memory \<Rightarrow> nat \<Rightarrow> u8 \<Rightarrow> nat option" where
  "strchrnul_loop m str ch =
     (if m str \<noteq> 0 \<and> m str \<noteq> ch then strchrnul_loop m (str + 1) ch else Some str)"

definition strchrnul :: "memory \<Rightarrow> nat \<Rightarrow> int \<Rightarrow> nat option" where
  "strchrnul m str c = strchrnul_loop m str (word_of_int c)"

text \<open>A null pointer is the inner \<open>None\<close>. The comparison promotes the signed character.\<close>

definition strchr :: "memory \<Rightarrow> nat \<Rightarrow> int \<Rightarrow> nat option option" where
  "strchr m str c = do {
     ret \<leftarrow> strchrnul m str c;
     Some (if sint (m ret) = c then Some ret else None)
   }"

fun strrchr_loop :: "memory \<Rightarrow> nat \<Rightarrow> u8 \<Rightarrow> nat \<Rightarrow> nat option" where
  "strrchr_loop m str ch 0 = None"
| "strrchr_loop m str ch (Suc n) =
     (if m (str + Suc n) = ch then Some (str + Suc n) else strrchr_loop m str ch n)"

definition strrchr :: "memory \<Rightarrow> nat \<Rightarrow> int \<Rightarrow> nat option option" where
  "strrchr m str c = do {
     len \<leftarrow> strlen m str;
     Some (strrchr_loop m str (word_of_int c) (len + 1))
   }"

text \<open>Whether a character is in a set given as a string, the terminator included or not.\<close>

partial_function (option) reject_match :: "memory \<Rightarrow> nat \<Rightarrow> u8 \<Rightarrow> bool option" where
  "reject_match m rp ch =
     (if m rp = ch then Some True
      else if m rp \<noteq> 0 then reject_match m (rp + 1) ch else Some False)"

partial_function (option) strcspn_loop :: "memory \<Rightarrow> nat \<Rightarrow> nat \<Rightarrow> nat \<Rightarrow> nat option" where
  "strcspn_loop m str reject sp = do {
     found \<leftarrow> reject_match m reject (m sp);
     if found then Some (sp - str) else strcspn_loop m str reject (sp + 1)
   }"

definition strcspn :: "memory \<Rightarrow> nat \<Rightarrow> nat \<Rightarrow> nat option" where
  "strcspn m str reject = strcspn_loop m str reject str"

partial_function (option) accept_match :: "memory \<Rightarrow> nat \<Rightarrow> u8 \<Rightarrow> bool option" where
  "accept_match m ap ch =
     (if m ap \<noteq> 0 then if m ap = ch then Some True else accept_match m (ap + 1) ch
      else Some False)"

partial_function (option) strspn_loop :: "memory \<Rightarrow> nat \<Rightarrow> nat \<Rightarrow> nat \<Rightarrow> nat option" where
  "strspn_loop m str accept sp = do {
     found \<leftarrow> accept_match m accept (m sp);
     if found then strspn_loop m str accept (sp + 1) else Some (sp - str)
   }"

definition strspn :: "memory \<Rightarrow> nat \<Rightarrow> nat \<Rightarrow> nat option" where
  "strspn m str accept = strspn_loop m str accept str"

definition strpbrk :: "memory \<Rightarrow> nat \<Rightarrow> nat \<Rightarrow> nat option option" where
  "strpbrk m str accept = do {
     n \<leftarrow> strcspn m str accept;
     Some (if m (str + n) \<noteq> 0 then Some (str + n) else None)
   }"

partial_function (option) strstr_loop :: "memory \<Rightarrow> nat \<Rightarrow> nat \<Rightarrow> nat \<Rightarrow> nat option option" where
  "strstr_loop m haystack needle len =
     (if m haystack \<noteq> 0
      then if strncmp m haystack needle len = 0 then Some (Some haystack)
           else strstr_loop m (haystack + 1) needle len
      else Some None)"

definition strstr :: "memory \<Rightarrow> nat \<Rightarrow> nat \<Rightarrow> nat option option" where
  "strstr m haystack needle =
     (if m needle = 0 then Some (Some haystack)
      else do {
        len \<leftarrow> strlen m needle;
        strstr_loop m haystack needle len
      })"

text \<open>
  \<open>strtok\<close> keeps a pointer between calls. Arguments and results are the pointer that is
  passed, the saved pointer and the memory.
\<close>

definition strtok ::
  "nat option \<Rightarrow> nat \<Rightarrow> nat option \<times> memory \<Rightarrow> (nat option \<times> nat option \<times> memory) option" where
  "strtok str delim st =
     (let (saved, m) = st
      in case (if str = None then saved else str) of
           None \<Rightarrow> Some (None, saved, m)
         | Some s0 \<Rightarrow> do {
             k \<leftarrow> strspn m s0 delim;
             let s = s0 + k;
             if m s = 0 then Some (None, None, m)
             else do {
               n \<leftarrow> strcspn m s delim;
               let e = s + n;
               if m e \<noteq> 0 then Some (Some s, Some (e + 1), m(e := 0)) else Some (Some s, None, m)
             }
           })"

section \<open>Blocks: copying\<close>

lemma memcpy_Suc: "memcpy dst src (Suc n) m = (memcpy dst src n m)(dst + n := memcpy dst src n m (src + n))"
  by (simp add: memcpy_def)

lemma memcpy_forward:
  assumes "dst \<le> src"
  shows "memcpy dst src n m a = (if dst \<le> a \<and> a < dst + n then m (src + (a - dst)) else m a)"
proof (induction n arbitrary: a)
  case (Suc n)
  have "memcpy dst src n m (src + n) = m (src + n)"
    using assms by (simp add: Suc.IH)
  then show ?case
    by (auto simp: memcpy_Suc Suc.IH)
qed (auto simp: memcpy_def)

lemma memmove_down_at:
  assumes "src \<le> dst"
  shows "memmove_down (dst + n) (src + n) n m a =
    (if dst \<le> a \<and> a < dst + n then m (src + (a - dst)) else m a)"
  using assms
proof (induction n arbitrary: m)
  case (Suc n)
  have "memmove_down (dst + Suc n) (src + Suc n) (Suc n) m =
      memmove_down (dst + n) (src + n) n (m(dst + n := m (src + n)))"
    by simp
  then show ?case
    using Suc.prems by (simp only: Suc.IH [OF Suc.prems]) auto
qed auto

text \<open>
  C34. \<open>memmove\<close> moves a block correctly however source and destination overlap: afterwards the
  destination holds what the source held before, and no other byte has changed.
\<close>

theorem memmove_correct:
  "memmove dst src n m a = (if dst \<le> a \<and> a < dst + n then m (src + (a - dst)) else m a)"
  using memcpy_forward [of dst src n m a] memmove_down_at [of src dst n m a]
  by (simp add: memmove_def)

lemma memset_at: "memset buf v n m a = (if buf \<le> a \<and> a < buf + n then word_of_int v else m a)"
  by (induction n) (auto simp: memset_def)

section \<open>Terminated strings in memory\<close>

text \<open>A zero-terminated string at an address.\<close>

fun cstr :: "memory \<Rightarrow> nat \<Rightarrow> u8 list \<Rightarrow> bool" where
  "cstr m p [] \<longleftrightarrow> m p = 0"
| "cstr m p (x # xs) \<longleftrightarrow> m p = x \<and> x \<noteq> 0 \<and> cstr m (Suc p) xs"

lemma cstr_cong:
  assumes "\<And>a. p \<le> a \<Longrightarrow> a \<le> p + length xs \<Longrightarrow> m' a = m a"
  shows "cstr m' p xs = cstr m p xs"
  using assms
proof (induction xs arbitrary: p)
  case (Cons x xs)
  have "cstr m' (Suc p) xs = cstr m (Suc p) xs"
    by (rule Cons.IH) (simp add: Cons.prems)
  then show ?case
    by (simp add: Cons.prems)
qed simp

lemma cstr_drop: "cstr m p xs \<Longrightarrow> i \<le> length xs \<Longrightarrow> cstr m (p + i) (drop i xs)"
proof (induction xs arbitrary: p i)
  case (Cons x xs)
  then show ?case
    using Cons.IH [of "Suc p" "i - 1"] by (cases i) auto
qed simp

lemma cstr_nth: "cstr m p xs \<Longrightarrow> i < length xs \<Longrightarrow> m (p + i) = xs ! i"
proof (induction xs arbitrary: p i)
  case (Cons x xs)
  then show ?case
    using Cons.IH [of "Suc p" "i - 1"] by (cases i) auto
qed simp

lemma cstr_end: "cstr m p xs \<Longrightarrow> m (p + length xs) = 0"
  using cstr_drop [of m p xs "length xs"] by simp

lemma cstr_nonzero: "cstr m p xs \<Longrightarrow> 0 \<notin> set xs"
  by (induction xs arbitrary: p) auto

lemma cstr_append_zero:
  "cstr m p (xs @ ys) \<Longrightarrow> cstr (m(p + length xs := 0)) p xs"
proof (induction xs arbitrary: p)
  case (Cons x xs)
  then show ?case
    using Cons.IH [of "Suc p"] by auto
qed simp

lemma strlen_from_eq: "cstr m (p + len) xs \<Longrightarrow> strlen_from m p len = Some (len + length xs)"
proof (induction xs arbitrary: len)
  case (Cons x xs)
  then show ?case
    using Cons.IH [of "Suc len"] by (subst strlen_from.simps) auto
qed (subst strlen_from.simps, simp)

lemma strlen_eq: "cstr m p xs \<Longrightarrow> strlen m p = Some (length xs)"
  using strlen_from_eq [of m p 0 xs] by (simp add: strlen_def)

lemma strnlen_eq: "cstr m p xs \<Longrightarrow> strnlen m p n = min n (length xs)"
proof -
  have "cstr m p xs \<Longrightarrow> strnlen_from m p len n = len + min n (length xs)" for len
    by (induction xs arbitrary: p n len) (case_tac n; auto)+
  then show "cstr m p xs \<Longrightarrow> strnlen m p n = min n (length xs)"
    by (simp add: strnlen_def)
qed

lemma strcpy_eq:
  assumes "cstr m src xs" and "dst + length xs < src \<or> src + length xs < dst"
  shows "strcpy dst src m = Some (dst + length xs,
    (\<lambda>a. if dst \<le> a \<and> a \<le> dst + length xs then m (src + (a - dst)) else m a))"
  using assms
proof (induction xs arbitrary: dst src m)
  case Nil
  then show ?case
    by (auto simp: strcpy.simps [of dst src m] fun_eq_iff)
next
  case (Cons x xs)
  let ?m = "m(dst := m src)"
  have "cstr ?m (Suc src) xs = cstr m (Suc src) xs"
    using Cons.prems(2) by (intro cstr_cong) auto
  then have c: "cstr ?m (src + 1) xs"
    using Cons.prems(1) by simp
  have "strcpy (dst + 1) (src + 1) ?m = Some (dst + 1 + length xs,
      (\<lambda>a. if dst + 1 \<le> a \<and> a \<le> dst + 1 + length xs then ?m (src + 1 + (a - (dst + 1))) else ?m a))"
    by (rule Cons.IH [OF c]) (use Cons.prems(2) in auto)
  then have "strcpy dst src m = Some (dst + 1 + length xs,
      (\<lambda>a. if dst + 1 \<le> a \<and> a \<le> dst + 1 + length xs then ?m (src + 1 + (a - (dst + 1))) else ?m a))"
    using Cons.prems(1) by (subst strcpy.simps) (simp add: Let_def)
  moreover have "(\<lambda>a. if dst + 1 \<le> a \<and> a \<le> dst + 1 + length xs then ?m (src + 1 + (a - (dst + 1))) else ?m a) =
      (\<lambda>a. if dst \<le> a \<and> a \<le> dst + length (x # xs) then m (src + (a - dst)) else m a)"
  proof (rule ext)
    fix a
    have "src + 1 + (a - (dst + 1)) = src + (a - dst)" if "dst + 1 \<le> a"
      using that by simp
    moreover have "src + (a - dst) \<noteq> dst" if "dst + 1 \<le> a" "a \<le> dst + 1 + length xs"
      using that Cons.prems(2) by auto
    ultimately show "(if dst + 1 \<le> a \<and> a \<le> dst + 1 + length xs then ?m (src + 1 + (a - (dst + 1))) else ?m a) =
      (if dst \<le> a \<and> a \<le> dst + length (x # xs) then m (src + (a - dst)) else m a)"
      by (cases "dst + 1 \<le> a \<and> a \<le> dst + 1 + length xs"; cases "a = dst") auto
  qed
  moreover have "dst + 1 + length xs = dst + length (x # xs)"
    by simp
  ultimately show ?case
    by (simp only:)
qed

lemma byte_pos: "x \<noteq> 0 \<Longrightarrow> 0 < uint x" for x :: u8
  using uint_0_iff uint_ge_0 order_le_less by metis

text \<open>
  \<open>strcmp\<close> returns, and orders strings the way a dictionary orders sequences of unsigned
  bytes: the result is zero for equal strings only and negative exactly when the first string
  comes first.
\<close>

theorem strcmp_lexicographic:
  assumes "cstr m p xs" and "cstr m q ys"
  shows "\<exists>r. strcmp m p q = Some r \<and> (r = 0 \<longleftrightarrow> xs = ys) \<and> (r < 0 \<longleftrightarrow> (xs, ys) \<in> lexord {(a, b). a < b})"
  using assms
proof (induction xs arbitrary: p q ys)
  case Nil
  then show ?case
    by (cases ys) (auto simp: strcmp.simps [of m p] uint_0_iff byte_pos)
next
  case (Cons x xs)
  show ?case
  proof (cases ys)
    case Nil
    then show ?thesis
      using Cons.prems byte_pos [of x] by (auto simp: strcmp.simps [of m p] uint_0_iff)
  next
    case (Cons y zs)
    show ?thesis
    proof (cases "x = y")
      case True
      then show ?thesis
        using Cons.IH [of "Suc p" "Suc q" zs] Cons.prems Cons by (auto simp: strcmp.simps [of m p])
    next
      case False
      then show ?thesis
        using Cons.prems Cons by (auto simp: strcmp.simps [of m p] word_less_def simp flip: word_uint_eq_iff)
    qed
  qed
qed

text \<open>The witnesses use the strings \<open>ab\<close> at 0 and \<open>b\<close> at 8.\<close>

definition demo_mem :: memory where
  "demo_mem = (\<lambda>_. 0)(0 := 97, 1 := 98, 8 := 98)"

lemma demo_mem_ab: "cstr demo_mem 0 [97, 98]" and demo_mem_b: "cstr demo_mem 8 [98]"
  by (simp_all add: demo_mem_def)

theorem strcmp_lexicographic_witness: "\<exists>r. strcmp demo_mem 0 8 = Some r \<and> r < 0"
  using strcmp_lexicographic [OF demo_mem_ab demo_mem_b] by auto

section \<open>Searching for a character\<close>

lemma strchrnul_loop_eq:
  "cstr m p xs \<Longrightarrow> strchrnul_loop m p ch = Some (p + length (takeWhile (\<lambda>x. x \<noteq> ch) xs))"
proof (induction xs arbitrary: p)
  case (Cons x xs)
  then show ?case
    using Cons.IH [of "Suc p"] by (subst strchrnul_loop.simps) auto
qed (subst strchrnul_loop.simps, simp)

lemma sint_of_byte: "sint (word_of_int c :: u8) = c \<longleftrightarrow> - 128 \<le> c \<and> c < 128"
  using signed_take_bit_int_eq_self_iff [of 7 c] by (simp add: sint_sbintrunc')

lemma takeWhile_found:
  "ch \<in> set xs \<Longrightarrow> length (takeWhile (\<lambda>x. x \<noteq> ch) xs) < length xs \<and>
     xs ! length (takeWhile (\<lambda>x. x \<noteq> ch) xs) = ch"
  by (induction xs) auto

lemma strchr_eq:
  assumes "cstr m p xs" and "c \<noteq> 0" and "- 128 \<le> c" and "c < 128"
  shows "strchr m p c = Some (if word_of_int c \<in> set xs
    then Some (p + length (takeWhile (\<lambda>x. x \<noteq> word_of_int c) xs)) else None)"
proof -
  let ?ch = "word_of_int c :: u8" and ?n = "length (takeWhile (\<lambda>x. x \<noteq> word_of_int c) xs)"
  have s: "sint ?ch = c"
    using assms(3,4) by (simp add: sint_of_byte)
  have r: "strchrnul m p c = Some (p + ?n)"
    using strchrnul_loop_eq [OF assms(1)] by (simp add: strchrnul_def)
  show ?thesis
  proof (cases "?ch \<in> set xs")
    case True
    then have "?n < length xs" "xs ! ?n = ?ch"
      using takeWhile_found [OF True] by simp_all
    then show ?thesis
      using r s True cstr_nth [OF assms(1)] by (simp add: strchr_def)
  next
    case False
    then have "takeWhile (\<lambda>x. x \<noteq> ?ch) xs = xs"
      by (subst takeWhile_eq_all_conv) auto
    then have n: "?n = length xs"
      by (rule arg_cong)
    show ?thesis
      using r False cstr_end [OF assms(1)] assms(2) unfolding n by (simp add: strchr_def)
  qed
qed

text \<open>
  \<open>strrchr\<close> starts one place behind the terminator and stops before the first character: if
  the character it looks for occurs only at the start of the string and not behind its
  terminator, it is not found.
\<close>

theorem strrchr_misses_first:
  assumes "cstr m p (x # xs)" and "x \<notin> set xs" and "m (p + length (x # xs) + 1) \<noteq> x"
  shows "strrchr m p (uint x) = Some None"
proof -
  have none: "(\<And>i. 0 < i \<Longrightarrow> i \<le> n \<Longrightarrow> m (p + i) \<noteq> ch) \<Longrightarrow> strrchr_loop m p ch n = None" for ch n
  proof (induction n)
    case (Suc n)
    show ?case
      using Suc.prems [of "Suc n"] Suc.IH Suc.prems by simp
  qed simp
  have "m (p + i) \<noteq> x" if i: "0 < i" "i \<le> length (x # xs) + 1" for i
  proof -
    consider "i < length (x # xs)" | "i = length (x # xs)" | "i = length (x # xs) + 1"
      using i by linarith
    then show ?thesis
    proof cases
      case 1
      then have "m (p + i) = xs ! (i - 1)" "i - 1 < length xs"
        using cstr_nth [OF assms(1), of i] i by auto
      then show ?thesis
        using assms(2) by (metis nth_mem)
    qed (use cstr_end [OF assms(1)] assms(1,3) in auto)
  qed
  then have "strrchr_loop m p x (length (x # xs) + 1) = None"
    by (intro none) simp
  then show ?thesis
    using strlen_eq [OF assms(1)] by (simp add: strrchr_def)
qed

theorem strrchr_misses_first_witness: "strrchr demo_mem 0 97 = Some None"
  using strrchr_misses_first [OF demo_mem_ab] by (simp add: demo_mem_def)

section \<open>Searching for a string\<close>

lemma strncmp_prefix:
  "cstr m p xs \<Longrightarrow> cstr m q ys \<Longrightarrow> strncmp m p q (length ys) = 0 \<longleftrightarrow> take (length ys) xs = ys"
proof -
  have "cstr m p xs \<Longrightarrow> cstr m q ys \<Longrightarrow> strncmp_loop m p q (length ys) = 0 \<longleftrightarrow> take (length ys) xs = ys"
  proof (induction ys arbitrary: p q xs)
    case (Cons y ys)
    have "uint (m p) - uint (m q) = 0 \<longleftrightarrow> m p = m q"
      by (simp add: word_uint_eq_iff)
    then show ?case
      using Cons.prems Cons.IH [of "Suc p" "tl xs" "Suc q"] by (cases xs) auto
  qed simp
  then show "cstr m p xs \<Longrightarrow> cstr m q ys \<Longrightarrow> strncmp m p q (length ys) = 0 \<longleftrightarrow> take (length ys) xs = ys"
    by (cases ys) (simp_all add: strncmp_def)
qed

lemma strstr_loop_eq:
  assumes "cstr m q ys" and "ys \<noteq> []" and "cstr m p xs"
  shows "\<exists>r. strstr_loop m p q (length ys) = Some r \<and>
    (case r of None \<Rightarrow> \<forall>i. take (length ys) (drop i xs) \<noteq> ys
     | Some a \<Rightarrow> \<exists>i. a = p + i \<and> take (length ys) (drop i xs) = ys \<and>
         (\<forall>j < i. take (length ys) (drop j xs) \<noteq> ys))"
  using assms(3)
proof (induction xs arbitrary: p)
  case Nil
  then show ?case
    using assms(2) by (auto simp: strstr_loop.simps [of m p])
next
  case (Cons x xs)
  show ?case
  proof (cases "take (length ys) (x # xs) = ys")
    case True
    then have "strstr_loop m p q (length ys) = Some (Some p)"
      using strncmp_prefix [OF Cons.prems assms(1)] Cons.prems
      by (subst strstr_loop.simps) auto
    then show ?thesis
      using True by (auto intro!: exI [of _ 0])
  next
    case False
    then have "strstr_loop m p q (length ys) = strstr_loop m (Suc p) q (length ys)"
      using strncmp_prefix [OF Cons.prems assms(1)] Cons.prems
      by (subst strstr_loop.simps) auto
    moreover obtain r where r: "strstr_loop m (Suc p) q (length ys) = Some r"
      "case r of None \<Rightarrow> \<forall>i. take (length ys) (drop i xs) \<noteq> ys
       | Some a \<Rightarrow> \<exists>i. a = Suc p + i \<and> take (length ys) (drop i xs) = ys \<and>
         (\<forall>j < i. take (length ys) (drop j xs) \<noteq> ys)"
      using Cons.IH [of "Suc p"] Cons.prems by auto
    moreover have "take (length ys) (drop i (x # xs)) = ys \<longleftrightarrow>
        (\<exists>k. i = Suc k \<and> take (length ys) (drop k xs) = ys)" for i
      using False by (cases i) auto
    ultimately show ?thesis
      by (cases r) (auto simp: less_Suc_eq_0_disj)
  qed
qed

text \<open>
  \<open>strstr\<close> returns, and what it returns is the first place where the second string occurs in
  the first, or a null pointer when it does not occur.
\<close>

theorem strstr_first_occurrence:
  assumes "cstr m p xs" and "cstr m q ys"
  shows "\<exists>r. strstr m p q = Some r \<and>
    (case r of None \<Rightarrow> \<forall>i. take (length ys) (drop i xs) \<noteq> ys
     | Some a \<Rightarrow> \<exists>i. a = p + i \<and> take (length ys) (drop i xs) = ys \<and>
         (\<forall>j < i. take (length ys) (drop j xs) \<noteq> ys))"
proof (cases ys)
  case Nil
  then show ?thesis
    using assms(2) by (simp add: strstr_def)
next
  case (Cons y zs)
  then show ?thesis
    using strstr_loop_eq [OF assms(2) _ assms(1)] strlen_eq [OF assms(2)] assms(2)
    by (simp add: strstr_def)
qed

theorem strstr_first_occurrence_witness: "strstr demo_mem 0 8 = Some (Some 1)"
proof -
  have "take 1 (drop i [97, 98 :: u8]) = [98] \<longleftrightarrow> i = 1" for i
    by (cases i; cases "i - 1") auto
  then show ?thesis
    using strstr_first_occurrence [OF demo_mem_ab demo_mem_b] by (auto split: option.splits)
qed

section \<open>Tokens\<close>

lemma reject_match_eq: "cstr m d ds \<Longrightarrow> reject_match m d ch = Some (ch \<in> set ds \<or> ch = 0)"
proof (induction ds arbitrary: d)
  case (Cons x ds)
  then show ?case
    using Cons.IH [of "Suc d"] by (subst reject_match.simps) auto
qed (subst reject_match.simps, auto)

lemma accept_match_eq: "cstr m d ds \<Longrightarrow> accept_match m d ch = Some (ch \<in> set ds)"
proof (induction ds arbitrary: d)
  case (Cons x ds)
  then show ?case
    using Cons.IH [of "Suc d"] by (subst accept_match.simps) auto
qed (subst accept_match.simps, auto)

lemma strcspn_loop_eq:
  assumes "cstr m d ds"
  shows "cstr m p xs \<Longrightarrow> str \<le> p \<Longrightarrow>
    strcspn_loop m str d p = Some (p - str + length (takeWhile (\<lambda>x. x \<notin> set ds) xs))"
proof (induction xs arbitrary: p)
  case (Cons x xs)
  then show ?case
    using Cons.IH [of "Suc p"] reject_match_eq [OF assms] by (subst strcspn_loop.simps) auto
qed (use reject_match_eq [OF assms] in \<open>subst strcspn_loop.simps, auto\<close>)

lemma strspn_loop_eq:
  assumes "cstr m d ds"
  shows "cstr m p xs \<Longrightarrow> str \<le> p \<Longrightarrow>
    strspn_loop m str d p = Some (p - str + length (takeWhile (\<lambda>x. x \<in> set ds) xs))"
proof (induction xs arbitrary: p)
  case (Cons x xs)
  then show ?case
    using Cons.IH [of "Suc p"] accept_match_eq [OF assms] by (subst strspn_loop.simps) auto
qed (use accept_match_eq [OF assms] cstr_nonzero [OF assms] in \<open>subst strspn_loop.simps, auto\<close>)

lemma strcspn_eq: "cstr m d ds \<Longrightarrow> cstr m p xs \<Longrightarrow>
    strcspn m p d = Some (length (takeWhile (\<lambda>x. x \<notin> set ds) xs))"
  and strspn_eq: "cstr m d ds \<Longrightarrow> cstr m p xs \<Longrightarrow>
    strspn m p d = Some (length (takeWhile (\<lambda>x. x \<in> set ds) xs))"
  using strcspn_loop_eq [of m d ds p xs p] strspn_loop_eq [of m d ds p xs p]
  by (simp_all add: strcspn_def strspn_def)

lemma cstr_dropWhile: "cstr m p xs \<Longrightarrow> cstr m (p + length (takeWhile P xs)) (dropWhile P xs)"
  by (simp add: dropWhile_eq_drop cstr_drop length_takeWhile_le)

text \<open>
  One call of \<open>strtok\<close> cuts off one token: it skips the delimiters at the front of the text,
  which is the argument or what an earlier call left; when only delimiters remain it returns
  a null pointer. Otherwise it returns a terminated string, the longest run free of delimiters,
  and remembers the text behind the delimiter that ended the run, or nothing when the text
  ended. Bytes outside the text are untouched.
\<close>

theorem strtok_cuts_token:
  assumes "(if str = None then saved else str) = Some p"
    and "cstr m p xs" and "cstr m d ds"
  defines "ys \<equiv> dropWhile (\<lambda>x. x \<in> set ds) xs"
  defines "tok \<equiv> takeWhile (\<lambda>x. x \<notin> set ds) ys" and "rest \<equiv> dropWhile (\<lambda>x. x \<notin> set ds) ys"
  shows "\<exists>result saved' m'. strtok str d (saved, m) = Some (result, saved', m') \<and>
    (\<forall>a. a < p \<or> p + length xs \<le> a \<longrightarrow> m' a = m a) \<and>
    (if ys = [] then result = None \<and> saved' = None
     else (\<exists>s. result = Some s \<and> cstr m' s tok) \<and>
          (case rest of [] \<Rightarrow> saved' = None | z # zs \<Rightarrow> \<exists>q. saved' = Some q \<and> cstr m' q zs))"
proof -
  let ?k = "length (takeWhile (\<lambda>x. x \<in> set ds) xs)"
  let ?s = "p + ?k" and ?e = "p + ?k + length tok"
  have ys: "cstr m ?s ys"
    unfolding ys_def by (rule cstr_dropWhile [OF assms(2)])
  have k: "strspn m p d = Some ?k"
    by (rule strspn_eq [OF assms(3,2)])
  have n: "strcspn m ?s d = Some (length tok)"
    unfolding tok_def by (rule strcspn_eq [OF assms(3) ys])
  have rest: "cstr m ?e rest" and split: "ys = tok @ rest"
    using cstr_dropWhile [OF ys] by (simp_all add: tok_def rest_def)
  have len: "?k + length ys = length xs"
    unfolding ys_def by (metis length_append takeWhile_dropWhile_id)
  have ys0: "m ?s = 0 \<longleftrightarrow> ys = []"
    using ys by (cases ys) auto
  show ?thesis
  proof (cases "ys = []")
    case True
    then show ?thesis
      using assms(1) k ys0 by (simp add: strtok_def Let_def)
  next
    case False
    show ?thesis
    proof (cases rest)
      case Nil
      then have "strtok str d (saved, m) = Some (Some ?s, None, m)"
        using assms(1) k n ys0 False rest by (simp add: strtok_def Let_def)
      then show ?thesis
        using False Nil ys split by auto
    next
      case (Cons z zs)
      then have r: "strtok str d (saved, m) = Some (Some ?s, Some (?e + 1), m(?e := 0))"
        using assms(1) k n ys0 False rest by (auto simp: strtok_def Let_def)
      have "cstr (m(?e := 0)) ?s tok"
        using cstr_append_zero [of m ?s tok rest] ys split by simp
      moreover have "cstr (m(?e := 0)) (?e + 1) zs = cstr m (?e + 1) zs"
        by (rule cstr_cong) simp
      moreover have "?e < p + length xs"
        using len split Cons by simp
      ultimately show ?thesis
        using r False rest Cons by auto
    qed
  qed
qed

theorem strtok_cuts_token_witness:
  "\<exists>s saved m. strtok (Some 0) 8 (None, demo_mem) = Some (Some s, saved, m) \<and> cstr m s [97]"
  using strtok_cuts_token [OF _ demo_mem_ab demo_mem_b, of "Some 0" None] by auto

end
