(* ===== verification/Ctype.thy ===== *)
theory Ctype
  imports Prelude
begin

text \<open>
  The character classes of \<^verbatim>\<open>src/libs/posix/ctype.cc\<close>. The functions take an \<open>int\<close>,
  convert it to an unsigned 32-bit number, and decide most classes with one subtraction that
  wraps around and one comparison.
\<close>

abbreviation to_unsigned :: "int \<Rightarrow> u32" where
  "to_unsigned c \<equiv> word_of_int c"

definition isalpha :: "int \<Rightarrow> bool" where
  "isalpha c \<longleftrightarrow> (to_unsigned c OR 32) - 97 < 26"

definition isdigit :: "int \<Rightarrow> bool" where
  "isdigit c \<longleftrightarrow> to_unsigned c - 48 < 10"

definition isalnum :: "int \<Rightarrow> bool" where
  "isalnum c \<longleftrightarrow> isalpha c \<or> isdigit c"

definition isblank :: "int \<Rightarrow> bool" where
  "isblank c \<longleftrightarrow> c = 32 \<or> c = 9"

definition iscntrl :: "int \<Rightarrow> bool" where
  "iscntrl c \<longleftrightarrow> to_unsigned c < 0x20 \<or> c = 0x7f"

definition isgraph :: "int \<Rightarrow> bool" where
  "isgraph c \<longleftrightarrow> to_unsigned c - 0x21 < 0x5e"

definition islower :: "int \<Rightarrow> bool" where
  "islower c \<longleftrightarrow> to_unsigned c - 97 < 26"

definition isprint :: "int \<Rightarrow> bool" where
  "isprint c \<longleftrightarrow> to_unsigned c - 0x20 < 0x5f"

definition ispuntc :: "int \<Rightarrow> bool" where
  "ispuntc c \<longleftrightarrow> isgraph c \<and> \<not> isalnum c"

definition isspace :: "int \<Rightarrow> bool" where
  "isspace c \<longleftrightarrow> c = 32 \<or> to_unsigned c - 9 < 5"

definition isupper :: "int \<Rightarrow> bool" where
  "isupper c \<longleftrightarrow> to_unsigned c - 65 < 26"

definition isxdigit :: "int \<Rightarrow> bool" where
  "isxdigit c \<longleftrightarrow> isdigit c \<or> (to_unsigned c OR 32) - 97 < 6"

definition tolower :: "int \<Rightarrow> int" where
  "tolower c = sint (if isupper c then to_unsigned c OR 32 else to_unsigned c)"

definition toupper :: "int \<Rightarrow> int" where
  "toupper c = sint (if islower c then to_unsigned c AND 0x5f else to_unsigned c)"

section \<open>Ranges\<close>

text \<open>The subtraction idiom: a wrapped difference is small exactly inside the range.\<close>

lemma wrapped_range:
  fixes w :: u32
  assumes "lo + n < 2147483648" and "0 \<le> lo" and "0 \<le> n"
  shows "w - word_of_int lo < word_of_int n \<longleftrightarrow> lo \<le> uint w \<and> uint w < lo + n"
proof -
  define u where "u = uint w"
  have u: "0 \<le> u" "u < 4294967296"
    using uint_lt2p [of w] by (simp_all add: u_def)
  have lo: "uint (word_of_int lo :: u32) = lo" and n: "uint (word_of_int n :: u32) = n"
    using assms by (simp_all add: uint_word_of_int)
  have "uint (w - word_of_int lo) = (u - lo) mod 4294967296"
    by (simp add: uint_word_ariths lo u_def)
  also have "\<dots> = (if lo \<le> u then u - lo else u - lo + 4294967296)"
  proof (cases "lo \<le> u")
    case True
    then show ?thesis
      using u assms by (simp add: mod_pos_pos_trivial)
  next
    case False
    have "(u - lo) mod 4294967296 = (u - lo + 4294967296) mod 4294967296"
      by simp
    also have "\<dots> = u - lo + 4294967296"
      using False u assms by (intro mod_pos_pos_trivial) linarith+
    finally show ?thesis
      using False by simp
  qed
  finally have "w - word_of_int lo < word_of_int n \<longleftrightarrow>
      (if lo \<le> u then u - lo else u - lo + 4294967296) < n"
    by (simp add: word_less_def n)
  then show ?thesis
    unfolding u_def [symmetric] using u assms by (auto split: if_splits)
qed

lemma uint_to_unsigned:
  assumes "- (2147483648) \<le> c" and "c < 2147483648"
  shows "uint (to_unsigned c) = (if 0 \<le> c then c else c + 4294967296)"
proof (cases "0 \<le> c")
  case False
  have "c mod 4294967296 = (c + 4294967296) mod 4294967296"
    by simp
  also have "\<dots> = c + 4294967296"
    using False assms by (intro mod_pos_pos_trivial) linarith+
  finally show ?thesis
    using False by (simp add: uint_word_of_int)
qed (use assms in \<open>simp add: uint_word_of_int\<close>)

lemma int_range:
  assumes "- (2147483648) \<le> c" and "c < 2147483648" and "lo + n < 2147483648" and "0 \<le> lo" and "0 \<le> n"
  shows "to_unsigned c - word_of_int lo < word_of_int n \<longleftrightarrow> lo \<le> c \<and> c < lo + n"
  using wrapped_range [OF assms(3-5), of "to_unsigned c"] uint_to_unsigned [OF assms(1,2)] assms
  by (auto split: if_splits)

text \<open>Setting bit 5 maps the upper case letters to the lower case ones.\<close>

lemma or_32_range:
  fixes w :: u32
  assumes "0 < n" and "n \<le> 26"
  shows "(w OR 32) - 97 < word_of_int n \<longleftrightarrow>
    97 \<le> uint w \<and> uint w < 97 + n \<or> 65 \<le> uint w \<and> uint w < 65 + n"
proof -
  define u where "u = uint w"
  have or32: "uint (w OR 32) = (if odd (u div 32) then u else u + 32)"
  proof -
    have "u OR 32 = set_bit 5 u"
      by (simp add: set_bit_eq_or)
    also have "\<dots> = (if odd (u div 32) then u else u + 32)"
      by (simp add: set_bit_eq bit_iff_odd)
    finally show ?thesis
      by (simp add: uint_or u_def)
  qed
  have "u div 32 = 2" if "65 \<le> u" "u < 91"
    using that by (simp add: int_div_pos_eq [of _ _ 2 "u - 64"])
  moreover have "u div 32 = 3" if "97 \<le> u" "u < 123"
    using that by (simp add: int_div_pos_eq [of _ _ 3 "u - 96"])
  moreover have "(w OR 32) - 97 < word_of_int n \<longleftrightarrow> 97 \<le> uint (w OR 32) \<and> uint (w OR 32) < 97 + n"
    using wrapped_range [of 97 n "w OR 32"] assms by simp
  ultimately show ?thesis
    unfolding or32 u_def [symmetric] using assms by (auto split: if_splits)
qed

lemma int_or_32_range:
  assumes "- (2147483648) \<le> c" and "c < 2147483648" and "0 < n" and "n \<le> 26"
  shows "(to_unsigned c OR 32) - 97 < word_of_int n \<longleftrightarrow> 97 \<le> c \<and> c < 97 + n \<or> 65 \<le> c \<and> c < 65 + n"
  using or_32_range [OF assms(3,4), of "to_unsigned c"] uint_to_unsigned [OF assms(1,2)] assms
  by (auto split: if_splits)

text \<open>
  On every \<open>int\<close>, negative ones included, each classification function decides the class of
  the ASCII table it is named after.
\<close>

theorem ctype_classes:
  assumes "- (2147483648) \<le> c" and "c < 2147483648"
  shows "(isdigit c \<longleftrightarrow> 48 \<le> c \<and> c \<le> 57) \<and>
    (isupper c \<longleftrightarrow> 65 \<le> c \<and> c \<le> 90) \<and>
    (islower c \<longleftrightarrow> 97 \<le> c \<and> c \<le> 122) \<and>
    (isalpha c \<longleftrightarrow> isupper c \<or> islower c) \<and>
    (isalnum c \<longleftrightarrow> isalpha c \<or> isdigit c) \<and>
    (isxdigit c \<longleftrightarrow> isdigit c \<or> 65 \<le> c \<and> c \<le> 70 \<or> 97 \<le> c \<and> c \<le> 102) \<and>
    (isspace c \<longleftrightarrow> c = 32 \<or> 9 \<le> c \<and> c \<le> 13) \<and>
    (iscntrl c \<longleftrightarrow> 0 \<le> c \<and> c < 32 \<or> c = 127) \<and>
    (isprint c \<longleftrightarrow> 32 \<le> c \<and> c < 127) \<and>
    (isgraph c \<longleftrightarrow> 33 \<le> c \<and> c < 127) \<and>
    (ispuntc c \<longleftrightarrow> isgraph c \<and> \<not> isalnum c)"
proof -
  note r = int_range [OF assms]
  have "isdigit c \<longleftrightarrow> 48 \<le> c \<and> c \<le> 57"
    using r [of 48 10] by (simp add: isdigit_def) linarith
  moreover have "isupper c \<longleftrightarrow> 65 \<le> c \<and> c \<le> 90"
    using r [of 65 26] by (simp add: isupper_def) linarith
  moreover have "islower c \<longleftrightarrow> 97 \<le> c \<and> c \<le> 122"
    using r [of 97 26] by (simp add: islower_def) linarith
  moreover have "isprint c \<longleftrightarrow> 32 \<le> c \<and> c < 127" "isgraph c \<longleftrightarrow> 33 \<le> c \<and> c < 127"
    using r [of 32 95] r [of 33 94] by (simp_all add: isprint_def isgraph_def)
  moreover have "isspace c \<longleftrightarrow> c = 32 \<or> 9 \<le> c \<and> c \<le> 13"
    using r [of 9 5] by (simp add: isspace_def) linarith
  moreover have "isalpha c \<longleftrightarrow> 65 \<le> c \<and> c \<le> 90 \<or> 97 \<le> c \<and> c \<le> 122"
    using int_or_32_range [OF assms, of 26] by (simp add: isalpha_def) linarith
  moreover have "isxdigit c \<longleftrightarrow> isdigit c \<or> 65 \<le> c \<and> c \<le> 70 \<or> 97 \<le> c \<and> c \<le> 102"
    using int_or_32_range [OF assms, of 6] by (simp add: isxdigit_def) linarith
  moreover have "iscntrl c \<longleftrightarrow> 0 \<le> c \<and> c < 32 \<or> c = 127"
    using r [of 0 32] by (simp add: iscntrl_def)
  ultimately show ?thesis
    by (simp add: isalnum_def ispuntc_def)
qed

theorem ctype_classes_witness: "isalpha 97 \<and> \<not> isalpha (- 1)"
  using ctype_classes [of 97] ctype_classes [of "- 1"] by simp

end
