(* ===== verification/Numbers.thy ===== *)
theory Numbers
  imports Ctype
begin

text \<open>
  Numbers as text. Printing: the integer formatting of \<open>ustd::StringBuilder\<close>
  (\<^verbatim>\<open>src/ustd/string_builder.hh\<close>), which the kernel log and the user land use. Reading:
  \<open>ustd::cast\<close> (\<^verbatim>\<open>src/ustd/string_cast.hh\<close>) and \<open>atoi\<close> and \<open>strtoul\<close>
  (\<^verbatim>\<open>src/libs/posix/stdlib.cc\<close>). Strings are lists of characters without their
  terminator; reading behind the terminator, and signed overflow, is undefined in the source
  and \<open>None\<close> here.
\<close>

abbreviation NUL :: char where
  "NUL \<equiv> CHR 0x00"

text \<open>A signed \<open>char\<close> converted to \<open>int\<close>.\<close>

definition char_int :: "char \<Rightarrow> int" where
  "char_int c = (let n = int (of_char c) in if n < 128 then n else n - 256)"

section \<open>Integer types\<close>

datatype int_type = Unsigned nat | Signed nat

text \<open>The conversion of a value to an integer type of the given width.\<close>

fun narrow :: "int_type \<Rightarrow> int \<Rightarrow> int" where
  "narrow (Unsigned w) x = x mod 2 ^ w"
| "narrow (Signed w) x = (x + 2 ^ (w - 1)) mod 2 ^ w - 2 ^ (w - 1)"

section \<open>Printing\<close>

definition digit_char :: "nat \<Rightarrow> char" where
  "digit_char d = (if d < 10 then char_of (48 + d) else char_of (97 + d - 10))"

text \<open>An array of 20 characters that is filled from the front.\<close>

definition buf_push :: "char \<Rightarrow> char list \<Rightarrow> char list option" where
  "buf_push c buf = do { ensure (length buf < 20); Some (buf @ [c]) }"

partial_function (option) digits_loop ::
  "nat \<Rightarrow> int_type \<Rightarrow> int \<Rightarrow> char list \<Rightarrow> char list option" where
  "digits_loop base ty arg buf = do {
     let u = nat (arg mod 2 ^ 64);
     buf' \<leftarrow> buf_push (digit_char (u mod base)) buf;
     let arg' = narrow ty (int (u div base));
     if arg' > 0 then digits_loop base ty arg' buf' else Some buf'
   }"

definition append_single_int :: "char list \<Rightarrow> int_type \<Rightarrow> int \<Rightarrow> char list \<Rightarrow> char list option" where
  "append_single_int opts ty arg buffer =
     (if opts ! 1 = CHR ''c'' then Some (buffer @ [char_of (nat (arg mod 256))])
      else do {
        let base = (if opts ! 1 = CHR ''h'' \<or> opts ! 1 = CHR ''x'' then 16 else 10);
        buf \<leftarrow> digits_loop base ty arg [];
        buf1 \<leftarrow> (if opts ! 2 \<noteq> NUL
                 then for_each (\<lambda>_. buf_push (if opts ! 3 \<noteq> NUL then opts ! 3 else CHR ''0''))
                        [length buf..<nat (char_int (opts ! 2) - 48)] buf
                 else Some buf);
        buf2 \<leftarrow> (if opts ! 1 = CHR ''h''
                 then do { b \<leftarrow> buf_push (CHR ''x'') buf1; buf_push (CHR ''0'') b }
                 else Some buf1);
        Some (buffer @ rev buf2)
      })"

text \<open>The arguments a format string can be given, and how each is appended.\<close>

datatype fmt_arg = IntArg int_type int | PtrArg nat | StrArg "char list" | BoolArg bool

definition append_single :: "char list \<Rightarrow> fmt_arg \<Rightarrow> char list \<Rightarrow> char list option" where
  "append_single opts arg buffer =
     (case arg of
        IntArg ty x \<Rightarrow> append_single_int opts ty x buffer
      | PtrArg p \<Rightarrow> append_single_int [CHR '':'', CHR ''h'', NUL, NUL] (Unsigned 64) (int p) buffer
      | StrArg s \<Rightarrow> Some (buffer @ s)
      | BoolArg b \<Rightarrow> Some (buffer @ (if b then ''true'' else ''false'')))"

text \<open>The options between the braces; at most four characters, the rest are zero.\<close>

fun parse_opts :: "char list \<Rightarrow> char list \<Rightarrow> (char list \<times> char list) option" where
  "parse_opts opts [] = None"
| "parse_opts opts (c # fmt) =
     (if c = CHR ''}'' then Some (opts @ replicate (4 - length opts) NUL, fmt)
      else do { ensure (length opts < 4); parse_opts (opts @ [c]) fmt })"

definition append_part :: "fmt_arg \<Rightarrow> char list \<times> char list \<Rightarrow> (char list \<times> char list) option" where
  "append_part arg st =
     (let (fmt, buffer) = st;
          buffer1 = buffer @ takeWhile (\<lambda>c. c \<noteq> CHR ''{'') fmt
      in case dropWhile (\<lambda>c. c \<noteq> CHR ''{'') fmt of
           [] \<Rightarrow> None
         | _ # fmt1 \<Rightarrow> do {
             (opts, fmt2) \<leftarrow> parse_opts [] fmt1;
             buffer2 \<leftarrow> append_single opts arg buffer1;
             Some (fmt2, buffer2)
           })"

definition sb_append :: "char list \<Rightarrow> fmt_arg list \<Rightarrow> char list \<Rightarrow> char list option" where
  "sb_append fmt args buffer = do {
     (rest, buffer') \<leftarrow> for_each append_part args (fmt, buffer);
     Some (buffer' @ rest)
   }"

definition sb_format :: "char list \<Rightarrow> fmt_arg list \<Rightarrow> char list option" where
  "sb_format fmt args = sb_append fmt args []"

section \<open>Reading\<close>

text \<open>\<open>ustd::cast<size_t>\<close>.\<close>

fun cast_loop :: "nat \<Rightarrow> char list \<Rightarrow> nat option" where
  "cast_loop ret [] = Some ret"
| "cast_loop ret (ch # cs) =
     (if char_int ch < 48 \<or> char_int ch > 57 then None
      else if 2 ^ 64 \<le> ret * 10 then None
      else if 2 ^ 64 \<le> ret * 10 + nat (char_int ch - 48) then None
      else cast_loop (ret * 10 + nat (char_int ch - 48)) cs)"

definition cast_size :: "char list \<Rightarrow> nat option" where
  "cast_size string = cast_loop 0 string"

text \<open>The character at the front, which is the terminator at the end of the string.\<close>

fun front :: "char list \<Rightarrow> int" where
  "front [] = 0"
| "front (c # cs) = char_int c"

definition int32 :: "int \<Rightarrow> int option" where
  "int32 x = (if - (2 ^ 31) \<le> x \<and> x < 2 ^ 31 then Some x else None)"

fun atoi_loop :: "int \<Rightarrow> char list \<Rightarrow> int option" where
  "atoi_loop ret [] = Some ret"
| "atoi_loop ret (c # cs) =
     (if isdigit (char_int c)
      then do { a \<leftarrow> int32 (ret * 10); ret' \<leftarrow> int32 (a - (char_int c - 48)); atoi_loop ret' cs }
      else Some ret)"

definition atoi :: "char list \<Rightarrow> int option" where
  "atoi str0 = do {
     let str = dropWhile (\<lambda>c. isspace (char_int c)) str0;
     let neg = (front str = 45);
     let str' = (if neg \<or> front str = 43 then tl str else str);
     ret \<leftarrow> atoi_loop 0 str';
     if neg then Some ret else int32 (- ret)
   }"

text \<open>
  \<open>strtoul\<close>: the value, the offset it stores through its second argument and whether it set
  \<open>errno\<close>. The offset is relative to the start of the string. The digits are at offset
  \<open>pos\<close>.
\<close>

fun strtoul_loop :: "int \<Rightarrow> nat \<Rightarrow> int \<Rightarrow> int \<Rightarrow> char list \<Rightarrow> nat \<times> int \<times> bool" where
  "strtoul_loop base ret pos end' [] = (ret, end', False)"
| "strtoul_loop base ret pos end' (c # cs) =
     (let ch0 = char_int c in
      if \<not> isdigit ch0 \<and> \<not> isalpha ch0 then (ret, end', False)
      else let ch = (if isdigit ch0 then ch0 - 48 else ch0 - (if isupper ch0 then 65 - 10 else 97 - 10));
               cutoff = (2 ^ 64 - 1) div nat base;
               cutlim = (2 ^ 64 - 1) div nat base
           in if ch \<ge> base then (ret, end', False)
              else if ret > cutoff \<or> ret = cutoff \<and> nat ch > cutlim then (2 ^ 64 - 1, end', True)
              else strtoul_loop base (add64 (mul64 ret (nat base)) (nat ch)) (pos + 1) (pos - 1) cs)"

definition strtoul :: "char list \<Rightarrow> int \<Rightarrow> (nat \<times> int \<times> bool) option" where
  "strtoul str0 base0 = do {
     let spaces = length (takeWhile (\<lambda>c. isspace (char_int c)) str0);
     let str1 = drop spaces str0;
     let neg = (front str1 = 45);
     let signs = (if neg \<or> front str1 = 43 then 1 else 0);
     let str2 = drop signs str1;
     let base1 = (if base0 = 0 \<and> front str2 = 48 \<and> (front (tl str2) = 120 \<or> front (tl str2) = 88)
                  then 16 else base0);
     let base = (if base1 = 0 then if front str2 = 48 then 8 else 10 else base1);
     ensure (base = 16 \<longrightarrow> 2 \<le> length str2);
     let skip = (if base = 16 then 2 else 0);
     let (ret, end', overflow) = strtoul_loop base 0 (int (spaces + signs + skip)) 0 (drop skip str2);
     Some (if overflow then ret else if neg then sub64 0 ret else ret, end', overflow)
   }"

section \<open>Numerals\<close>

text \<open>The reference: the numeral of a number in a base, most significant digit first.\<close>

function numeral_chars :: "nat \<Rightarrow> nat \<Rightarrow> char list" where
  "numeral_chars base n =
     (if n < base \<or> base < 2 then [digit_char n]
      else numeral_chars base (n div base) @ [digit_char (n mod base)])"
  by pat_completeness auto
termination
  by (relation "measure snd") auto

declare numeral_chars.simps [simp del]

lemma length_numeral_chars:
  assumes "n < base ^ k" and "0 < k" and "2 \<le> base"
  shows "length (numeral_chars base n) \<le> k"
  using assms
proof (induction k arbitrary: n)
  case (Suc k)
  show ?case
  proof (cases "n < base")
    case True
    then show ?thesis
      by (simp add: numeral_chars.simps [of base n])
  next
    case False
    then have "0 < k"
      using Suc.prems(1) by (cases k) auto
    moreover have "n div base < base ^ k"
      using Suc.prems(1) by (simp add: less_mult_imp_div_less mult.commute)
    ultimately have "length (numeral_chars base (n div base)) \<le> k"
      using Suc.IH Suc.prems(3) by blast
    then show ?thesis
      using False Suc.prems(3) by (simp add: numeral_chars.simps [of base n])
  qed
qed simp

text \<open>A type whose values include the argument does not narrow the quotients.\<close>

lemma narrow_id:
  assumes "0 \<le> x" and "x < 2 ^ (w - 1)" and "0 < w"
  shows "narrow (Unsigned w) x = x" and "narrow (Signed w) x = x"
proof -
  have w: "(2 :: int) ^ w = 2 * 2 ^ (w - 1)"
    using assms(3) by (metis Suc_pred' power_Suc)
  then show "narrow (Unsigned w) x = x"
    using assms by (simp add: mod_pos_pos_trivial)
  have "(x + 2 ^ (w - 1)) mod 2 ^ w = x + 2 ^ (w - 1)"
    using assms w by (intro mod_pos_pos_trivial) auto
  then show "narrow (Signed w) x = x"
    by simp
qed

definition in_type :: "int_type \<Rightarrow> nat \<Rightarrow> bool" where
  "in_type ty n \<longleftrightarrow> n < 2 ^ 64 \<and> (\<forall>m \<le> n. narrow ty (int m) = int m)"

lemma in_type_unsigned: "n < 2 ^ w \<Longrightarrow> w \<le> 64 \<Longrightarrow> in_type (Unsigned w) n"
proof -
  assume n: "n < 2 ^ w" and w: "w \<le> 64"
  have "(2 :: nat) ^ w \<le> 2 ^ 64"
    using w by (intro power_increasing) auto
  moreover have "int m mod 2 ^ w = int m" if "m \<le> n" for m
    using that n by (simp add: mod_pos_pos_trivial)
  ultimately show ?thesis
    using n by (simp add: in_type_def)
qed

lemma in_type_mono: "in_type ty n \<Longrightarrow> m \<le> n \<Longrightarrow> in_type ty m"
  unfolding in_type_def by (meson le_less_trans le_trans)

lemma digits_loop_eq:
  assumes "in_type ty n" and "2 \<le> base" and "length buf + length (numeral_chars base n) \<le> 20"
  shows "digits_loop base ty (int n) buf = Some (buf @ rev (numeral_chars base n))"
  using assms
proof (induction n arbitrary: buf rule: less_induct)
  case (less n)
  have n64: "nat (int n mod 2 ^ 64) = n" and div: "narrow ty (int (n div base)) = int (n div base)"
    using less.prems(1) by (auto simp: in_type_def nat_mod_as_int mod_pos_pos_trivial)
  show ?case
  proof (cases "n < base")
    case True
    then show ?thesis
      using less.prems n64 div
      by (simp add: digits_loop.simps [of base ty "int n"] numeral_chars.simps [of base n] buf_push_def Let_def)
  next
    case False
    have num: "numeral_chars base n = numeral_chars base (n div base) @ [digit_char (n mod base)]"
      using False less.prems(2) by (simp add: numeral_chars.simps [of base n])
    have "n div base < n" and "0 < n div base"
      using False less.prems(2) by (auto simp: div_greater_zero_iff)
    moreover have "in_type ty (n div base)"
      by (rule in_type_mono [OF less.prems(1) div_le_dividend])
    ultimately have "digits_loop base ty (int (n div base)) (buf @ [digit_char (n mod base)]) =
        Some ((buf @ [digit_char (n mod base)]) @ rev (numeral_chars base (n div base)))"
      using less.prems num by (intro less.IH) auto
    then show ?thesis
      using num n64 div less.prems(3) \<open>0 < n div base\<close>
      by (simp add: digits_loop.simps [of base ty "int n"] buf_push_def Let_def)
  qed
qed

lemma length_decimal: "n < 2 ^ 64 \<Longrightarrow> length (numeral_chars 10 n) \<le> 20"
  and length_hex: "n < 2 ^ 64 \<Longrightarrow> length (numeral_chars 16 n) \<le> 16"
  by (rule length_numeral_chars; simp)+

text \<open>The characters of a decimal numeral and its value.\<close>

fun decimal_value :: "nat \<Rightarrow> char list \<Rightarrow> nat" where
  "decimal_value acc [] = acc"
| "decimal_value acc (c # cs) = decimal_value (acc * 10 + nat (char_int c - 48)) cs"

definition is_digit :: "char \<Rightarrow> bool" where
  "is_digit c \<longleftrightarrow> 48 \<le> char_int c \<and> char_int c \<le> 57"

lemma char_int_digit [simp]: "d < 10 \<Longrightarrow> char_int (digit_char d) = 48 + int d"
  by (simp add: char_int_def digit_char_def)

lemma is_digit_digit_char [simp]: "d < 10 \<Longrightarrow> is_digit (digit_char d)"
  by (simp add: is_digit_def)

lemma char_int_bounds: "- 128 \<le> char_int c" "char_int c < 128"
proof -
  define n :: nat where "n = of_char c"
  have "n < 256"
    by (simp add: n_def)
  moreover have "char_int c = (if n < 128 then int n else int n - 256)"
    by (simp add: char_int_def Let_def n_def)
  ultimately show "- 128 \<le> char_int c" "char_int c < 128"
    by auto
qed

lemma isdigit_char_int: "isdigit (char_int c) \<longleftrightarrow> is_digit c"
  using int_range [of "char_int c" 48 10] char_int_bounds [of c]
  by (auto simp: isdigit_def is_digit_def)

lemma decimal_value_append:
  "decimal_value acc (xs @ ys) = decimal_value (decimal_value acc xs) ys"
  by (induction xs arbitrary: acc) simp_all

lemma numeral_chars_digits: "c \<in> set (numeral_chars 10 n) \<Longrightarrow> is_digit c"
proof (induction n rule: less_induct)
  case (less n)
  then show ?case
    using less.IH [of "n div 10"] by (cases "n < 10") (auto simp: numeral_chars.simps [of 10 n])
qed

lemma decimal_value_numeral: "decimal_value 0 (numeral_chars 10 n) = n"
proof (induction n rule: less_induct)
  case (less n)
  then show ?case
    by (cases "n < 10") (simp_all add: numeral_chars.simps [of 10 n] decimal_value_append)
qed

lemma decimal_value_mono: "acc \<le> decimal_value acc cs"
proof (induction cs arbitrary: acc)
  case (Cons c cs)
  have "acc \<le> acc * 10 + nat (char_int c - 48)"
    by simp
  also have "\<dots> \<le> decimal_value (acc * 10 + nat (char_int c - 48)) cs"
    by (rule Cons.IH)
  finally show ?case
    by simp
qed simp

lemma cast_loop_eq:
  "cast_loop ret cs =
     (if (\<forall>c \<in> set cs. is_digit c) \<and> (cs = [] \<or> decimal_value ret cs < 2 ^ 64)
      then Some (decimal_value ret cs) else None)"
proof (induction cs arbitrary: ret)
  case (Cons c cs)
  let ?r = "ret * 10 + nat (char_int c - 48)"
  have mono: "?r \<le> decimal_value ?r cs"
    by (rule decimal_value_mono)
  show ?case
  proof (cases "is_digit c \<and> ?r < 2 ^ 64")
    case True
    moreover have "ret * 10 < 2 ^ 64"
      using True by linarith
    ultimately have "cast_loop ret (c # cs) = cast_loop ?r cs"
      by (simp add: is_digit_def)
    then show ?thesis
      using True Cons.IH [of ?r] by (cases cs) auto
  next
    case False
    then have "cast_loop ret (c # cs) = None"
      by (auto simp: is_digit_def)
    moreover have "\<not> decimal_value ?r cs < 2 ^ 64" if "is_digit c"
      using that False mono by linarith
    ultimately show ?thesis
      by auto
  qed
qed simp

text \<open>
  C35. Reading an unsigned number accepts exactly the strings of decimal digits whose value fits in
  64 bits, the empty string among them, and gives that value; everything else is refused, so no
  number is ever read wrongly because of overflow.
\<close>

theorem cast_size_exact:
  "cast_size cs =
     (if (\<forall>c \<in> set cs. is_digit c) \<and> decimal_value 0 cs < 2 ^ 64
      then Some (decimal_value 0 cs) else None)"
  by (auto simp: cast_size_def cast_loop_eq)

theorem cast_size_exact_witness: "cast_size ''42'' = Some 42 \<and> cast_size ''4x'' = None"
  using cast_size_exact [of "''42''"] cast_size_exact [of "''4x''"]
  by (simp add: is_digit_def char_int_def)



text \<open>
  Negative numbers are printed wrongly: the digits are taken from the value converted to 64
  bits, but the quotient is converted back to the narrower type, which here makes it negative
  and ends the loop after one digit.
\<close>

theorem format_negative_wrong:
  "append_single [NUL, NUL, NUL, NUL] (IntArg (Signed 32) (- 1)) [] = Some ''5''"
proof -
  have "char_of (53 :: nat) = CHR ''5''"
    by code_simp
  then have "digits_loop 10 (Signed 32) (- 1) [] = Some ''5''"
    by (simp add: digits_loop.simps [of 10 "Signed 32" "- 1"] buf_push_def Let_def digit_char_def)
  then show ?thesis
    by (simp add: append_single_def append_single_int_def)
qed

section \<open>atoi and strtoul\<close>

lemma atoi_loop_eq:
  assumes "\<forall>c \<in> set cs. is_digit c" and "decimal_value k cs \<le> 2 ^ 31"
    and "case rest of [] \<Rightarrow> True | c # _ \<Rightarrow> \<not> is_digit c"
  shows "atoi_loop (- int k) (cs @ rest) = Some (- int (decimal_value k cs))"
  using assms(1,2)
proof (induction cs arbitrary: k)
  case Nil
  then show ?case
    using assms(3) by (cases rest) (simp_all add: isdigit_char_int)
next
  case (Cons c cs)
  let ?k = "k * 10 + nat (char_int c - 48)"
  have d: "is_digit c"
    using Cons.prems(1) by simp
  have "?k \<le> 2 ^ 31"
    using decimal_value_mono [of ?k cs] Cons.prems(2) by simp
  moreover have "- int k * 10 - (char_int c - 48) = - int ?k"
    using d by (simp add: is_digit_def)
  ultimately have "int32 (- int k * 10) = Some (- int k * 10)"
    and "int32 (- int k * 10 - (char_int c - 48)) = Some (- int ?k)"
    using d by (auto simp: int32_def is_digit_def)
  then show ?case
    using Cons.IH [of ?k] Cons.prems d by (simp add: isdigit_char_int)
qed

lemma is_digit_not_space: "is_digit c \<Longrightarrow> \<not> isspace (char_int c)"
  using int_range [of "char_int c" 9 5] char_int_bounds [of c] by (auto simp: isspace_def is_digit_def)

lemma numeral_chars_Cons: "\<exists>c cs. numeral_chars base n = c # cs"
  by (cases "numeral_chars base n") (auto simp: numeral_chars.simps [of base n] split: if_splits)

lemma atoi_numeral:
  assumes "- (2 ^ 31) \<le> n" and "n < 2 ^ 31" and "\<forall>c \<in> set spaces. isspace (char_int c)"
    and "case rest of [] \<Rightarrow> True | c # _ \<Rightarrow> \<not> is_digit c"
  shows "atoi (spaces @ (if n < 0 then ''-'' else []) @ numeral_chars 10 (nat \<bar>n\<bar>) @ rest) = Some n"
proof -
  let ?num = "numeral_chars 10 (nat \<bar>n\<bar>)"
  obtain c cs where num: "?num = c # cs" and c: "is_digit c"
    using numeral_chars_Cons numeral_chars_digits by (metis list.set_intros(1))
  have skip: "dropWhile (\<lambda>c. isspace (char_int c)) (spaces @ xs) = dropWhile (\<lambda>c. isspace (char_int c)) xs" for xs
    using assms(3) by (simp add: dropWhile_append2)
  have loop: "atoi_loop 0 (?num @ rest) = Some (- \<bar>n\<bar>)"
    using atoi_loop_eq [of ?num 0 rest] numeral_chars_digits assms decimal_value_numeral by simp
  have minus: "char_int CHR ''-'' = 45" "\<not> isspace 45"
    using int_range [of 45 9 5] by (simp_all add: char_int_def isspace_def)
  show ?thesis
  proof (cases "n < 0")
    case True
    then show ?thesis
      using loop minus by (simp add: atoi_def skip Let_def)
  next
    case False
    then have "dropWhile (\<lambda>c. isspace (char_int c)) (?num @ rest) = ?num @ rest"
      using num is_digit_not_space [OF c] by simp
    moreover have "front (?num @ rest) \<noteq> 45" "front (?num @ rest) \<noteq> 43"
      using num c by (auto simp: is_digit_def)
    ultimately show ?thesis
      using loop False assms(2) by (simp add: atoi_def skip Let_def int32_def)
  qed
qed

text \<open>
  C37. \<open>atoi\<close> reads every number that an \<open>int\<close> can hold, the smallest one included, with any white
  space in front and any text that does not start with a digit behind.
\<close>

theorem atoi_reads_ints:
  assumes "- (2 ^ 31) \<le> n" and "n < 2 ^ 31" and "\<forall>c \<in> set spaces. isspace (char_int c)"
    and "case rest of [] \<Rightarrow> True | c # _ \<Rightarrow> \<not> is_digit c"
  shows "atoi (spaces @ (if n < 0 then ''-'' else []) @ numeral_chars 10 (nat \<bar>n\<bar>) @ rest) = Some n"
  using assms by (rule atoi_numeral)

theorem atoi_reads_ints_witness: "atoi ''  -7;'' = Some (- 7)"
proof -
  have "numeral_chars 10 7 = ''7''"
    by (simp add: numeral_chars.simps [of 10 7] digit_char_def) code_simp
  moreover have "isspace (char_int CHR '' '')" "\<not> is_digit CHR '';''"
    by (simp_all add: char_int_def isspace_def is_digit_def)
  ultimately show ?thesis
    using atoi_reads_ints [of "- 7" "''  ''" "'';''"] by simp
qed

lemma strtoul_loop_eq:
  assumes "\<forall>c \<in> set cs. is_digit c" and "decimal_value k cs \<le> 18446744073709551619"
  shows "strtoul_loop 10 (k mod 2 ^ 64) pos e cs =
    (decimal_value k cs mod 2 ^ 64, if cs = [] then e else pos + int (length cs) - 2, False)"
  using assms
proof (induction cs arbitrary: k pos e)
  case (Cons c cs)
  let ?k = "k * 10 + nat (char_int c - 48)"
  have d: "is_digit c"
    using Cons.prems(1) by simp
  have "?k \<le> 18446744073709551619"
    using decimal_value_mono [of ?k cs] Cons.prems(2) by simp
  then have k: "k \<le> 1844674407370955161"
    by linarith
  have step: "add64 (mul64 (k mod 2 ^ 64) 10) (nat (char_int c - 48)) = ?k mod 2 ^ 64"
    by (simp add: add64_def mul64_def mod_simps)
  have "k mod 2 ^ 64 = k" "nat (char_int c - 48) \<le> 9"
    using k d by (auto simp: is_digit_def)
  then have "\<not> k mod 2 ^ 64 > (2 ^ 64 - 1) div nat 10" "\<not> nat (char_int c - 48) > (2 ^ 64 - 1) div nat 10"
    using k by (auto simp del: One_nat_def)
  moreover have "isdigit (char_int c)" "\<not> 10 \<le> char_int c - 48"
    using d isdigit_char_int by (auto simp: is_digit_def)
  ultimately have "strtoul_loop 10 (k mod 2 ^ 64) pos e (c # cs) =
      strtoul_loop 10 (?k mod 2 ^ 64) (pos + 1) (pos - 1) cs"
    using step by (simp only: strtoul_loop.simps Let_def if_True if_False simp_thms) simp
  then show ?case
    using Cons.IH [of ?k "pos + 1" "pos - 1"] Cons.prems by auto
qed simp

text \<open>
  \<open>strtoul\<close> does not notice every overflow and reports the wrong end: the limit for the last
  digit is a quotient where a remainder was meant, so the values up to three above \<open>2 ^ 64\<close>
  wrap around to a small number without an error; and the end of the number is given as two
  characters before where it is.
\<close>

theorem strtoul_unnoticed_overflow:
  assumes "cs \<noteq> []" and "\<forall>c \<in> set cs. is_digit c" and "decimal_value 0 cs \<le> 18446744073709551619"
  shows "strtoul cs 10 = Some (decimal_value 0 cs mod 2 ^ 64, int (length cs) - 2, False)"
proof -
  obtain c cs' where c: "cs = c # cs'" "is_digit c"
    using assms(1,2) by (cases cs) auto
  then have "takeWhile (\<lambda>c. isspace (char_int c)) cs = []" "front cs \<noteq> 45" "front cs \<noteq> 43"
    using is_digit_not_space by (auto simp: is_digit_def)
  then show ?thesis
    using strtoul_loop_eq [OF assms(2,3), of 0 0] assms(1) by (simp add: strtoul_def Let_def)
qed

theorem strtoul_unnoticed_overflow_witness:
  "strtoul ''18446744073709551616'' 10 = Some (0, 18, False)"
proof -
  have "\<forall>c \<in> set ''18446744073709551616''. is_digit c"
    by (simp add: is_digit_def char_int_def)
  moreover have "decimal_value 0 ''18446744073709551616'' = 18446744073709551616"
    by (simp add: char_int_def)
  ultimately have "strtoul ''18446744073709551616'' 10 =
      Some (18446744073709551616 mod 2 ^ 64, int (length ''18446744073709551616'') - 2, False)"
    using strtoul_unnoticed_overflow [of "''18446744073709551616''"] by (simp only:) simp
  then show ?thesis
    by simp
qed

end
