(* ===== verification/Stdio.thy ===== *)
theory Stdio
  imports Numbers
begin

text \<open>
  Formatted output and streams of the C library, \<^verbatim>\<open>src/libs/posix/stdio.cc\<close>.

  \<open>printf_impl\<close> is modelled with the characters it writes, in order, and the length it
  counts; a limit, when there is one, is compared with the count. The variable arguments are
  a list, and taking one that is missing or of the wrong kind is undefined. The streams are
  modelled over the system calls they use, which are parameters.
\<close>

section \<open>printf\<close>

datatype va_arg = VaInt int | VaStr "char list"

record printf_state =
  pf_len :: nat
  pf_out :: "char list"
  pf_args :: "va_arg list"

record format_spec =
  fs_has_dot :: bool
  fs_left_pad :: bool
  fs_long_qualifiers :: nat
  fs_field_width :: nat

definition pf_put_char :: "nat option \<Rightarrow> char \<Rightarrow> printf_state \<Rightarrow> printf_state" where
  "pf_put_char max_len ch st =
     (case max_len of
        Some m \<Rightarrow> if pf_len st \<ge> m then st else st\<lparr>pf_out := pf_out st @ [ch]\<rparr>
      | None \<Rightarrow> st\<lparr>pf_out := pf_out st @ [ch]\<rparr>)"

definition pf_put_string ::
  "nat option \<Rightarrow> format_spec \<Rightarrow> char list \<Rightarrow> printf_state \<Rightarrow> printf_state" where
  "pf_put_string max_len spec string st =
     (let n = length string;
          width = (if \<not> fs_has_dot spec \<and> (fs_field_width spec = 0 \<or> fs_field_width spec < n)
                   then n else fs_field_width spec);
          pad_amount = (if width > n then width - n else 0);
          pad = fold (pf_put_char max_len) (replicate pad_amount CHR '' '');
          st1 = (if \<not> fs_left_pad spec then pad st else st);
          st2 = fold (pf_put_char max_len) (take (min n width) string) st1;
          st3 = (if fs_left_pad spec then pad st2 else st2)
      in st3\<lparr>pf_len := pf_len st3 + width\<rparr>)"

text \<open>The number that \<^verbatim>\<open>d\<close>, \<^verbatim>\<open>u\<close> and \<^verbatim>\<open>x\<close> print: its sign and its magnitude.\<close>

definition number_arg :: "char \<Rightarrow> nat \<Rightarrow> int \<Rightarrow> (bool \<times> nat) option" where
  "number_arg p long_qualifiers arg =
     (if p = CHR ''d''
      then let n = (if long_qualifiers \<ge> 2 then narrow (Signed 64) arg else narrow (Signed 32) arg)
           in if n = - (2 ^ 63) then None else Some (n < 0, nat \<bar>n\<bar>)
      else Some (False, nat (if long_qualifiers \<ge> 2 then narrow (Unsigned 64) arg
                             else narrow (Unsigned 32) arg)))"

definition number_string :: "char \<Rightarrow> nat \<Rightarrow> int \<Rightarrow> char list option" where
  "number_string p long_qualifiers arg = do {
     (negative, num) \<leftarrow> number_arg p long_qualifiers arg;
     let base = (if p = CHR ''x'' then 16 else 10);
     buf \<leftarrow> digits_loop base (Unsigned 64) (int num) [];
     buf1 \<leftarrow> (if base = 16 then do { b \<leftarrow> buf_push (CHR ''x'') buf; buf_push (CHR ''0'') b } else Some buf);
     buf2 \<leftarrow> (if negative then buf_push (CHR ''-'') buf1 else Some buf1);
     Some (rev buf2)
   }"

definition conversion ::
  "nat option \<Rightarrow> format_spec \<Rightarrow> char \<Rightarrow> printf_state \<Rightarrow> printf_state option" where
  "conversion max_len spec p st =
     (if p = CHR ''%'' then let st' = pf_put_char max_len p st in Some (st'\<lparr>pf_len := pf_len st' + 1\<rparr>)
      else if p = CHR ''c'' then
        (case pf_args st of
           VaInt c # args \<Rightarrow>
             Some (pf_put_string max_len spec [char_of (nat (c mod 256))] (st\<lparr>pf_args := args\<rparr>))
         | _ \<Rightarrow> None)
      else if p \<in> set ''dux'' then
        (case pf_args st of
           VaInt n # args \<Rightarrow> do {
             s \<leftarrow> number_string p (fs_long_qualifiers spec) n;
             Some (pf_put_string max_len spec s (st\<lparr>pf_args := args\<rparr>))
           }
         | _ \<Rightarrow> None)
      else if p = CHR ''s'' then
        (case pf_args st of
           VaStr s # args \<Rightarrow> Some (pf_put_string max_len spec s (st\<lparr>pf_args := args\<rparr>))
         | _ \<Rightarrow> None)
      else Some st)"

text \<open>
  The characters after a percent sign. A flag is followed by more of the specification unless
  the format ends there, in which case it is taken for the conversion. The result is the state
  and the rest of the format.
\<close>

fun spec_loop ::
  "nat option \<Rightarrow> format_spec \<Rightarrow> char list \<Rightarrow> printf_state \<Rightarrow> (char list \<times> printf_state) option" where
  "spec_loop max_len spec [] st = None"
| "spec_loop max_len spec [p] st =
     (if p = CHR ''*''
      then (case pf_args st of
              VaInt n # args \<Rightarrow> Some ([], st\<lparr>pf_args := args\<rparr>)
            | _ \<Rightarrow> None)
      else do { st' \<leftarrow> conversion max_len spec p st; Some ([], st') })"
| "spec_loop max_len spec (p # q # fmt) st =
     (if p = CHR ''.'' then spec_loop max_len (spec\<lparr>fs_has_dot := True\<rparr>) (q # fmt) st
      else if p = CHR ''-'' then spec_loop max_len (spec\<lparr>fs_left_pad := True\<rparr>) (q # fmt) st
      else if p = CHR ''*'' then
        (case pf_args st of
           VaInt n # args \<Rightarrow>
             spec_loop max_len (spec\<lparr>fs_field_width := nat (n mod 2 ^ 64)\<rparr>) (q # fmt)
               (st\<lparr>pf_args := args\<rparr>)
         | _ \<Rightarrow> None)
      else if 48 \<le> char_int p \<and> char_int p \<le> 57 then
        spec_loop max_len
          (spec\<lparr>fs_field_width := add64 (mul64 (fs_field_width spec) 10) (nat (char_int p - 48))\<rparr>)
          (q # fmt) st
      else if p = CHR ''l'' then
        spec_loop max_len (spec\<lparr>fs_long_qualifiers := fs_long_qualifiers spec + 1\<rparr>) (q # fmt) st
      else do { st' \<leftarrow> conversion max_len spec p st; Some (q # fmt, st') })"

lemma spec_loop_shorter:
  "spec_loop max_len spec fmt st = Some (rest, st') \<Longrightarrow> length rest < length fmt"
  by (induction max_len spec fmt st rule: spec_loop.induct)
    (auto split: if_splits list.splits va_arg.splits Option.bind_splits)

abbreviation no_spec :: format_spec where
  "no_spec \<equiv> \<lparr>fs_has_dot = False, fs_left_pad = False, fs_long_qualifiers = 0, fs_field_width = 0\<rparr>"

function printf_loop :: "nat option \<Rightarrow> char list \<Rightarrow> printf_state \<Rightarrow> printf_state option" where
  "printf_loop max_len [] st = Some st"
| "printf_loop max_len (p # fmt) st =
     (if p \<noteq> CHR ''%'' \<or> fmt = []
      then let st' = pf_put_char max_len p st in printf_loop max_len fmt (st'\<lparr>pf_len := pf_len st' + 1\<rparr>)
      else do { (rest, st') \<leftarrow> spec_loop max_len no_spec fmt st; printf_loop max_len rest st' })"
  by pat_completeness auto
termination
  by (relation "measure (\<lambda>(_, fmt, _). length fmt)") (auto dest: spec_loop_shorter)

text \<open>The characters written and the count that is returned.\<close>

definition printf_impl ::
  "char list \<Rightarrow> va_arg list \<Rightarrow> nat option \<Rightarrow> (char list \<times> int) option" where
  "printf_impl fmt args max_len = do {
     st \<leftarrow> printf_loop max_len fmt \<lparr>pf_len = 0, pf_out = [], pf_args = args\<rparr>;
     Some (pf_out st, narrow (Signed 32) (int (pf_len st)))
   }"

text \<open>
  \<open>vsprintf\<close> and \<open>vsnprintf\<close> write into memory: the result is the bytes written from the start
  of the buffer, the index where the terminator is stored, and the value returned.
\<close>

definition vsprintf :: "char list \<Rightarrow> va_arg list \<Rightarrow> (char list \<times> nat \<times> int) option" where
  "vsprintf fmt args = do {
     (out, ret) \<leftarrow> printf_impl fmt args None;
     Some (out, length out, ret)
   }"

definition vsnprintf ::
  "nat \<Rightarrow> char list \<Rightarrow> va_arg list \<Rightarrow> (char list \<times> nat option \<times> int) option" where
  "vsnprintf size' fmt args = do {
     let max_len = (if size' \<noteq> 0 then size' - 1 else 0);
     (out, ret) \<leftarrow> printf_impl fmt args (Some max_len);
     let r = nat (ret mod 2 ^ 64);
     Some (out, if r < max_len then Some r else if size' > 0 then Some (size' - 1) else None, ret)
   }"

section \<open>Output without a limit\<close>

lemma fold_put_char [simp]:
  "fold (pf_put_char None) xs st = st\<lparr>pf_out := pf_out st @ xs\<rparr>"
  by (induction xs arbitrary: st) (simp_all add: pf_put_char_def)

definition counted :: "printf_state \<Rightarrow> bool" where
  "counted st \<longleftrightarrow> pf_len st = length (pf_out st)"

lemma counted_put_string: "counted st \<Longrightarrow> counted (pf_put_string None spec s st)"
  by (auto simp: counted_def pf_put_string_def Let_def simp del: fold_replicate)

lemma counted_conversion:
  assumes "conversion None spec p st = Some st'" and "counted st"
  shows "counted st'"
  using assms
  by (auto simp: conversion_def Let_def counted_def pf_put_char_def
      intro!: counted_put_string [unfolded counted_def]
      split: if_splits list.splits va_arg.splits Option.bind_splits)

lemma counted_spec_loop:
  assumes "spec_loop None spec fmt st = Some (rest, st')" and "counted st"
  shows "counted st'"
proof -
  have "max_len = None \<Longrightarrow> spec_loop max_len spec fmt st = Some (rest, st') \<Longrightarrow> counted st \<Longrightarrow> counted st'"
    for max_len
  proof (induction max_len spec fmt st rule: spec_loop.induct)
    case (2 max_len spec p st)
    then show ?case
      by (auto simp: counted_def dest: counted_conversion [unfolded counted_def]
          split: if_splits list.splits va_arg.splits Option.bind_splits)
  next
    case (3 max_len spec p q fmt st)
    then show ?case
      by (auto simp: counted_def dest: counted_conversion [unfolded counted_def]
          split: if_splits list.splits va_arg.splits Option.bind_splits)
  qed simp
  then show ?thesis
    using assms by blast
qed

lemma counted_printf_loop:
  assumes "printf_loop None fmt st = Some st'" and "counted st"
  shows "counted st'"
proof -
  have "max_len = None \<Longrightarrow> printf_loop max_len fmt st = Some st' \<Longrightarrow> counted st \<Longrightarrow> counted st'" for max_len
  proof (induction max_len fmt st rule: printf_loop.induct)
    case (2 max_len p fmt st)
    then show ?case
      by (auto simp: Let_def counted_def pf_put_char_def dest: counted_spec_loop [unfolded counted_def]
          split: if_splits Option.bind_splits)
  qed simp
  then show ?thesis
    using assms by blast
qed

text \<open>
  Without a limit, \<open>printf\<close> returns the number of characters it wrote, whatever the format and
  its arguments, as long as that number fits in an \<open>int\<close>, and \<open>sprintf\<close> puts the terminator
  right behind them.
\<close>

theorem printf_returns_length:
  assumes "vsprintf fmt args = Some (out, terminator, ret)"
  shows "terminator = length out \<and> (length out < 2 ^ 31 \<longrightarrow> ret = int (length out))"
proof -
  obtain st where st: "printf_loop None fmt \<lparr>pf_len = 0, pf_out = [], pf_args = args\<rparr> = Some st"
    "out = pf_out st" "terminator = length out" "ret = narrow (Signed 32) (int (pf_len st))"
    using assms by (auto simp: vsprintf_def printf_impl_def split: Option.bind_splits)
  have "pf_len st = length out"
    using counted_printf_loop [OF st(1)] st(2) by (simp add: counted_def)
  then show ?thesis
    using st narrow_id(2) [of "int (length out)" 32] by simp
qed

theorem printf_returns_length_witness:
  "vsprintf ''a%%'' [] = Some (''a%'', 2, 2)"
proof -
  have "\<exists>ret. vsprintf ''a%%'' [] = Some (''a%'', 2, ret)"
    by (simp add: vsprintf_def printf_impl_def pf_put_char_def conversion_def Let_def)
  then show ?thesis
    using printf_returns_length [of "''a%%''" "[]" "''a%''" 2] by auto
qed

lemma number_string_d:
  assumes "- (2 ^ 31) \<le> n" and "n < 2 ^ 31" and "lq < 2"
  shows "number_string CHR ''d'' lq n = Some ((if n < 0 then ''-'' else []) @ numeral_chars 10 (nat \<bar>n\<bar>))"
proof -
  have "narrow (Signed 32) n = n"
    using assms by simp
  then have arg: "number_arg CHR ''d'' lq n = Some (n < 0, nat \<bar>n\<bar>)"
    using assms by (simp add: number_arg_def)
  have len: "length (numeral_chars 10 (nat \<bar>n\<bar>)) \<le> 10"
    using assms by (intro length_numeral_chars) auto
  have "nat \<bar>n\<bar> < 2 ^ 64"
    using assms by auto
  then have "digits_loop 10 (Unsigned 64) (int (nat \<bar>n\<bar>)) [] = Some (rev (numeral_chars 10 (nat \<bar>n\<bar>)))"
    using digits_loop_eq [OF in_type_unsigned, of "nat \<bar>n\<bar>" 64 10 "[]"] len by simp
  then show ?thesis
    using arg len by (cases "n < 0") (simp_all add: number_string_def buf_push_def)
qed

text \<open>
  C38. Printing an \<open>int\<close> with \<^verbatim>\<open>%d\<close> and reading the text with \<open>atoi\<close> gives the number back.
\<close>

theorem printf_atoi_roundtrip:
  assumes "- (2 ^ 31) \<le> n" and "n < 2 ^ 31"
  shows "\<exists>out ret. printf_impl ''%d'' [VaInt n] None = Some (out, ret) \<and> atoi out = Some n"
proof -
  let ?s = "(if n < 0 then ''-'' else []) @ numeral_chars 10 (nat \<bar>n\<bar>)"
  have "conversion None no_spec CHR ''d'' \<lparr>pf_len = 0, pf_out = [], pf_args = [VaInt n]\<rparr> =
      Some (pf_put_string None no_spec ?s \<lparr>pf_len = 0, pf_out = [], pf_args = []\<rparr>)"
    using number_string_d [OF assms, of 0] by (simp add: conversion_def)
  moreover have "pf_out (pf_put_string None no_spec ?s \<lparr>pf_len = 0, pf_out = [], pf_args = []\<rparr>) = ?s"
    by (simp add: pf_put_string_def Let_def)
  moreover have "atoi ?s = Some n"
    using atoi_numeral [OF assms, of "[]" "[]"] by simp
  ultimately show ?thesis
    by (simp add: printf_impl_def)
qed

theorem printf_atoi_roundtrip_witness:
  "\<exists>out ret. printf_impl ''%d'' [VaInt (- 2147483648)] None = Some (out, ret) \<and> atoi out = Some (- 2147483648)"
  using printf_atoi_roundtrip [of "- 2147483648"] by simp

section \<open>Output with a limit\<close>

lemma fold_put_char_below:
  "pf_len st < m \<Longrightarrow> fold (pf_put_char (Some m)) xs st = st\<lparr>pf_out := pf_out st @ xs\<rparr>"
  by (induction xs arbitrary: st) (simp_all add: pf_put_char_def)

text \<open>
  The limit of \<open>snprintf\<close> does not hold for conversions: the count is compared with the limit
  before each character but only grows after the whole conversion, so a string argument is
  written in full however small the buffer is, as soon as the buffer has room for one character
  and the terminator.
\<close>

theorem snprintf_overruns:
  assumes "1 < size'"
  shows "\<exists>terminator ret. vsnprintf size' ''%s'' [VaStr s] = Some (s, terminator, ret)"
proof -
  let ?st = "\<lparr>pf_len = 0, pf_out = [], pf_args = []\<rparr>"
  have "conversion (Some (size' - 1)) no_spec CHR ''s'' \<lparr>pf_len = 0, pf_out = [], pf_args = [VaStr s]\<rparr> =
      Some (pf_put_string (Some (size' - 1)) no_spec s ?st)"
    by (simp add: conversion_def)
  moreover have "pf_out (pf_put_string (Some (size' - 1)) no_spec s ?st) = s"
    using assms fold_put_char_below [of ?st "size' - 1" s]
    by (simp add: pf_put_string_def Let_def)
  ultimately show ?thesis
    using assms by (simp add: vsnprintf_def printf_impl_def Let_def)
qed

theorem snprintf_overruns_witness:
  "\<exists>terminator ret. vsnprintf 2 ''%s'' [VaStr ''overflow''] = Some (''overflow'', terminator, ret)"
  using snprintf_overruns [of 2 "''overflow''"] by simp

section \<open>Streams\<close>

record stream =
  m_error :: nat
  m_eof :: bool

fun to_errno :: "kerror \<Rightarrow> nat" where
  "to_errno BadFd = 9"
| "to_errno NonExistent = 2"
| "to_errno BrokenHandle = 5"
| "to_errno Invalid = 22"
| "to_errno NoExec = 8"
| "to_errno NotDirectory = 20"
| "to_errno AlreadyExists = 17"
| "to_errno Busy = 16"

text \<open>
  The read system call on the stream's file, with the bytes it delivers, and the write system
  call, with the number of bytes it takes, over a state of the kernel.
\<close>

type_synonym 'k sys_read = "nat \<Rightarrow> 'k \<Rightarrow> (kerror + u8 list) \<times> 'k"
type_synonym 'k sys_write = "u8 list \<Rightarrow> 'k \<Rightarrow> (kerror + nat) \<times> 'k"

text \<open>
  \<open>FILE::gets\<close> reads single bytes; the buffer receives the bytes and the terminator. When the
  read fails, the result's value is asked for all the same, which fails an assertion.
\<close>

fun gets_loop ::
  "'k sys_read \<Rightarrow> nat \<Rightarrow> u8 list \<Rightarrow> stream \<Rightarrow> 'k \<Rightarrow> (bool \<times> u8 list \<times> stream \<times> 'k) option" where
  "gets_loop sysread 0 data f k = Some (data \<noteq> [], data @ [0], f, k)"
| "gets_loop sysread (Suc n) data f k =
     (case sysread 1 k of
        (Inl e, k') \<Rightarrow> None
      | (Inr bytes, k') \<Rightarrow>
          if bytes = [] then Some (data \<noteq> [], data @ [0], f\<lparr>m_eof := True\<rparr>, k')
          else gets_loop sysread n (data @ [hd bytes]) f k')"

definition file_gets ::
  "'k sys_read \<Rightarrow> int \<Rightarrow> stream \<Rightarrow> 'k \<Rightarrow> (bool \<times> u8 list \<times> stream \<times> 'k) option" where
  "file_gets sysread size' f k =
     (if size' = 0 then Some (False, [], f, k) else gets_loop sysread (nat (size' - 1)) [] f k)"

text \<open>
  \<open>FILE::read\<close> and \<open>FILE::write\<close> repeat the system call for what is left, with the same
  address each time. \<open>data\<close> is the caller's memory.
\<close>

partial_function (option) file_read ::
  "'k sys_read \<Rightarrow> nat \<Rightarrow> nat \<Rightarrow> u8 list \<Rightarrow> stream \<Rightarrow> 'k \<Rightarrow> (nat \<times> u8 list \<times> stream \<times> 'k) option" where
  "file_read sysread size' moved data f k =
     (if size' > 0
      then (case sysread size' k of
              (Inl e, k') \<Rightarrow> None
            | (Inr bytes, k') \<Rightarrow>
                if bytes = [] then Some (moved, data, f\<lparr>m_eof := True\<rparr>, k')
                else file_read sysread (size' - length bytes) (moved + length bytes)
                       (mem_write 0 bytes data) f k')
      else Some (moved, data, f, k))"

partial_function (option) file_write ::
  "'k sys_write \<Rightarrow> nat \<Rightarrow> nat \<Rightarrow> u8 list \<Rightarrow> stream \<Rightarrow> 'k \<Rightarrow> (nat \<times> stream \<times> 'k) option" where
  "file_write syswrite size' moved data f k =
     (if size' > 0
      then (case syswrite (take size' data) k of
              (Inl e, k') \<Rightarrow> Some (moved, f\<lparr>m_error := to_errno e\<rparr>, k')
            | (Inr n, k') \<Rightarrow> file_write syswrite (size' - n) (moved + n) data f k')
      else Some (moved, f, k))"

datatype ub_seek_mode = SeekSet | SeekAdd

fun seek_mode :: "nat \<Rightarrow> ub_seek_mode option" where
  "seek_mode whence = (if whence = 0 then Some SeekSet else if whence = 1 then Some SeekAdd else None)"

type_synonym 'k sys_seek = "int \<Rightarrow> ub_seek_mode \<Rightarrow> 'k \<Rightarrow> (kerror + int) \<times> 'k"

text \<open>\<open>SEEK_SET\<close>, \<open>SEEK_CUR\<close> and \<open>SEEK_END\<close> are 0, 1 and 2.\<close>

definition file_seek :: "'k sys_seek \<Rightarrow> int \<Rightarrow> nat \<Rightarrow> stream \<Rightarrow> 'k \<Rightarrow> (int \<times> stream \<times> 'k) option" where
  "file_seek sysseek offset whence f k = do {
     ensure (whence \<noteq> 2);
     m \<leftarrow> seek_mode whence;
     case sysseek offset m k of
       (Inl e, k') \<Rightarrow> Some (- 1, f, k')
     | (Inr p, k') \<Rightarrow> Some (0, f\<lparr>m_eof := False\<rparr>, k')
   }"

definition file_tell :: "'k sys_seek \<Rightarrow> 'k \<Rightarrow> (int \<times> 'k) option" where
  "file_tell sysseek k =
     (case sysseek 0 SeekAdd k of (Inl e, k') \<Rightarrow> None | (Inr p, k') \<Rightarrow> Some (p, k'))"

definition fread ::
  "'k sys_read \<Rightarrow> u8 list \<Rightarrow> nat \<Rightarrow> nat \<Rightarrow> stream \<Rightarrow> 'k \<Rightarrow> (nat \<times> u8 list \<times> stream \<times> 'k) option" where
  "fread sysread data size' count f k = do {
     (n, data', f', k') \<leftarrow> file_read sysread (mul64 size' count) 0 data f k;
     ensure (size' \<noteq> 0);
     Some (n div size', data', f', k')
   }"

definition fwrite ::
  "'k sys_write \<Rightarrow> u8 list \<Rightarrow> nat \<Rightarrow> nat \<Rightarrow> stream \<Rightarrow> 'k \<Rightarrow> (nat \<times> stream \<times> 'k) option" where
  "fwrite syswrite data size' count f k = do {
     (n, f', k') \<leftarrow> file_write syswrite (mul64 size' count) 0 data f k;
     ensure (size' \<noteq> 0);
     Some (n div size', f', k')
   }"

text \<open>End of file is \<open>- 1\<close>; a byte is promoted from a signed \<open>char\<close>.\<close>

definition fgetc :: "'k sys_read \<Rightarrow> stream \<Rightarrow> 'k \<Rightarrow> (int \<times> stream \<times> 'k) option" where
  "fgetc sysread f k = do {
     (n, data, f', k') \<leftarrow> fread sysread [0] 1 1 f k;
     Some (if n = 1 then sint (hd data) else - 1, f', k')
   }"

definition fputc :: "'k sys_write \<Rightarrow> int \<Rightarrow> stream \<Rightarrow> 'k \<Rightarrow> (int \<times> stream \<times> 'k) option" where
  "fputc syswrite c f k = do {
     let ch = word_of_int c;
     (n, f', k') \<leftarrow> file_write syswrite 1 0 [ch] f k;
     Some (if n = 1 then uint ch else - 1, f', k')
   }"

definition fputs :: "'k sys_write \<Rightarrow> u8 list \<Rightarrow> stream \<Rightarrow> 'k \<Rightarrow> (int \<times> stream \<times> 'k) option" where
  "fputs syswrite str f k = do {
     (n, f', k') \<leftarrow> file_write syswrite (length str) 0 str f k;
     Some (if n < length str then - 1 else 1, f', k')
   }"

definition puts :: "'k sys_write \<Rightarrow> u8 list \<Rightarrow> stream \<Rightarrow> 'k \<Rightarrow> (int \<times> stream \<times> 'k) option" where
  "puts syswrite str f k = do {
     (r, f', k') \<leftarrow> fputs syswrite str f k;
     if r = - 1 then Some (- 1, f', k') else fputc syswrite 10 f' k'
   }"

text \<open>The modes of \<open>fopen\<close>: whether to create and whether to truncate.\<close>

fun parse_mode_loop :: "bool \<times> bool \<Rightarrow> char list \<Rightarrow> (bool \<times> bool) option" where
  "parse_mode_loop ret [] = Some ret"
| "parse_mode_loop ret (ch # cs) =
     (if ch \<in> set ''r+'' then parse_mode_loop ret cs
      else if ch = CHR ''w'' then parse_mode_loop (True, True) cs
      else if ch \<in> set ''bt'' then parse_mode_loop ret cs
      else None)"

definition parse_mode :: "char list \<Rightarrow> (bool \<times> bool) option" where
  "parse_mode mode = parse_mode_loop (False, False) mode"

text \<open>The two formats \<open>sscanf\<close> knows. Its skip over a component reads on to the next dot.\<close>

fun skip_dot :: "char list \<Rightarrow> char list option" where
  "skip_dot [] = None"
| "skip_dot (ch # cs) = (if ch = CHR ''.'' then Some cs else skip_dot cs)"

definition scanf_impl :: "char list \<Rightarrow> char list \<Rightarrow> int list option" where
  "scanf_impl str fmt =
     (if fmt = ''%lu'' then map_option (\<lambda>n. [n mod 2 ^ 64]) (atoi str)
      else if fmt = ''%d.%d.%d'' then do {
        str2 \<leftarrow> skip_dot str;
        str3 \<leftarrow> skip_dot str2;
        a \<leftarrow> atoi str;
        b \<leftarrow> atoi str2;
        c \<leftarrow> atoi str3;
        Some [a, b, c]
      }
      else None)"

section \<open>Short transfers\<close>

text \<open>A file that takes at most \<open>n\<close> bytes at a time, and one that holds the bytes to be read.\<close>

definition limited_write :: "nat \<Rightarrow> u8 list sys_write" where
  "limited_write n data received = (Inr (min n (length data)), received @ take n data)"

definition list_read :: "u8 list sys_read" where
  "list_read n bytes = (Inr (take n bytes), drop n bytes)"

lemma file_write_step:
  "0 < size' \<Longrightarrow> syswrite (take size' data) k = (Inr n, k') \<Longrightarrow>
     file_write syswrite size' moved data f k = file_write syswrite (size' - n) (moved + n) data f k'"
  by (simp add: file_write.simps [of syswrite size'])

lemma file_write_done: "file_write syswrite 0 moved data f k = Some (moved, f, k)"
  by (simp add: file_write.simps)

text \<open>
  Writing to a stream whose file takes fewer bytes than it is offered, as a pipe that is
  almost full does, corrupts the data: every repetition starts again at the beginning of the
  buffer. When two calls are needed, what arrives is the first part followed by the beginning of the
  buffer once more, in place of the second part.
\<close>

theorem stream_write_repeats:
  assumes "length data \<le> 2 * n" and "n < length data"
  shows "file_write (limited_write n) (length data) 0 data f received =
    Some (length data, f, received @ take n data @ take (length data - n) data)"
proof -
  let ?m = "length data - n"
  have m: "0 < ?m" "?m \<le> n" "?m \<le> length data" "n + ?m = length data" "0 < length data" "n \<le> length data"
    using assms by auto
  have "file_write (limited_write n) (length data) 0 data f received =
      file_write (limited_write n) ?m n data f (received @ take n data)"
    using m(5,6) by (subst file_write_step [where n = n]) (auto simp: limited_write_def)
  also have "\<dots> = file_write (limited_write n) 0 (n + ?m) data f ((received @ take n data) @ take ?m data)"
    using m(1-3) by (subst file_write_step [where n = ?m]) (auto simp: limited_write_def)
  finally show ?thesis
    using m(4) by (simp add: file_write_done)
qed

theorem stream_write_repeats_witness:
  "file_write (limited_write 2) 3 0 [1, 2, 3] \<lparr>m_error = 0, m_eof = False\<rparr> [] =
     Some (3, \<lparr>m_error = 0, m_eof = False\<rparr>, [1, 2, 1])"
  using stream_write_repeats [of "[1, 2, 3]" 2 "\<lparr>m_error = 0, m_eof = False\<rparr>" "[]"]
  by (simp add: eval_nat_numeral)

lemma gets_loop_list_read:
  "gets_loop list_read n data f bytes =
     Some (data @ take n bytes \<noteq> [], data @ take n bytes @ [0],
       (if length bytes < n then f\<lparr>m_eof := True\<rparr> else f), drop n bytes)"
proof (induction n arbitrary: data bytes)
  case (Suc n)
  then show ?case
    by (cases bytes) (simp_all add: list_read_def)
qed simp

text \<open>
  \<open>fgets\<close> reads as many bytes as fit in the buffer, whatever they are: it does not stop after a
  newline.
\<close>

theorem fgets_reads_past_newlines:
  assumes "0 < size'"
  shows "file_gets list_read (int size') f bytes =
    Some (take (size' - 1) bytes \<noteq> [], take (size' - 1) bytes @ [0],
      (if length bytes < size' - 1 then f\<lparr>m_eof := True\<rparr> else f), drop (size' - 1) bytes)"
  using assms gets_loop_list_read [of "size' - 1" "[]" f bytes]
  by (simp add: file_gets_def nat_diff_distrib)

theorem fgets_reads_past_newlines_witness:
  "file_gets list_read 4 \<lparr>m_error = 0, m_eof = False\<rparr> [97, 10, 98, 99] =
     Some (True, [97, 10, 98, 0], \<lparr>m_error = 0, m_eof = False\<rparr>, [99])"
  using fgets_reads_past_newlines [of 4 "\<lparr>m_error = 0, m_eof = False\<rparr>" "[97, 10, 98, 99]"] by simp

end
