(* ===== verification/Fs.thy ===== *)
theory Fs
  imports Stdio Ipc
begin

text \<open>
  The file systems: \<^verbatim>\<open>src/kernel/fs\<close> (inodes, the memory file system, the virtual file system and
  file handles) and \<^verbatim>\<open>src/kernel/dev/dev_fs.cc\<close>. Inodes are objects with addresses; the virtual
  functions are cases over the class of the inode. A file that is bound to an inode (a device or a server
  socket) is named by its address.
\<close>

section \<open>State\<close>

datatype inode_type = AnonymousFile | Directory | RegularFile

datatype inode_class = RamFsInode | RamFsDirectoryInode | DevFsInode | DevFsDirectoryInode

record inode =
  i_class :: inode_class
  i_type :: inode_type
  i_parent :: "nat option"
  i_name :: string
  i_data :: "u8 list"
  i_children :: "nat list"
  i_anonymous_file :: "nat option"

text \<open>
  \<open>next_inode\<close> is the address the next allocation returns. A mount is its host, if any, and the
  root inode of the mounted file system.
\<close>

record vfs =
  inode_at :: "nat \<Rightarrow> inode"
  next_inode :: nat
  root_inode :: "nat option"
  mounts :: "(nat option \<times> nat) list"

datatype open_file = InodeFile nat | BoundFile nat

definition new_inode :: "inode_class \<Rightarrow> inode_type \<Rightarrow> nat option \<Rightarrow> string \<Rightarrow> inode" where
  "new_inode c ty par nm = \<lparr>i_class = c, i_type = ty, i_parent = par, i_name = nm, i_data = [],
     i_children = [], i_anonymous_file = None\<rparr>"

section \<open>Inodes\<close>

abbreviation is_directory_class :: "inode_class \<Rightarrow> bool" where
  "is_directory_class c \<equiv> c = RamFsDirectoryInode \<or> c = DevFsDirectoryInode"

text \<open>Both directory classes have code of their own for the operations on children.\<close>

definition ram_lookup :: "vfs \<Rightarrow> nat \<Rightarrow> string \<Rightarrow> nat option" where
  "ram_lookup fs i nm =
     (if nm = ''.'' then Some i
      else if nm = ''..'' then i_parent (inode_at fs i)
      else find (\<lambda>c. i_name (inode_at fs c) = nm) (i_children (inode_at fs i)))"

definition dev_lookup :: "vfs \<Rightarrow> nat \<Rightarrow> string \<Rightarrow> nat option" where
  "dev_lookup fs i nm =
     (if nm = ''.'' then Some i
      else if nm = ''..'' then i_parent (inode_at fs i)
      else find (\<lambda>c. i_name (inode_at fs c) = nm) (i_children (inode_at fs i)))"

definition inode_lookup :: "vfs \<Rightarrow> nat \<Rightarrow> string \<Rightarrow> nat option option" where
  "inode_lookup fs i nm =
     (case i_class (inode_at fs i) of
        RamFsDirectoryInode \<Rightarrow> Some (ram_lookup fs i nm)
      | DevFsDirectoryInode \<Rightarrow> Some (dev_lookup fs i nm)
      | _ \<Rightarrow> None)"

lemma inode_lookup_eq:
  "inode_lookup fs i nm = do {
     ensure (is_directory_class (i_class (inode_at fs i)));
     Some (if nm = ''.'' then Some i
           else if nm = ''..'' then i_parent (inode_at fs i)
           else find (\<lambda>c. i_name (inode_at fs c) = nm) (i_children (inode_at fs i)))
   }"
  by (simp add: inode_lookup_def ram_lookup_def dev_lookup_def split: inode_class.split)

text \<open>A new child is appended to the directory.\<close>

definition add_child :: "nat \<Rightarrow> inode \<Rightarrow> vfs \<Rightarrow> nat \<times> vfs" where
  "add_child i node fs =
     (let c = next_inode fs; dir = inode_at fs i
      in (c, fs\<lparr>inode_at := (inode_at fs)(c := node, i := dir\<lparr>i_children := i_children dir @ [c]\<rparr>),
               next_inode := c + 1\<rparr>))"

definition make_child :: "nat \<Rightarrow> string \<Rightarrow> inode_type \<Rightarrow> vfs \<Rightarrow> inode_class \<Rightarrow> (kerror + nat) \<times> vfs" where
  "make_child i nm ty fs c = (let (n, fs') = add_child i (new_inode c ty (Some i) nm) fs in (Inr n, fs'))"

definition ram_create :: "nat \<Rightarrow> string \<Rightarrow> inode_type \<Rightarrow> vfs \<Rightarrow> (kerror + nat) \<times> vfs" where
  "ram_create i nm ty fs =
     (case ty of
        AnonymousFile \<Rightarrow> make_child i nm ty fs RamFsInode
      | RegularFile \<Rightarrow> make_child i nm ty fs RamFsInode
      | Directory \<Rightarrow> make_child i nm ty fs RamFsDirectoryInode)"

definition dev_create :: "nat \<Rightarrow> string \<Rightarrow> inode_type \<Rightarrow> vfs \<Rightarrow> (kerror + nat) \<times> vfs" where
  "dev_create i nm ty fs =
     (case ty of
        AnonymousFile \<Rightarrow> make_child i nm ty fs DevFsInode
      | Directory \<Rightarrow> make_child i nm ty fs DevFsDirectoryInode
      | RegularFile \<Rightarrow> (Inl Invalid, fs))"

definition inode_create :: "nat \<Rightarrow> string \<Rightarrow> inode_type \<Rightarrow> vfs \<Rightarrow> (kerror + nat) \<times> vfs" where
  "inode_create i nm ty fs =
     (case i_class (inode_at fs i) of
        RamFsDirectoryInode \<Rightarrow> ram_create i nm ty fs
      | DevFsDirectoryInode \<Rightarrow> dev_create i nm ty fs
      | _ \<Rightarrow> (Inl NotDirectory, fs))"

lemmas inode_create_defs = inode_create_def ram_create_def dev_create_def make_child_def

definition ram_child :: "vfs \<Rightarrow> nat \<Rightarrow> nat \<Rightarrow> (kerror + nat) option" where
  "ram_child fs i index =
     (if index \<ge> 2 ^ 32 - 1 then Some (Inl Invalid)
      else do {
        ensure (index < length (i_children (inode_at fs i)));
        Some (Inr (i_children (inode_at fs i) ! index))
      })"

definition dev_child :: "vfs \<Rightarrow> nat \<Rightarrow> nat \<Rightarrow> (kerror + nat) option" where
  "dev_child fs i index =
     (if index \<ge> 2 ^ 32 - 1 then Some (Inl Invalid)
      else do {
        ensure (index < length (i_children (inode_at fs i)));
        Some (Inr (i_children (inode_at fs i) ! index))
      })"

definition inode_child :: "vfs \<Rightarrow> nat \<Rightarrow> nat \<Rightarrow> (kerror + nat) option" where
  "inode_child fs i index =
     (case i_class (inode_at fs i) of
        RamFsDirectoryInode \<Rightarrow> ram_child fs i index
      | DevFsDirectoryInode \<Rightarrow> dev_child fs i index
      | _ \<Rightarrow> Some (Inl NotDirectory))"

text \<open>The first child of the name is dropped.\<close>

fun remove_named :: "(nat \<Rightarrow> inode) \<Rightarrow> string \<Rightarrow> nat list \<Rightarrow> nat list option" where
  "remove_named at nm [] = None"
| "remove_named at nm (c # cs) =
     (if i_name (at c) = nm then Some cs else map_option ((#) c) (remove_named at nm cs))"

definition ram_remove :: "nat \<Rightarrow> string \<Rightarrow> vfs \<Rightarrow> (kerror + unit) \<times> vfs" where
  "ram_remove i nm fs =
     (let dir = inode_at fs i
      in case remove_named (inode_at fs) nm (i_children dir) of
           None \<Rightarrow> (Inl NonExistent, fs)
         | Some cs \<Rightarrow> (Inr (), fs\<lparr>inode_at := (inode_at fs)(i := dir\<lparr>i_children := cs\<rparr>)\<rparr>))"

definition dev_remove :: "nat \<Rightarrow> string \<Rightarrow> vfs \<Rightarrow> (kerror + unit) \<times> vfs" where
  "dev_remove i nm fs =
     (let dir = inode_at fs i
      in case remove_named (inode_at fs) nm (i_children dir) of
           None \<Rightarrow> (Inl NonExistent, fs)
         | Some cs \<Rightarrow> (Inr (), fs\<lparr>inode_at := (inode_at fs)(i := dir\<lparr>i_children := cs\<rparr>)\<rparr>))"

definition inode_remove :: "nat \<Rightarrow> string \<Rightarrow> vfs \<Rightarrow> (kerror + unit) \<times> vfs" where
  "inode_remove i nm fs =
     (case i_class (inode_at fs i) of
        RamFsDirectoryInode \<Rightarrow> ram_remove i nm fs
      | DevFsDirectoryInode \<Rightarrow> dev_remove i nm fs
      | _ \<Rightarrow> (Inl NotDirectory, fs))"

definition ram_directory_size :: "inode \<Rightarrow> nat" where
  "ram_directory_size dir = length (i_children dir)"

definition dev_directory_size :: "inode \<Rightarrow> nat" where
  "dev_directory_size dir = length (i_children dir)"

definition inode_size :: "vfs \<Rightarrow> nat \<Rightarrow> nat" where
  "inode_size fs i =
     (case i_class (inode_at fs i) of
        RamFsInode \<Rightarrow> length (i_data (inode_at fs i))
      | DevFsInode \<Rightarrow> 0
      | RamFsDirectoryInode \<Rightarrow> ram_directory_size (inode_at fs i)
      | DevFsDirectoryInode \<Rightarrow> dev_directory_size (inode_at fs i))"

definition ram_read :: "nat \<Rightarrow> nat \<Rightarrow> u8 list \<Rightarrow> u8 list" where
  "ram_read n offset data =
     (if offset \<ge> length data then []
      else let n' = (if n > length data - offset then length data - offset else n) in mem_read offset n' data)"

text \<open>The vector grows, filled up with zeros, until the written range fits.\<close>

definition ensure_size :: "nat \<Rightarrow> u8 list \<Rightarrow> u8 list" where
  "ensure_size n data = (if n \<le> length data then data else data @ replicate (n - length data) 0)"

definition ram_write :: "u8 list \<Rightarrow> nat \<Rightarrow> u8 list \<Rightarrow> u8 list option" where
  "ram_write bytes offset data = do {
     let data' = ensure_size (add64 offset (length bytes)) data;
     ensure (offset + length bytes \<le> length data');
     Some (mem_write offset bytes data')
   }"

definition inode_read :: "vfs \<Rightarrow> nat \<Rightarrow> nat \<Rightarrow> nat \<Rightarrow> u8 list option" where
  "inode_read fs i n offset = do {
     ensure (i_class (inode_at fs i) = RamFsInode);
     Some (ram_read n offset (i_data (inode_at fs i)))
   }"

definition inode_write :: "nat \<Rightarrow> u8 list \<Rightarrow> nat \<Rightarrow> vfs \<Rightarrow> (nat \<times> vfs) option" where
  "inode_write i bytes offset fs = do {
     ensure (i_class (inode_at fs i) = RamFsInode);
     data \<leftarrow> ram_write bytes offset (i_data (inode_at fs i));
     Some (length bytes, fs\<lparr>inode_at := (inode_at fs)(i := (inode_at fs i)\<lparr>i_data := data\<rparr>)\<rparr>)
   }"

definition inode_truncate :: "nat \<Rightarrow> vfs \<Rightarrow> (kerror + unit) \<times> vfs" where
  "inode_truncate i fs =
     (if i_class (inode_at fs i) = RamFsInode
      then (Inr (), fs\<lparr>inode_at := (inode_at fs)(i := (inode_at fs i)\<lparr>i_data := []\<rparr>)\<rparr>)
      else (Inl Invalid, fs))"

definition inode_open :: "vfs \<Rightarrow> nat \<Rightarrow> kerror + open_file" where
  "inode_open fs i =
     (if i_type (inode_at fs i) = AnonymousFile
      then (case i_anonymous_file (inode_at fs i) of None \<Rightarrow> Inl Invalid | Some f \<Rightarrow> Inr (BoundFile f))
      else if i_class (inode_at fs i) = RamFsInode then Inr (InodeFile i) else Inl Invalid)"

definition bind_anonymous_file :: "nat \<Rightarrow> nat \<Rightarrow> vfs \<Rightarrow> vfs option" where
  "bind_anonymous_file i f fs = do {
     ensure (i_anonymous_file (inode_at fs i) = None);
     Some (fs\<lparr>inode_at := (inode_at fs)(i := (inode_at fs i)\<lparr>i_anonymous_file := Some f\<rparr>)\<rparr>)
   }"

section \<open>The virtual file system\<close>

definition find_mount :: "vfs \<Rightarrow> nat \<Rightarrow> nat option" where
  "find_mount fs host = map_option snd (find (\<lambda>m. fst m = Some host) (mounts fs))"

text \<open>\<open>consume_part\<close>: a slash, or the characters up to the next slash, or nothing at the end.\<close>

definition consume_part :: "string \<Rightarrow> string \<times> string" where
  "consume_part path =
     (case path of
        [] \<Rightarrow> ([], [])
      | c # cs \<Rightarrow> if c = CHR ''/'' then (''/'', cs)
                  else (takeWhile (\<lambda>c. c \<noteq> CHR ''/'') path, dropWhile (\<lambda>c. c \<noteq> CHR ''/'') path))"

record resolution =
  res_current :: "nat option"
  res_parent :: "nat option"
  res_part :: string

lemma consume_part_shorter: "(part, rest) = consume_part path \<Longrightarrow> part \<noteq> [] \<Longrightarrow> length rest < length path"
  by (cases path) (auto simp: consume_part_def split: if_splits intro: le_imp_less_Suc length_dropWhile_le)

lemma consume_part_length: "(part, rest) = consume_part path \<Longrightarrow> length rest \<le> length path"
  by (cases path) (auto simp: consume_part_def split: if_splits intro: le_SucI length_dropWhile_le)

text \<open>
  The loop of \<open>resolve_path\<close>. After a part that was not found, one more part is consumed; it can only be
  a slash or nothing.
\<close>

function resolve_loop :: "vfs \<Rightarrow> string \<Rightarrow> resolution \<Rightarrow> resolution option" where
  "resolve_loop fs path res =
     (let (part, rest) = consume_part path
      in if part = [] then Some res
         else if hd part = CHR ''/'' then resolve_loop fs rest res
         else case res_current res of
                None \<Rightarrow> Some (res\<lparr>res_parent := None\<rparr>)
              | Some cur \<Rightarrow> do {
                  child \<leftarrow> inode_lookup fs cur part;
                  let res' = res\<lparr>res_parent := Some cur, res_part := part\<rparr>;
                  case child of
                    None \<Rightarrow>
                      let (remaining, rest') = consume_part rest
                      in resolve_loop fs rest'
                           (if remaining \<noteq> [] \<and> hd remaining \<noteq> CHR ''/''
                            then res'\<lparr>res_current := None, res_parent := None\<rparr>
                            else res'\<lparr>res_current := None\<rparr>)
                  | Some c \<Rightarrow>
                      resolve_loop fs rest
                        (res'\<lparr>res_current := Some (case find_mount fs c of None \<Rightarrow> c | Some r \<Rightarrow> r)\<rparr>)
                })"
  by pat_completeness auto
termination
proof (relation "measure (\<lambda>(fs, path, res). length path)", goal_cases)
  case (2 fs path res x part rest)
  then show ?case
    using consume_part_shorter [of part rest path] by simp
next
  case (3 fs path res x part rest cur child res' y remaining rest')
  have "length rest < length path"
    using 3 consume_part_shorter [of part rest path] by simp
  moreover have "length rest' \<le> length rest"
    using 3 consume_part_length [of remaining rest' rest] by simp
  ultimately show ?case
    by simp
next
  case (4 fs path res x part rest cur child res' c)
  then show ?case
    using consume_part_shorter [of part rest path] by simp
qed simp_all

declare resolve_loop.simps [simp del]

text \<open>An absolute path starts at the root. Reading the first character of an empty path is out of range.\<close>

definition resolve_path :: "vfs \<Rightarrow> string \<Rightarrow> nat option \<Rightarrow> resolution option" where
  "resolve_path fs path base = do {
     ensure (path \<noteq> []);
     resolve_loop fs path
       \<lparr>res_current = (if hd path = CHR ''/'' then root_inode fs else base), res_parent = None, res_part = []\<rparr>
   }"

definition vfs_create :: "string \<Rightarrow> nat option \<Rightarrow> inode_type \<Rightarrow> vfs \<Rightarrow> ((kerror + nat) \<times> vfs) option" where
  "vfs_create path base ty fs = do {
     res \<leftarrow> resolve_path fs path base;
     if res_current res \<noteq> None then Some (Inl AlreadyExists, fs)
     else case res_parent res of
            None \<Rightarrow> Some (Inl NonExistent, fs)
          | Some p \<Rightarrow> if res_part res = [] then Some (Inl Invalid, fs) else Some (inode_create p (res_part res) ty fs)
   }"

definition vfs_mkdir :: "string \<Rightarrow> nat option \<Rightarrow> vfs \<Rightarrow> ((kerror + unit) \<times> vfs) option" where
  "vfs_mkdir path base fs = do {
     (r, fs') \<leftarrow> vfs_create path base Directory fs;
     Some (map_sum id (\<lambda>_. ()) r, fs')
   }"

text \<open>Mounting gives the file system its root inode, of its own class, below the parent of the host.\<close>

definition fs_mount :: "inode_class \<Rightarrow> nat option \<Rightarrow> string \<Rightarrow> vfs \<Rightarrow> nat \<times> vfs" where
  "fs_mount c par nm fs =
     (let r = next_inode fs
      in (r, fs\<lparr>inode_at := (inode_at fs)(r := new_inode c Directory par nm), next_inode := r + 1\<rparr>))"

definition mount_root :: "inode_class \<Rightarrow> vfs \<Rightarrow> vfs option" where
  "mount_root c fs = do {
     ensure (root_inode fs = None);
     let (r, fs') = fs_mount c (Some (next_inode fs)) ''/'' fs;
     Some (fs'\<lparr>root_inode := Some r, mounts := mounts fs' @ [(None, r)]\<rparr>)
   }"

definition vfs_mount :: "string \<Rightarrow> inode_class \<Rightarrow> vfs \<Rightarrow> ((kerror + unit) \<times> vfs) option" where
  "vfs_mount path c fs = do {
     res \<leftarrow> resolve_path fs path None;
     case res_current res of
       None \<Rightarrow> Some (Inl NonExistent, fs)
     | Some host \<Rightarrow>
         let (r, fs') = fs_mount c (res_parent res) (i_name (inode_at fs host)) fs
         in Some (Inr (), fs'\<lparr>mounts := mounts fs' @ [(Some host, r)]\<rparr>)
   }"

definition vfs_open :: "string \<Rightarrow> bool \<Rightarrow> bool \<Rightarrow> nat option \<Rightarrow> vfs \<Rightarrow> ((kerror + open_file) \<times> vfs) option" where
  "vfs_open path create trunc base fs = do {
     res \<leftarrow> resolve_path fs path base;
     case res_current res of
       None \<Rightarrow>
         if create then do {
           (r, fs') \<leftarrow> vfs_create path base RegularFile fs;
           Some (case r of Inl e \<Rightarrow> Inl e | Inr i \<Rightarrow> inode_open fs' i, fs')
         } else Some (Inl NonExistent, fs)
     | Some i \<Rightarrow>
         if trunc
         then (case inode_truncate i fs of
                 (Inl e, fs') \<Rightarrow> Some (Inl e, fs')
               | (Inr _, fs') \<Rightarrow> Some (inode_open fs' i, fs'))
         else Some (inode_open fs i, fs)
   }"

definition open_directory :: "string \<Rightarrow> nat option \<Rightarrow> vfs \<Rightarrow> (kerror + nat) option" where
  "open_directory path base fs = do {
     res \<leftarrow> resolve_path fs path base;
     Some (case res_current res of
             None \<Rightarrow> Inl NonExistent
           | Some i \<Rightarrow> if i_type (inode_at fs i) \<noteq> Directory then Inl NotDirectory else Inr i)
   }"

section \<open>The device file system\<close>

definition dev_fs_initialise :: "vfs \<Rightarrow> (nat \<times> vfs) option" where
  "dev_fs_initialise fs = do {
     (r1, fs1) \<leftarrow> vfs_mkdir ''/dev'' None fs;
     ensure (r1 = Inr ());
     (r2, fs2) \<leftarrow> vfs_mount ''/dev'' DevFsDirectoryInode fs1;
     ensure (r2 = Inr ());
     (r3, fs3) \<leftarrow> vfs_mkdir ''/dev/pci'' None fs2;
     ensure (r3 = Inr ());
     Some (next_inode fs1, fs3)
   }"

definition attach_device :: "nat \<Rightarrow> string \<Rightarrow> nat \<Rightarrow> vfs \<Rightarrow> vfs option" where
  "attach_device device path dev_root fs = do {
     (r, fs') \<leftarrow> vfs_create path (Some dev_root) AnonymousFile fs;
     case r of Inl e \<Rightarrow> None | Inr i \<Rightarrow> bind_anonymous_file i device fs'
   }"

definition detach_device :: "string \<Rightarrow> nat \<Rightarrow> vfs \<Rightarrow> vfs option" where
  "detach_device path dev_root fs =
     (case dev_remove dev_root path fs of (Inl e, fs') \<Rightarrow> None | (Inr _, fs') \<Rightarrow> Some fs')"

section \<open>File handles\<close>

text \<open>A handle on an open file of the memory file system.\<close>

record file_handle =
  h_inode :: nat
  h_offset :: nat

definition handle_read :: "nat \<Rightarrow> vfs \<Rightarrow> file_handle \<Rightarrow> (u8 list \<times> file_handle) option" where
  "handle_read n fs h = do {
     bytes \<leftarrow> inode_read fs (h_inode h) n (h_offset h);
     Some (bytes, h\<lparr>h_offset := add64 (h_offset h) (length bytes)\<rparr>)
   }"

definition handle_write :: "u8 list \<Rightarrow> vfs \<times> file_handle \<Rightarrow> (vfs \<times> file_handle) option" where
  "handle_write bytes = (\<lambda>(fs, h). do {
     (n, fs') \<leftarrow> inode_write (h_inode h) bytes (h_offset h) fs;
     Some (fs', h\<lparr>h_offset := add64 (h_offset h) n\<rparr>)
   })"

definition handle_seek :: "nat \<Rightarrow> ub_seek_mode \<Rightarrow> file_handle \<Rightarrow> nat \<times> file_handle" where
  "handle_seek offset m h =
     (let o' = (case m of SeekAdd \<Rightarrow> add64 (h_offset h) offset | SeekSet \<Rightarrow> offset) in (o', h\<lparr>h_offset := o'\<rparr>))"

section \<open>Paths as sequences of names\<close>

function components :: "string \<Rightarrow> string list" where
  "components [] = []"
| "components (c # cs) =
     (if c = CHR ''/'' then components cs
      else takeWhile (\<lambda>c. c \<noteq> CHR ''/'') (c # cs) # components (dropWhile (\<lambda>c. c \<noteq> CHR ''/'') (c # cs)))"
  by pat_completeness auto
termination
proof (relation "measure length", goal_cases)
  case (3 c cs)
  then show ?case
    using length_dropWhile_le [of "\<lambda>c. c \<noteq> CHR ''/''" cs] by simp
qed simp_all

declare components.simps(2) [simp del]

definition through_mount :: "vfs \<Rightarrow> nat \<Rightarrow> nat" where
  "through_mount fs c = (case find_mount fs c of None \<Rightarrow> c | Some r \<Rightarrow> r)"

fun walk_parts :: "vfs \<Rightarrow> string list \<Rightarrow> resolution \<Rightarrow> resolution option" where
  "walk_parts fs [] res = Some res"
| "walk_parts fs (part # parts) res =
     (case res_current res of
        None \<Rightarrow> Some (res\<lparr>res_parent := None\<rparr>)
      | Some cur \<Rightarrow> do {
          child \<leftarrow> inode_lookup fs cur part;
          walk_parts fs parts
            \<lparr>res_current = map_option (through_mount fs) child, res_parent = Some cur, res_part = part\<rparr>
        })"

lemma components_slash: "components (CHR ''/'' # cs) = components cs"
  by (simp add: components.simps(2))

lemma components_part:
  "c \<noteq> CHR ''/'' \<Longrightarrow> components (c # cs) =
     takeWhile (\<lambda>c. c \<noteq> CHR ''/'') (c # cs) # components (dropWhile (\<lambda>c. c \<noteq> CHR ''/'') (c # cs))"
  by (simp add: components.simps(2))

lemma dropWhile_slash: "dropWhile (\<lambda>c. c \<noteq> CHR ''/'') cs = [] \<or> hd (dropWhile (\<lambda>c. c \<noteq> CHR ''/'') cs) = CHR ''/''"
  by (induction cs) auto

lemma consume_after_part:
  assumes "consume_part rest = (remaining, rest')" and "rest = [] \<or> hd rest = CHR ''/''"
  shows "(remaining = [] \<or> hd remaining = CHR ''/'') \<and> components rest' = components rest \<and> length rest' \<le> length rest"
  using assms by (cases rest) (auto simp: consume_part_def components_slash)

text \<open>The loop looks up one name after the other.\<close>

lemma resolve_loop_walk: "resolve_loop fs path res = walk_parts fs (components path) res"
proof (induction "length path" arbitrary: path res rule: less_induct)
  case less
  show ?case
  proof (cases path)
    case Nil
    then show ?thesis
      by (simp add: resolve_loop.simps consume_part_def)
  next
    case (Cons c cs)
    show ?thesis
    proof (cases "c = CHR ''/''")
      case True
      then show ?thesis
        using less [of cs res] Cons
        by (subst resolve_loop.simps) (simp add: consume_part_def components_slash)
    next
      case False
      define part where "part = takeWhile (\<lambda>c. c \<noteq> CHR ''/'') (c # cs)"
      define rest where "rest = dropWhile (\<lambda>c. c \<noteq> CHR ''/'') (c # cs)"
      have part: "consume_part path = (part, rest)" "part \<noteq> []" "hd part \<noteq> CHR ''/''"
        using Cons False by (simp_all add: consume_part_def part_def rest_def)
      have parts: "components path = part # components rest"
        using Cons False by (simp add: components_part part_def rest_def)
      have len: "length rest < length path"
        using consume_part_shorter [of part rest path] part by simp
      obtain remaining rest' where r: "consume_part rest = (remaining, rest')"
        by fastforce
      note skip = consume_after_part [OF r, unfolded rest_def, OF dropWhile_slash]
      have ih: "resolve_loop fs rest res' = walk_parts fs (components rest) res'"
        "resolve_loop fs rest' res' = walk_parts fs (components rest) res'" for res'
        using less [OF len, of res'] less [of rest' res'] skip len by (simp_all add: rest_def)
      show ?thesis
      proof (cases "res_current res")
        case None
        then show ?thesis
          using part parts by (subst resolve_loop.simps) simp
      next
        case (Some cur)
        show ?thesis
        proof (cases "inode_lookup fs cur part")
          case None
          then show ?thesis
            using part parts Some by (subst resolve_loop.simps) simp
        next
          case child: (Some child)
          have res: "res\<lparr>res_parent := Some cur, res_part := part, res_current := x\<rparr> =
              \<lparr>res_current = x, res_parent = Some cur, res_part = part\<rparr>" for x
            by simp
          have dead: "(remaining \<noteq> [] \<and> hd remaining \<noteq> CHR ''/'') = False"
            using skip by blast
          show ?thesis
          proof (cases child)
            case None
            then show ?thesis
              using part parts Some child r
              by (subst resolve_loop.simps) (simp only: Let_def prod.case dead if_False if_True option.case ih res
                  list.simps Option.bind.simps walk_parts.simps option.map)
          next
            case (Some c)
            then show ?thesis
              using part parts \<open>res_current res = Some cur\<close> child
              by (subst resolve_loop.simps) (simp only: Let_def prod.case if_False if_True option.case ih res
                  list.simps Option.bind.simps walk_parts.simps option.map through_mount_def)
          qed
        qed
      qed
    qed
  qed
qed

section \<open>Creating and finding\<close>

text \<open>Every address in use is below the next one to be allocated, and every inode has a parent.\<close>

definition wf_vfs :: "vfs \<Rightarrow> bool" where
  "wf_vfs fs \<longleftrightarrow>
     (\<forall>i < next_inode fs. (\<forall>c\<in>set (i_children (inode_at fs i)). c < next_inode fs) \<and>
        (\<exists>p < next_inode fs. i_parent (inode_at fs i) = Some p)) \<and>
     (\<forall>r. root_inode fs = Some r \<longrightarrow> r < next_inode fs) \<and>
     (\<forall>(h, r)\<in>set (mounts fs). r < next_inode fs \<and> (\<forall>i. h = Some i \<longrightarrow> i < next_inode fs))"

lemma wf_vfs_iff:
  "wf_vfs fs \<longleftrightarrow>
     list_all (\<lambda>i. list_all (\<lambda>c. c < next_inode fs) (i_children (inode_at fs i)) \<and>
       (case i_parent (inode_at fs i) of None \<Rightarrow> False | Some p \<Rightarrow> p < next_inode fs)) [0..<next_inode fs] \<and>
     (case root_inode fs of None \<Rightarrow> True | Some r \<Rightarrow> r < next_inode fs) \<and>
     list_all (\<lambda>(h, r). r < next_inode fs \<and> (case h of None \<Rightarrow> True | Some i \<Rightarrow> i < next_inode fs)) (mounts fs)"
proof -
  have "(\<exists>p < n. q = Some p) \<longleftrightarrow> (case q of None \<Rightarrow> False | Some p \<Rightarrow> p < n)" for q and n :: nat
    by (cases q) auto
  moreover have "(\<forall>r. q = Some r \<longrightarrow> r < n) \<longleftrightarrow> (case q of None \<Rightarrow> True | Some r \<Rightarrow> r < n)" for q and n :: nat
    by (cases q) auto
  moreover have "(\<forall>i < n. P i) \<longleftrightarrow> list_all P [0..<n]" for P and n :: nat
    by (auto simp: list_all_iff)
  ultimately show ?thesis
    by (simp add: wf_vfs_def list_all_iff)
qed

abbreviation known :: "vfs \<Rightarrow> nat option \<Rightarrow> bool" where
  "known fs i \<equiv> (case i of None \<Rightarrow> True | Some i \<Rightarrow> i < next_inode fs)"

lemma find_in_set: "find P xs = Some x \<Longrightarrow> x \<in> set xs \<and> P x"
  by (induction xs) (auto split: if_splits)

lemma lookup_known:
  assumes "wf_vfs fs" and "i < next_inode fs" and "inode_lookup fs i nm = Some c"
  shows "known fs c"
proof -
  have "c = Some i \<or> c = i_parent (inode_at fs i) \<or>
      c = find (\<lambda>c. i_name (inode_at fs c) = nm) (i_children (inode_at fs i))"
    using assms(3) by (auto simp: inode_lookup_eq split: if_splits)
  moreover have "known fs (i_parent (inode_at fs i))" "\<forall>d\<in>set (i_children (inode_at fs i)). d < next_inode fs"
    using assms(1,2) by (auto simp: wf_vfs_def split: option.splits)
  ultimately show ?thesis
    using assms(2) find_in_set [of _ "i_children (inode_at fs i)"] by (auto split: option.splits)
qed

lemma mount_known:
  "wf_vfs fs \<Longrightarrow> find_mount fs c = Some r \<Longrightarrow> r < next_inode fs \<and> c < next_inode fs"
  using find_in_set [of "\<lambda>m. fst m = Some c" "mounts fs"] by (fastforce simp: wf_vfs_def find_mount_def)

lemma through_mount_known: "wf_vfs fs \<Longrightarrow> c < next_inode fs \<Longrightarrow> through_mount fs c < next_inode fs"
  using mount_known [of fs c] by (simp add: through_mount_def split: option.split)

text \<open>The file system with one more child.\<close>

definition grown :: "nat \<Rightarrow> string \<Rightarrow> nat \<Rightarrow> vfs \<Rightarrow> vfs \<Rightarrow> bool" where
  "grown p nm c fs fs' \<longleftrightarrow>
     (\<forall>i < next_inode fs. \<forall>x. inode_lookup fs' i x =
        (if i = p \<and> x = nm then Some (Some c) else inode_lookup fs i x)) \<and>
     mounts fs' = mounts fs \<and> root_inode fs' = root_inode fs \<and> c = next_inode fs"

lemma grown_lookup:
  "grown p nm c fs fs' \<Longrightarrow> i < next_inode fs \<Longrightarrow> \<not> (i = p \<and> x = nm) \<Longrightarrow> inode_lookup fs' i x = inode_lookup fs i x"
  by (auto simp: grown_def)

lemma step_known:
  assumes "wf_vfs fs" and "i < next_inode fs" and "inode_lookup fs i nm = Some child"
  shows "known fs (map_option (through_mount fs) child)"
  using lookup_known [OF assms] through_mount_known [OF assms(1)] by (cases child) simp_all

lemma grown_through_mount: "grown p nm c fs fs' \<Longrightarrow> through_mount fs' = through_mount fs"
  by (simp add: grown_def through_mount_def find_mount_def fun_eq_iff)

lemma grown_mount_new: "wf_vfs fs \<Longrightarrow> grown p nm c fs fs' \<Longrightarrow> through_mount fs c = c"
  using mount_known [of fs c] by (auto simp: grown_def through_mount_def split: option.split)

lemma walk_parts_None: "res_current res = None \<Longrightarrow> walk_parts fs parts res = Some r \<Longrightarrow> res_current r = None"
  by (cases parts) auto

text \<open>What was found before is found again.\<close>

lemma walk_parts_grown:
  assumes "wf_vfs fs" and "grown p nm c fs fs'" and "inode_lookup fs p nm = Some None"
    and "known fs (res_current res)" and "walk_parts fs parts res = Some r" and "res_current r \<noteq> None"
  shows "walk_parts fs' parts res = Some r"
  using assms(4-6)
proof (induction parts arbitrary: res)
  case (Cons x parts)
  have "res_current res \<noteq> None"
    using Cons.prems(2,3) by (auto split: option.splits)
  then obtain cur where cur: "res_current res = Some cur" "cur < next_inode fs"
    using Cons.prems(1) by auto
  obtain child where child: "inode_lookup fs cur x = Some child"
    using Cons.prems(2) cur by (auto split: Option.bind_splits)
  let ?res' = "\<lparr>res_current = map_option (through_mount fs) child, res_parent = Some cur, res_part = x\<rparr>"
  have rest: "walk_parts fs parts ?res' = Some r"
    using Cons.prems(2) cur child by simp
  have "child \<noteq> None"
    using walk_parts_None [of ?res' fs parts r] rest Cons.prems(3) by (cases child) auto
  then have "\<not> (cur = p \<and> x = nm)"
    using child assms(3) by auto
  then have "inode_lookup fs' cur x = Some child"
    using grown_lookup [OF assms(2) cur(2)] child by simp
  moreover have "known fs (res_current ?res')"
    using step_known [OF assms(1) cur(2) child] by simp
  then have "walk_parts fs' parts ?res' = Some r"
    using Cons.IH rest Cons.prems(3) by blast
  ultimately show ?case
    using cur grown_through_mount [OF assms(2)] by simp
qed simp

text \<open>The path that ended at the missing name now ends at the new inode.\<close>

lemma walk_parts_created:
  assumes "wf_vfs fs" and "grown p nm c fs fs'" and "inode_lookup fs p nm = Some None"
    and "known fs (res_current res)" and "res_current res \<noteq> None" and "walk_parts fs parts res = Some r"
    and "res_current r = None" and "res_parent r = Some p" and "res_part r = nm"
  shows "walk_parts fs' parts res = Some (r\<lparr>res_current := Some c\<rparr>)"
  using assms(4-9)
proof (induction parts arbitrary: res)
  case (Cons x parts)
  obtain cur where cur: "res_current res = Some cur" "cur < next_inode fs"
    using Cons.prems(1,2) by auto
  obtain child where child: "inode_lookup fs cur x = Some child"
    using Cons.prems(3) cur by (auto split: Option.bind_splits)
  let ?res' = "\<lparr>res_current = map_option (through_mount fs) child, res_parent = Some cur, res_part = x\<rparr>"
  have rest: "walk_parts fs parts ?res' = Some r"
    using Cons.prems(3) cur child by simp
  show ?case
  proof (cases child)
    case None
    then have "parts = [] \<and> r = ?res'"
      using rest Cons.prems(5) by (cases parts) auto
    then have now: "cur = p" "x = nm" "parts = []" "r = ?res'"
      using Cons.prems(5,6) by simp_all
    then show ?thesis
      using assms(2) cur None grown_through_mount [OF assms(2)] grown_mount_new [OF assms(1,2)]
      by (simp add: grown_def)
  next
    case (Some d)
    then have "\<not> (cur = p \<and> x = nm)"
      using child assms(3) by auto
    then have "inode_lookup fs' cur x = Some child"
      using grown_lookup [OF assms(2) cur(2)] child by simp
    moreover have "known fs (res_current ?res')"
      using step_known [OF assms(1) cur(2) child] by simp
    then have "walk_parts fs' parts ?res' = Some (r\<lparr>res_current := Some c\<rparr>)"
      using Cons.IH rest Cons.prems(4-6) Some by simp
    ultimately show ?thesis
      using cur grown_through_mount [OF assms(2)] by simp
  qed
qed simp

lemma lookup_add_child:
  assumes "wf_vfs fs" and "p < next_inode fs" and "add_child p (new_inode cl ty (Some p) nm) fs = (c, fs')"
    and "inode_lookup fs p nm = Some None" and "i < next_inode fs"
  shows "inode_lookup fs' i x = (if i = p \<and> x = nm then Some (Some c) else inode_lookup fs i x)"
proof -
  have c: "c = next_inode fs"
    and at: "inode_at fs' = (inode_at fs)(c := new_inode cl ty (Some p) nm,
      p := (inode_at fs p)\<lparr>i_children := i_children (inode_at fs p) @ [c]\<rparr>)"
    using assms(3) by (auto simp: add_child_def Let_def)
  have old: "i_class (inode_at fs' j) = i_class (inode_at fs j)" "i_name (inode_at fs' j) = i_name (inode_at fs j)"
    "i_parent (inode_at fs' j) = i_parent (inode_at fs j)" if "j < next_inode fs" for j
    using that c by (simp_all add: at)
  have kids: "i_children (inode_at fs' i) = i_children (inode_at fs i) @ (if i = p then [c] else [])"
    using assms(5) c by (simp add: at)
  have name_c: "i_name (inode_at fs' c) = nm"
    using c assms(2) by (simp add: at new_inode_def)
  have inside: "\<forall>d\<in>set (i_children (inode_at fs i)). d < next_inode fs"
    using assms(1,5) by (auto simp: wf_vfs_def)
  have "find (\<lambda>d. i_name (inode_at fs' d) = x) ds = find (\<lambda>d. i_name (inode_at fs d) = x) ds"
    if "\<forall>d\<in>set ds. d < next_inode fs" for ds
    using that by (induction ds) (simp_all add: old)
  then have find: "find (\<lambda>d. i_name (inode_at fs' d) = x) (i_children (inode_at fs i)) =
      find (\<lambda>d. i_name (inode_at fs d) = x) (i_children (inode_at fs i))"
    using inside by blast
  have append: "find P (us @ vs) = (case find P us of None \<Rightarrow> find P vs | Some u \<Rightarrow> Some u)" for P and us vs :: "nat list"
    by (induction us) auto
  have nm: "nm \<noteq> ''.''" "nm \<noteq> ''..''" "find (\<lambda>d. i_name (inode_at fs d) = nm) (i_children (inode_at fs p)) = None"
    using assms(1,2,4) by (auto simp: inode_lookup_eq wf_vfs_def split: if_splits)
  have "is_directory_class (i_class (inode_at fs p))"
    using assms(4) by (simp add: inode_lookup_eq)
  then show ?thesis
    using old [OF assms(5)] kids name_c find nm
    by (auto simp: inode_lookup_eq append split: option.splits)
qed

lemma wf_add_child:
  assumes "wf_vfs fs" and "p < next_inode fs" and "add_child p (new_inode cl ty (Some p) nm) fs = (c, fs')"
  shows "wf_vfs fs'"
proof -
  have c: "c = next_inode fs" "next_inode fs' = Suc c" "mounts fs' = mounts fs" "root_inode fs' = root_inode fs"
    and at: "inode_at fs' = (inode_at fs)(c := new_inode cl ty (Some p) nm,
      p := (inode_at fs p)\<lparr>i_children := i_children (inode_at fs p) @ [c]\<rparr>)"
    using assms(3) by (auto simp: add_child_def Let_def)
  have "(\<forall>d\<in>set (i_children (inode_at fs' i)). d < next_inode fs') \<and>
      (\<exists>q < next_inode fs'. i_parent (inode_at fs' i) = Some q)" if "i < next_inode fs'" for i
  proof (cases "i = c")
    case True
    then show ?thesis
      using assms(2) c by (auto simp: at new_inode_def)
  next
    case False
    then have "i < next_inode fs"
      using that c by simp
    then obtain q where "q < next_inode fs" "i_parent (inode_at fs i) = Some q"
        "\<forall>d\<in>set (i_children (inode_at fs i)). d < next_inode fs"
      using assms(1) by (auto simp: wf_vfs_def)
    then show ?thesis
      using False c by (auto simp: at less_Suc_eq)
  qed
  moreover have "\<forall>r. root_inode fs' = Some r \<longrightarrow> r < next_inode fs'"
    using assms(1) c by (simp add: wf_vfs_def less_SucI)
  moreover have "\<forall>(h, r)\<in>set (mounts fs'). r < next_inode fs' \<and> (\<forall>i. h = Some i \<longrightarrow> i < next_inode fs')"
    using assms(1) c by (auto simp: wf_vfs_def less_SucI)
  ultimately show ?thesis
    unfolding wf_vfs_def by presburger
qed

lemma inode_create_grows:
  assumes "wf_vfs fs" and "p < next_inode fs" and "inode_lookup fs p nm = Some None"
    and "inode_create p nm ty fs = (Inr c, fs')"
  shows "grown p nm c fs fs' \<and> wf_vfs fs' \<and> c < next_inode fs' \<and> i_type (inode_at fs' c) = ty \<and>
    i_name (inode_at fs' c) = nm \<and> i_parent (inode_at fs' c) = Some p"
proof -
  obtain cl where cl: "add_child p (new_inode cl ty (Some p) nm) fs = (c, fs')"
    using assms(4) by (auto simp: inode_create_defs Let_def split: inode_class.splits inode_type.splits prod.splits)
  then have "c = next_inode fs" "mounts fs' = mounts fs" "root_inode fs' = root_inode fs"
      "next_inode fs' = next_inode fs + 1" "inode_at fs' c = new_inode cl ty (Some p) nm"
    using assms(2) by (auto simp: add_child_def Let_def)
  then show ?thesis
    using lookup_add_child [OF assms(1,2) cl assms(3)] wf_add_child [OF assms(1,2) cl]
    by (auto simp: grown_def new_inode_def)
qed

lemma walk_parts_parent:
  assumes "wf_vfs fs" and "known fs (res_current res)" and "walk_parts fs parts res = Some r"
    and "res_current r = None" and "res_parent r = Some p" and "res_parent res = None"
  shows "p < next_inode fs \<and> inode_lookup fs p (res_part r) = Some None \<and> res_current res \<noteq> None"
proof -
  have "p < next_inode fs \<and> inode_lookup fs p (res_part r) = Some None"
    if "known fs (res_current res)" "walk_parts fs parts res = Some r" "parts \<noteq> []" for res
    using that
  proof (induction parts arbitrary: res)
    case (Cons x parts)
    obtain cur where cur: "res_current res = Some cur" "cur < next_inode fs"
      using Cons.prems(1,2) assms(5) by (cases "res_current res") auto
    obtain child where child: "inode_lookup fs cur x = Some child"
      using Cons.prems(2) cur by (auto split: Option.bind_splits)
    let ?res' = "\<lparr>res_current = map_option (through_mount fs) child, res_parent = Some cur, res_part = x\<rparr>"
    have rest: "walk_parts fs parts ?res' = Some r"
      using Cons.prems(2) cur child by simp
    show ?case
    proof (cases "parts = []")
      case True
      then show ?thesis
        using rest assms(4,5) cur child by auto
    next
      case False
      then show ?thesis
        using Cons.IH [of ?res'] step_known [OF assms(1) cur(2) child] rest by simp
    qed
  qed simp
  moreover have "parts \<noteq> [] \<and> res_current res \<noteq> None"
    using assms(3,5,6) by (cases parts; cases "res_current res") auto
  ultimately show ?thesis
    using assms(2,3) by simp
qed

text \<open>The resolution starts at the root or at the base, without a parent.\<close>

definition res_start :: "vfs \<Rightarrow> string \<Rightarrow> nat option \<Rightarrow> resolution" where
  "res_start fs path base =
     \<lparr>res_current = (if hd path = CHR ''/'' then root_inode fs else base), res_parent = None, res_part = []\<rparr>"

lemma resolve_path_walk:
  "resolve_path fs path base = (if path = [] then None else walk_parts fs (components path) (res_start fs path base))"
  by (simp add: resolve_path_def resolve_loop_walk res_start_def)

lemma res_start_known: "wf_vfs fs \<Longrightarrow> known fs base \<Longrightarrow> known fs (res_current (res_start fs path base))"
  by (auto simp: res_start_def wf_vfs_def split: option.splits)

lemma res_start_parent: "res_parent (res_start fs path base) = None"
  by (simp add: res_start_def)

lemma grown_res_start: "grown p nm c fs fs' \<Longrightarrow> res_start fs' = res_start fs"
  by (simp add: grown_def res_start_def fun_eq_iff)

lemma inode_create_error: "inode_create p nm ty fs = (Inl e, f) \<Longrightarrow> f = fs"
  by (auto simp: inode_create_defs Let_def split: inode_class.splits inode_type.splits prod.splits)

lemma inode_create_not_exists [simp]: "inode_create p nm ty fs \<noteq> (Inl AlreadyExists, f)"
  by (simp add: inode_create_defs Let_def split: inode_class.split inode_type.split prod.split)

text \<open>
  C16. Creating a file or a directory makes it found: the path that was created resolves to the new inode,
  which has the type that was asked for, and every path that led somewhere before leads to the same place
  afterwards. The creation fails with \<open>AlreadyExists\<close> exactly when the path resolves to something.
\<close>

theorem vfs_create_resolves:
  assumes "wf_vfs fs" and "known fs base" and "vfs_create path base ty fs = Some (r, fs')"
  shows "(r = Inl AlreadyExists \<longleftrightarrow> (\<exists>res i. resolve_path fs path base = Some res \<and> res_current res = Some i)) \<and>
    (\<forall>e. r = Inl e \<longrightarrow> fs' = fs) \<and>
    (\<forall>i. r = Inr i \<longrightarrow> wf_vfs fs' \<and> i_type (inode_at fs' i) = ty \<and>
       (\<exists>res'. resolve_path fs' path base = Some res' \<and> res_current res' = Some i) \<and>
       (\<forall>path' base' res' j. known fs base' \<longrightarrow> resolve_path fs path' base' = Some res' \<longrightarrow>
          res_current res' = Some j \<longrightarrow> resolve_path fs' path' base' = Some res'))"
proof -
  obtain res where res: "resolve_path fs path base = Some res"
    using assms(3) by (auto simp: vfs_create_def split: Option.bind_splits)
  show ?thesis
  proof (cases "res_current res = None \<and> (\<exists>i. r = Inr i)")
    case False
    then show ?thesis
      using assms(3) res inode_create_error
      by (auto simp: vfs_create_def split: if_splits option.splits)
  next
    case True
    then obtain i where i: "r = Inr i" "res_current res = None"
      by blast
    obtain p where p: "res_parent res = Some p" "inode_create p (res_part res) ty fs = (Inr i, fs')"
      using assms(3) res i by (auto simp: vfs_create_def split: if_splits option.splits)
    note start = res_start_known [OF assms(1)]
    have walk: "walk_parts fs (components path) (res_start fs path base) = Some res" "path \<noteq> []"
      using res by (simp_all add: resolve_path_walk split: if_splits)
    have parent: "p < next_inode fs" "inode_lookup fs p (res_part res) = Some None"
        "res_current (res_start fs path base) \<noteq> None"
      using walk_parts_parent [OF assms(1) start [OF assms(2)] walk(1) i(2) p(1) res_start_parent] by simp_all
    have grown: "grown p (res_part res) i fs fs'" "wf_vfs fs'" "i_type (inode_at fs' i) = ty"
      using inode_create_grows [OF assms(1) parent(1,2) p(2)] by simp_all
    have "resolve_path fs' path base = Some (res\<lparr>res_current := Some i\<rparr>)"
      using walk_parts_created [OF assms(1) grown(1) parent(2) start [OF assms(2)] parent(3) walk(1) i(2) p(1) refl]
        walk(2) by (simp add: resolve_path_walk grown_res_start [OF grown(1)])
    moreover have "resolve_path fs' path' base' = Some res'"
      if "known fs base'" "resolve_path fs path' base' = Some res'" "res_current res' = Some j" for path' base' res' j
      using walk_parts_grown [OF assms(1) grown(1) parent(2) start [OF that(1)], of "components path'" path' res'] that
      by (simp add: resolve_path_walk grown_res_start [OF grown(1)] split: if_splits)
    ultimately show ?thesis
      using i res grown(2,3) by simp
  qed
qed

definition empty_vfs :: vfs where
  "empty_vfs = \<lparr>inode_at = (\<lambda>_. new_inode RamFsInode RegularFile None []), next_inode = 0,
     root_inode = None, mounts = []\<rparr>"

text \<open>A file system with a root and the directory \<open>/home\<close>.\<close>

definition demo_vfs :: vfs where
  "demo_vfs = (let fs = the (mount_root RamFsDirectoryInode empty_vfs) in snd (the (vfs_mkdir ''/home'' None fs)))"

theorem vfs_create_resolves_witness:
  "wf_vfs demo_vfs \<and> (\<exists>i fs'. vfs_create ''/home/notes'' None RegularFile demo_vfs = Some (Inr i, fs') \<and>
     wf_vfs fs' \<and> i_type (inode_at fs' i) = RegularFile \<and>
     (\<exists>res'. resolve_path fs' ''/home/notes'' None = Some res' \<and> res_current res' = Some i))"
proof -
  have wf: "wf_vfs demo_vfs"
    unfolding wf_vfs_iff by code_simp
  moreover have "map_option fst (vfs_create ''/home/notes'' None RegularFile demo_vfs) = Some (Inr 2)"
    by code_simp
  then obtain fs' where created: "vfs_create ''/home/notes'' None RegularFile demo_vfs = Some (Inr 2, fs')"
    by auto
  ultimately show ?thesis
    using vfs_create_resolves [OF wf _ created] by auto
qed

section \<open>Reading and writing through handles\<close>

text \<open>A sequence of reads.\<close>

fun handle_reads :: "nat list \<Rightarrow> vfs \<Rightarrow> file_handle \<Rightarrow> (u8 list \<times> file_handle) option" where
  "handle_reads [] fs h = Some ([], h)"
| "handle_reads (n # ns) fs h = do {
     (bytes, h') \<leftarrow> handle_read n fs h;
     (more, h'') \<leftarrow> handle_reads ns fs h';
     Some (bytes @ more, h'')
   }"

lemma length_ensure_size [simp]: "length (ensure_size n data) = max n (length data)"
  by (simp add: ensure_size_def)

lemma mem_write_append:
  "mem_write (a + length xs) ys (mem_write a xs m) = mem_write a (xs @ ys) m" if "a + length xs + length ys \<le> length m"
  using that by (intro nth_equalityI) (auto simp: nth_mem_write nth_append)

lemma ensure_size_mem_write:
  assumes "a + length xs \<le> length data" and "length data \<le> n"
  shows "ensure_size n (mem_write a xs data) = mem_write a xs (ensure_size n data)"
  using assms by (auto simp: ensure_size_def mem_write_def)

lemma ensure_size_twice: "m \<le> n \<Longrightarrow> ensure_size n (ensure_size m data) = ensure_size n data"
  by (auto simp: ensure_size_def replicate_add [symmetric])

lemma ensure_size_less: "n \<le> length data \<Longrightarrow> ensure_size n data = data"
  by (simp add: ensure_size_def)

text \<open>Two writes in a row are one write of both.\<close>

lemma write_twice:
  "mem_write (a + length xs) ys (ensure_size (a + length xs + length ys) (mem_write a xs (ensure_size (a + length xs) data))) =
   mem_write a (xs @ ys) (ensure_size (a + length xs + length ys) data)"
proof (cases "a + length xs + length ys \<le> length data")
  case True
  then show ?thesis
    by (simp add: ensure_size_less mem_write_append)
next
  case False
  then show ?thesis
    by (simp add: ensure_size_mem_write ensure_size_twice mem_write_append)
qed

definition with_data :: "nat \<Rightarrow> u8 list \<Rightarrow> vfs \<Rightarrow> vfs" where
  "with_data i data fs = fs\<lparr>inode_at := (inode_at fs)(i := (inode_at fs i)\<lparr>i_data := data\<rparr>)\<rparr>"

lemma with_data_at: "inode_at (with_data i data fs) i = (inode_at fs i)\<lparr>i_data := data\<rparr>"
  by (simp add: with_data_def)

lemma with_data_twice: "with_data i data' (with_data i data fs) = with_data i data' fs"
  by (simp add: with_data_def)

lemma handle_write_eq:
  assumes "i_class (inode_at fs (h_inode h)) = RamFsInode" and "h_offset h + length bytes < 2 ^ 64"
  shows "handle_write bytes (fs, h) = Some (with_data (h_inode h) (mem_write (h_offset h) bytes
    (ensure_size (h_offset h + length bytes) (i_data (inode_at fs (h_inode h))))) fs,
    h\<lparr>h_offset := h_offset h + length bytes\<rparr>)"
  using assms by (simp add: handle_write_def inode_write_def ram_write_def with_data_def wrap_simps)

lemma handle_writes_eq:
  assumes "chunks \<noteq> []" and "i_class (inode_at fs (h_inode h)) = RamFsInode"
    and "h_offset h + length (concat chunks) < 2 ^ 64"
  shows "for_each handle_write chunks (fs, h) = Some (with_data (h_inode h) (mem_write (h_offset h) (concat chunks)
    (ensure_size (h_offset h + length (concat chunks)) (i_data (inode_at fs (h_inode h))))) fs,
    h\<lparr>h_offset := h_offset h + length (concat chunks)\<rparr>)"
  using assms
proof (induction chunks rule: rev_nonempty_induct)
  case (single bytes)
  then show ?case
    by (simp add: handle_write_eq)
next
  case (snoc bytes chunks)
  have "for_each handle_write chunks (fs, h) = Some (with_data (h_inode h) (mem_write (h_offset h) (concat chunks)
    (ensure_size (h_offset h + length (concat chunks)) (i_data (inode_at fs (h_inode h))))) fs,
    h\<lparr>h_offset := h_offset h + length (concat chunks)\<rparr>)"
    using snoc by simp
  then show ?case
    using snoc.prems
    by (simp add: for_each_append handle_write_eq with_data_at with_data_twice write_twice add.assoc [symmetric])
qed

lemma ram_read_eq: "ram_read n a data = take n (drop a data)"
  by (simp add: ram_read_def mem_read_def Let_def)

lemma handle_reads_eq:
  assumes "i_class (inode_at fs (h_inode h)) = RamFsInode" and "h_offset h + sum_list ns \<le> length (i_data (inode_at fs (h_inode h)))"
    and "length (i_data (inode_at fs (h_inode h))) < 2 ^ 64"
  shows "handle_reads ns fs h = Some (mem_read (h_offset h) (sum_list ns) (i_data (inode_at fs (h_inode h))),
    h\<lparr>h_offset := h_offset h + sum_list ns\<rparr>)"
  using assms
proof (induction ns arbitrary: h)
  case (Cons n ns)
  have read: "handle_read n fs h = Some (mem_read (h_offset h) n (i_data (inode_at fs (h_inode h))),
      h\<lparr>h_offset := h_offset h + n\<rparr>)"
    using Cons.prems by (simp add: handle_read_def inode_read_def ram_read_eq mem_read_def wrap_simps)
  show ?case
    using Cons.IH [of "h\<lparr>h_offset := h_offset h + n\<rparr>"] Cons.prems
      mem_read_split [of n "n + sum_list ns" "h_offset h" "i_data (inode_at fs (h_inode h))"]
    by (simp add: read add.assoc)
qed simp

text \<open>
  C17. What is written through a handle on a file of the memory file system, in any number of pieces, is
  what a handle at the same position reads back, in pieces of any sizes that add up. The positions of both
  handles advance by the number of bytes, a gap between the end of the file and the position is filled with
  zeros, the bytes in front of the position stay, and no other inode changes.
\<close>

theorem handle_write_read:
  assumes "i_class (inode_at fs (h_inode h)) = RamFsInode" and "chunks \<noteq> []"
    and "h_offset h + length (concat chunks) < 2 ^ 64" and "length (i_data (inode_at fs (h_inode h))) < 2 ^ 64"
    and "sum_list sizes = length (concat chunks)"
  shows "\<exists>fs' h'. for_each handle_write chunks (fs, h) = Some (fs', h') \<and>
    h_offset h' = h_offset h + length (concat chunks) \<and>
    handle_reads sizes fs' h = Some (concat chunks, h') \<and>
    take (h_offset h) (i_data (inode_at fs' (h_inode h))) = ensure_size (h_offset h) (take (h_offset h) (i_data (inode_at fs (h_inode h)))) \<and>
    (\<forall>j. j \<noteq> h_inode h \<longrightarrow> inode_at fs' j = inode_at fs j)"
proof -
  let ?i = "h_inode h" and ?a = "h_offset h" and ?n = "length (concat chunks)"
  let ?data = "mem_write ?a (concat chunks) (ensure_size (?a + ?n) (i_data (inode_at fs ?i)))"
  have "handle_reads sizes (with_data ?i ?data fs) h =
      Some (mem_read ?a ?n ?data, h\<lparr>h_offset := ?a + ?n\<rparr>)"
    using assms by (subst handle_reads_eq) (simp_all add: with_data_at)
  moreover have "mem_read ?a ?n ?data = concat chunks"
    by (rule mem_read_write_same) simp
  moreover have "take ?a ?data = ensure_size ?a (take ?a (i_data (inode_at fs ?i)))"
    by (auto simp: mem_write_def ensure_size_def min_def)
  ultimately show ?thesis
    using handle_writes_eq [OF assms(2,1,3)] by (simp add: with_data_at) (simp add: with_data_def)
qed

theorem handle_write_read_witness:
  "let fs = snd (add_child 0 (new_inode RamFsInode RegularFile (Some 0) ''notes'') demo_vfs); h = \<lparr>h_inode = 2, h_offset = 3\<rparr>
   in i_class (inode_at fs 2) = RamFsInode \<and>
     (\<exists>fs' h'. for_each handle_write [[1, 2], [3 :: u8]] (fs, h) = Some (fs', h') \<and>
       handle_reads [1, 0, 2] fs' h = Some ([1, 2, 3], h') \<and> take 3 (i_data (inode_at fs' 2)) = [0, 0, 0])"
proof -
  let ?fs = "snd (add_child 0 (new_inode RamFsInode RegularFile (Some 0) ''notes'') demo_vfs)"
  let ?h = "\<lparr>h_inode = 2, h_offset = 3\<rparr>"
  have empty: "i_class (inode_at ?fs (h_inode ?h)) = RamFsInode" "i_data (inode_at ?fs (h_inode ?h)) = []"
    by code_simp+
  have gap: "ensure_size (h_offset ?h) (take (h_offset ?h) (i_data (inode_at ?fs (h_inode ?h)))) = [0, 0, 0]"
    unfolding empty(2) by code_simp
  have "\<exists>fs' h'. for_each handle_write [[1, 2], [3]] (?fs, ?h) = Some (fs', h') \<and>
      handle_reads [1, 0, 2] fs' ?h = Some (concat [[1, 2], [3]], h') \<and> take 3 (i_data (inode_at fs' 2)) = [0, 0, 0]"
    using handle_write_read [of ?fs ?h "[[1, 2], [3]]" "[1, 0, 2]", OF empty(1)] empty(2) unfolding gap by auto
  then show ?thesis
    using empty(1) by (simp only: Let_def file_handle.simps) simp
qed

text \<open>
  A device in a directory of the device file system is never detached: the path that attached it is
  looked for as one name among the children of the root. As long as names hold no slash, detaching a path
  with a slash fails its assertion.
\<close>

theorem detach_device_nested_fails:
  assumes "CHR ''/'' \<in> set path" and "\<forall>c\<in>set (i_children (inode_at fs dev_root)). CHR ''/'' \<notin> set (i_name (inode_at fs c))"
  shows "detach_device path dev_root fs = None"
proof -
  have "remove_named (inode_at fs) path cs = None" if "\<forall>c\<in>set cs. CHR ''/'' \<notin> set (i_name (inode_at fs c))" for cs
    using that assms(1) by (induction cs) auto
  then show ?thesis
    using assms(2) by (simp add: detach_device_def dev_remove_def Let_def)
qed

theorem detach_device_nested_fails_witness:
  "\<exists>fs. map_option fst (dev_fs_initialise (the (mount_root RamFsDirectoryInode empty_vfs))) = Some 2 \<and>
     map_option snd (dev_fs_initialise (the (mount_root RamFsDirectoryInode empty_vfs))) = Some fs \<and>
     attach_device 7 ''pci/0'' 2 fs \<noteq> None \<and> detach_device ''pci/0'' 2 (the (attach_device 7 ''pci/0'' 2 fs)) = None"
proof -
  let ?fs = "snd (the (dev_fs_initialise (the (mount_root RamFsDirectoryInode empty_vfs))))"
  let ?fs' = "the (attach_device 7 ''pci/0'' 2 ?fs)"
  have "map_option fst (dev_fs_initialise (the (mount_root RamFsDirectoryInode empty_vfs))) = Some 2"
    by code_simp
  moreover have "list_all (\<lambda>c. CHR ''/'' \<notin> set (i_name (inode_at ?fs' c))) (i_children (inode_at ?fs' 2))"
      "map_option next_inode (attach_device 7 ''pci/0'' 2 ?fs) = Some 5"
    by code_simp+
  ultimately show ?thesis
    using detach_device_nested_fails [of "''pci/0''" ?fs' 2]
    by (intro exI [of _ ?fs]) (auto simp: list_all_iff)
qed

end
