(* ===== verification/Vectors.thy ===== *)
theory Vectors
  imports Prelude
begin

text \<open>
  The growable array of \<^verbatim>\<open>src/ustd/vector.hh\<close>. The storage of a vector is a list of slots, one per
  element of the capacity; a slot is \<open>None\<close> while no object lives in it. Constructing, reading or
  destroying outside the storage, and reading a slot without an object, are failures. Capacities and
  sizes are values of the size type, of which there are \<open>M\<close> (\<open>2 ^ 32\<close>, or \<open>2 ^ 64\<close> for \<open>LargeVector\<close>).
  The \<open>if constexpr\<close> branches for trivially copyable elements are chosen by the flag \<open>triv\<close>.
\<close>

section \<open>State\<close>

record 'a vec =
  v_slots :: "'a option list"
  v_capacity :: nat
  v_size :: nat

definition vec_empty :: "'a vec" where
  "vec_empty = \<lparr>v_slots = [], v_capacity = 0, v_size = 0\<rparr>"

definition slot_put :: "nat \<Rightarrow> 'a \<Rightarrow> 'a vec \<Rightarrow> 'a vec option" where
  "slot_put i x v = do { ensure (i < length (v_slots v)); Some (v\<lparr>v_slots := (v_slots v)[i := Some x]\<rparr>) }"

definition slot_get :: "nat \<Rightarrow> 'a vec \<Rightarrow> 'a option" where
  "slot_get i v = do { ensure (i < length (v_slots v)); v_slots v ! i }"

text \<open>Destroying an object; a trivially destructible one is left as it is.\<close>

definition slot_destroy :: "bool \<Rightarrow> nat \<Rightarrow> 'a vec \<Rightarrow> 'a vec option" where
  "slot_destroy triv i v =
     (if triv then Some v
      else do { _ \<leftarrow> slot_get i v; Some (v\<lparr>v_slots := (v_slots v)[i := None]\<rparr>) })"

section \<open>Operations\<close>

definition vec_clear :: "bool \<Rightarrow> 'a vec \<Rightarrow> 'a vec option" where
  "vec_clear triv v = do {
     v' \<leftarrow> for_each (slot_destroy triv) (rev [0..<v_size v]) v;
     Some (v'\<lparr>v_size := 0\<rparr>)
   }"

text \<open>The elements move to new storage and the old one is given back.\<close>

definition vec_reallocate :: "nat \<Rightarrow> 'a vec \<Rightarrow> 'a vec option" where
  "vec_reallocate capacity v = do {
     ensure (capacity \<ge> v_size v);
     let new_data = v\<lparr>v_slots := replicate capacity None\<rparr>;
     new_data' \<leftarrow> for_each (\<lambda>i nd. do { x \<leftarrow> slot_get i v; slot_put i x nd }) [0..<v_size v] new_data;
     Some (new_data'\<lparr>v_capacity := capacity\<rparr>)
   }"

definition ensure_capacity :: "nat \<Rightarrow> nat \<Rightarrow> 'a vec \<Rightarrow> 'a vec option" where
  "ensure_capacity M capacity v =
     (if capacity > v_capacity v
      then vec_reallocate (max ((v_capacity v * 2 + 1) mod M) capacity) v
      else Some v)"

definition vec_ensure_size :: "nat \<Rightarrow> nat \<Rightarrow> 'a \<Rightarrow> 'a vec \<Rightarrow> 'a vec option" where
  "vec_ensure_size M n x v =
     (if n \<le> v_size v then Some v
      else do {
        v1 \<leftarrow> ensure_capacity M n v;
        v2 \<leftarrow> for_each (\<lambda>i. slot_put i x) [v_size v1..<n] v1;
        Some (v2\<lparr>v_size := n\<rparr>)
      })"

definition vec_make :: "nat \<Rightarrow> nat \<Rightarrow> 'a \<Rightarrow> 'a vec option" where
  "vec_make M n x = vec_ensure_size M n x vec_empty"

definition vec_index :: "nat \<Rightarrow> 'a vec \<Rightarrow> 'a option" where
  "vec_index index v = do { ensure (index < v_size v); slot_get index v }"

text \<open>Assigning to the element the subscript operator returns.\<close>

definition vec_assign :: "nat \<Rightarrow> 'a \<Rightarrow> 'a vec \<Rightarrow> 'a vec option" where
  "vec_assign index x v = do { ensure (index < v_size v); slot_put index x v }"

definition vec_emplace :: "nat \<Rightarrow> 'a \<Rightarrow> 'a vec \<Rightarrow> ('a \<times> 'a vec) option" where
  "vec_emplace M x v = do {
     v1 \<leftarrow> ensure_capacity M ((v_size v + 1) mod M) v;
     v2 \<leftarrow> slot_put (v_size v1) x v1;
     let v3 = v2\<lparr>v_size := (v_size v2 + 1) mod M\<rparr>;
     y \<leftarrow> vec_index (v_size v2) v3;
     Some (y, v3)
   }"

text \<open>The elements behind the index move up by one, the last one first.\<close>

definition vec_emplace_at :: "nat \<Rightarrow> nat \<Rightarrow> 'a \<Rightarrow> 'a vec \<Rightarrow> ('a \<times> 'a vec) option" where
  "vec_emplace_at M index x v =
     (if index = v_size v then vec_emplace M x v
      else do {
        ensure (index < v_size v);
        v1 \<leftarrow> ensure_capacity M ((v_size v + 1) mod M) v;
        z \<leftarrow> slot_get (v_size v1 - 1) v1;
        v2 \<leftarrow> slot_put (v_size v1) z v1;
        v3 \<leftarrow> for_each (\<lambda>i w. do { y \<leftarrow> slot_get i w; slot_put (i + 1) y w }) (rev [index..<v_size v2 - 1]) v2;
        let v4 = v3\<lparr>v_size := (v_size v3 + 1) mod M\<rparr>;
        v5 \<leftarrow> slot_put index x v4;
        Some (x, v5)
      })"

definition vec_push :: "nat \<Rightarrow> 'a \<Rightarrow> 'a vec \<Rightarrow> 'a vec option" where
  "vec_push M x v = do {
     v1 \<leftarrow> ensure_capacity M ((v_size v + 1) mod M) v;
     v2 \<leftarrow> slot_put (v_size v1) x v1;
     Some (v2\<lparr>v_size := (v_size v2 + 1) mod M\<rparr>)
   }"

definition vec_push_move :: "nat \<Rightarrow> 'a \<Rightarrow> 'a vec \<Rightarrow> 'a vec option" where
  "vec_push_move M x v = do {
     v1 \<leftarrow> ensure_capacity M ((v_size v + 1) mod M) v;
     v2 \<leftarrow> slot_put (v_size v1) x v1;
     Some (v2\<lparr>v_size := (v_size v2 + 1) mod M\<rparr>)
   }"

definition vec_extend :: "nat \<Rightarrow> bool \<Rightarrow> 'a list \<Rightarrow> 'a vec \<Rightarrow> 'a vec option" where
  "vec_extend M triv xs v =
     (if xs = [] then Some v
      else do {
        v1 \<leftarrow> ensure_capacity M ((v_size v + length xs mod M) mod M) v;
        if triv then do {
          v2 \<leftarrow> for_each (\<lambda>i. slot_put (v_size v1 + i) (xs ! i)) [0..<length xs] v1;
          Some (v2\<lparr>v_size := (v_size v2 + length xs mod M) mod M\<rparr>)
        } else for_each (vec_push M) xs v1
      })"

text \<open>A trivially copyable element is returned, and stays in its slot.\<close>

definition vec_pop :: "bool \<Rightarrow> 'a vec \<Rightarrow> ('a option \<times> 'a vec) option" where
  "vec_pop triv v = do {
     ensure (v_size v \<noteq> 0);
     let v' = v\<lparr>v_size := v_size v - 1\<rparr>;
     if triv then do { x \<leftarrow> slot_get (v_size v') v'; Some (Some x, v') }
     else do { v'' \<leftarrow> slot_destroy triv (v_size v') v'; Some (None, v'') }
   }"

text \<open>The copy of overlapping ranges runs upwards, as \<open>memcpy\<close> of \<^verbatim>\<open>ustd/builtin.cc\<close> does.\<close>

definition vec_remove :: "bool \<Rightarrow> nat \<Rightarrow> 'a vec \<Rightarrow> 'a vec option" where
  "vec_remove triv index v = do {
     ensure (index < v_size v);
     v1 \<leftarrow> slot_destroy triv index v;
     let v2 = v1\<lparr>v_size := v_size v1 - 1\<rparr>;
     for_each (\<lambda>i w. do { y \<leftarrow> slot_get (i + 1) w; w' \<leftarrow> slot_put i y w; slot_destroy triv (i + 1) w' })
       [index..<v_size v2] v2
   }"

definition vec_take :: "bool \<Rightarrow> nat \<Rightarrow> 'a vec \<Rightarrow> ('a \<times> 'a vec) option" where
  "vec_take triv index v = do {
     ensure (index < v_size v);
     x \<leftarrow> slot_get index v;
     v' \<leftarrow> vec_remove triv index v;
     Some (x, v')
   }"

text \<open>The storage and the number of elements are handed out.\<close>

definition vec_take_all :: "'a vec \<Rightarrow> ('a option list \<times> nat) \<times> 'a vec" where
  "vec_take_all v = ((v_slots v, v_size v), v\<lparr>v_slots := [], v_capacity := 0, v_size := 0\<rparr>)"

definition vec_copy :: "nat \<Rightarrow> 'a vec \<Rightarrow> 'a vec option" where
  "vec_copy M other = do {
     v1 \<leftarrow> ensure_capacity M (v_size other) vec_empty;
     let v2 = v1\<lparr>v_size := v_size other\<rparr>;
     for_each (\<lambda>i w. do { x \<leftarrow> slot_get i other; slot_put i x w }) [0..<v_size other] v2
   }"

definition vec_move :: "'a vec \<Rightarrow> 'a vec \<times> 'a vec" where
  "vec_move other = (other, vec_empty)"

text \<open>The storage of the target is dropped without being given back.\<close>

definition vec_move_assign :: "bool \<Rightarrow> 'a vec \<Rightarrow> 'a vec \<Rightarrow> ('a vec \<times> 'a vec) option" where
  "vec_move_assign triv other v = do { _ \<leftarrow> vec_clear triv v; Some (other, vec_empty) }"

section \<open>Vectors that hold a list\<close>

abbreviation vec_of :: "'a list \<Rightarrow> 'a option list \<Rightarrow> 'a vec" where
  "vec_of xs rest \<equiv> \<lparr>v_slots = map Some xs @ rest, v_capacity = length xs + length rest, v_size = length xs\<rparr>"

text \<open>The elements are the first slots, and the capacity is a value of the size type.\<close>

definition vec_rep :: "nat \<Rightarrow> 'a list \<Rightarrow> 'a vec \<Rightarrow> bool" where
  "vec_rep M xs v \<longleftrightarrow> (\<exists>rest. v = vec_of xs rest \<and> length xs + length rest < M)"

lemma vec_repI: "length xs + length rest < M \<Longrightarrow> vec_rep M xs (vec_of xs rest)"
  by (auto simp: vec_rep_def)

lemma vec_repE:
  assumes "vec_rep M xs v"
  obtains rest where "v = vec_of xs rest" "length xs + length rest < M"
  using assms by (auto simp: vec_rep_def)

lemma vec_rep_unique: "vec_rep M xs v \<Longrightarrow> vec_rep M ys v \<Longrightarrow> xs = ys"
  by (auto simp: vec_rep_def)

lemma slot_put_at:
  "v_slots v = pre @ y # post \<Longrightarrow> i = length pre \<Longrightarrow> slot_put i x v = Some (v\<lparr>v_slots := pre @ Some x # post\<rparr>)"
  by (simp add: slot_put_def)

lemma slot_get_at: "v_slots v = pre @ y # post \<Longrightarrow> i = length pre \<Longrightarrow> slot_get i v = y"
  by (simp add: slot_get_def)

lemma slot_get_nth: "i < length xs \<Longrightarrow> v_slots v = map Some xs @ rest \<Longrightarrow> slot_get i v = Some (xs ! i)"
  by (simp add: slot_get_def nth_append)

text \<open>Filling slots one after the other.\<close>

lemma fill_slots:
  assumes "v_slots w = pre @ rest" and "length xs \<le> length rest" and "a = length pre"
    and "\<And>i u. i < length xs \<Longrightarrow> body (b + i) u = slot_put (a + i) (xs ! i) u"
  shows "for_each body [b..<b + length xs] w = Some (w\<lparr>v_slots := pre @ map Some xs @ drop (length xs) rest\<rparr>)"
  using assms
proof (induction xs arbitrary: w pre rest a b)
  case (Cons x xs)
  obtain r rest' where rest: "rest = r # rest'"
    using Cons.prems(2) by (cases rest) auto
  have first: "body b w = Some (w\<lparr>v_slots := pre @ Some x # rest'\<rparr>)"
    using Cons.prems(1,3) Cons.prems(4) [of 0 w] rest by (simp add: slot_put_at)
  have "body (Suc b + i) u = slot_put (Suc a + i) (xs ! i) u" if "i < length xs" for i u
    using Cons.prems(4) [of "Suc i" u] that by simp
  then have "for_each body [Suc b..<Suc b + length xs] (w\<lparr>v_slots := pre @ Some x # rest'\<rparr>) =
      Some (w\<lparr>v_slots := (pre @ [Some x]) @ map Some xs @ drop (length xs) rest'\<rparr>)"
    using Cons.prems(2,3) rest by (subst Cons.IH [of _ "pre @ [Some x]" rest' "Suc a"]) auto
  moreover have "[b..<b + length (x # xs)] = b # [Suc b..<Suc b + length xs]"
    by (simp add: upt_rec del: upt_Suc)
  ultimately show ?case
    using first rest by (simp del: upt_Suc)
qed simp

lemma reallocate_rep:
  assumes "length xs \<le> capacity"
  shows "vec_reallocate capacity (vec_of xs rest) = Some (vec_of xs (replicate (capacity - length xs) None))"
proof -
  let ?v = "vec_of xs rest" and ?w = "vec_of xs rest\<lparr>v_slots := replicate capacity None\<rparr>"
  have "for_each (\<lambda>i nd. do { x \<leftarrow> slot_get i ?v; slot_put i x nd }) [0..<0 + length xs] ?w =
      Some (?w\<lparr>v_slots := [] @ map Some xs @ drop (length xs) (replicate capacity None)\<rparr>)"
    using assms by (intro fill_slots [where a = 0]) (simp_all add: slot_get_nth)
  then show ?thesis
    using assms by (simp add: vec_reallocate_def)
qed

lemma ensure_capacity_rep:
  assumes "n < M" and "length xs + length rest < M"
  shows "\<exists>rest'. ensure_capacity M n (vec_of xs rest) = Some (vec_of xs rest') \<and>
    n \<le> length xs + length rest' \<and> length xs + length rest' < M"
proof (cases "n > length xs + length rest")
  case True
  let ?c = "max (((length xs + length rest) * 2 + 1) mod M) n"
  have "length xs \<le> ?c" "n \<le> ?c" "?c < M"
    using True assms by simp_all
  then show ?thesis
    using True reallocate_rep [of xs ?c rest]
    by (intro exI [of _ "replicate (?c - length xs) None"]) (simp add: ensure_capacity_def)
next
  case False
  then show ?thesis
    using assms by (auto simp: ensure_capacity_def)
qed

text \<open>Moving slots up and down by one.\<close>

lemma shift_up:
  assumes "v_slots w = pre @ map Some ys @ z # post"
  shows "for_each (\<lambda>i w. do { y \<leftarrow> slot_get i w; slot_put (i + 1) y w }) (rev [length pre..<length pre + length ys]) w =
    Some (w\<lparr>v_slots := pre @ hd (map Some ys @ [z]) # map Some ys @ post\<rparr>)"
  using assms
proof (induction ys arbitrary: w z post rule: rev_induct)
  case (snoc b ys)
  let ?w = "w\<lparr>v_slots := pre @ map Some ys @ Some b # Some b # post\<rparr>"
  have "slot_get (length pre + length ys) w = Some b"
    using snoc.prems by (intro slot_get_at [of _ "pre @ map Some ys" _ "z # post"]) simp_all
  moreover have "slot_put (length pre + length ys + 1) b w = Some ?w"
    using snoc.prems by (subst slot_put_at [of _ "pre @ map Some (ys @ [b])" z post]) simp_all
  ultimately show ?case
    using snoc.IH [of ?w "Some b" "Some b # post"] by (cases ys) simp_all
qed simp

lemma slot_destroy_at:
  "v_slots v = pre @ Some y # post \<Longrightarrow> i = length pre \<Longrightarrow>
   slot_destroy triv i v = Some (v\<lparr>v_slots := pre @ (if triv then Some y else None) # post\<rparr>)"
  by (auto simp: slot_destroy_def slot_get_def)

lemma shift_down:
  assumes "v_slots w = pre @ d # map Some ys @ post"
  shows "\<exists>e. for_each (\<lambda>i w. do { y \<leftarrow> slot_get (i + 1) w; w' \<leftarrow> slot_put i y w; slot_destroy triv (i + 1) w' })
    [length pre..<length pre + length ys] w = Some (w\<lparr>v_slots := pre @ map Some ys @ e # post\<rparr>)"
  using assms
proof (induction ys arbitrary: w pre d)
  case (Cons b ys)
  let ?d = "if triv then Some b else None"
  let ?w = "w\<lparr>v_slots := pre @ Some b # ?d # map Some ys @ post\<rparr>"
  have "slot_get (length pre + 1) w = Some b"
    using Cons.prems by (intro slot_get_at [of _ "pre @ [d]"]) simp_all
  moreover have "slot_put (length pre) b w = Some (w\<lparr>v_slots := pre @ Some b # Some b # map Some ys @ post\<rparr>)"
    using Cons.prems by (subst slot_put_at [of _ pre d "map Some (b # ys) @ post"]) simp_all
  moreover have "slot_destroy triv (length pre + 1) (w\<lparr>v_slots := pre @ Some b # Some b # map Some ys @ post\<rparr>) = Some ?w"
    by (subst slot_destroy_at [of _ "pre @ [Some b]" b "map Some ys @ post"]) simp_all
  moreover have "[length pre..<length pre + length (b # ys)] =
      length pre # [length (pre @ [Some b])..<length (pre @ [Some b]) + length ys]"
    by (simp add: upt_rec del: upt_Suc)
  ultimately show ?case
    using Cons.IH [of ?w "pre @ [Some b]" ?d] by (auto simp del: upt_Suc)
next
  case Nil
  then show ?case
    by (cases w) auto
qed

section \<open>Every operation is the operation on lists\<close>

lemma vec_push_rep:
  assumes "vec_rep M xs v" and "length xs + 1 < M"
  shows "\<exists>v'. vec_push M x v = Some v' \<and> vec_push_move M x v = Some v' \<and>
    vec_emplace M x v = Some (x, v') \<and> vec_rep M (xs @ [x]) v'"
proof -
  obtain rest where v: "v = vec_of xs rest" "length xs + length rest < M"
    using assms(1) by (rule vec_repE)
  obtain rest' where cap: "ensure_capacity M (length xs + 1) v = Some (vec_of xs rest')"
      "length xs + 1 \<le> length xs + length rest'" "length xs + length rest' < M"
    using ensure_capacity_rep [OF assms(2) v(2)] v(1) by blast
  then obtain r rest'' where rest': "rest' = r # rest''"
    by (cases rest') auto
  let ?v = "vec_of (xs @ [x]) rest''"
  have put: "slot_put (length xs) x (vec_of xs rest') = Some (?v\<lparr>v_size := length xs\<rparr>)"
    using rest' by (subst slot_put_at [of _ "map Some xs" r rest'']) simp_all
  have "vec_index (length xs) ?v = Some x"
    by (simp add: vec_index_def slot_get_def nth_append)
  moreover have "vec_rep M (xs @ [x]) ?v"
    using cap(3) rest' by (intro vec_repI) simp
  ultimately show ?thesis
    using assms(2) cap(1) put v(1)
    by (intro exI [of _ ?v]) (simp add: vec_push_def vec_push_move_def vec_emplace_def)
qed

lemma vec_emplace_at_rep:
  assumes "vec_rep M xs v" and "length xs + 1 < M" and "index \<le> length xs"
  shows "\<exists>v'. vec_emplace_at M index x v = Some (x, v') \<and> vec_rep M (take index xs @ x # drop index xs) v'"
proof (cases "index = length xs")
  case True
  then show ?thesis
    using vec_push_rep [OF assms(1,2), of x] assms(1) by (auto simp: vec_emplace_at_def elim: vec_repE)
next
  case False
  obtain rest where v: "v = vec_of xs rest" "length xs + length rest < M"
    using assms(1) by (rule vec_repE)
  obtain rest' where cap: "ensure_capacity M (length xs + 1) v = Some (vec_of xs rest')"
      "length xs + 1 \<le> length xs + length rest'" "length xs + length rest' < M"
    using ensure_capacity_rep [OF assms(2) v(2)] v(1) by blast
  then obtain r rest'' where rest': "rest' = r # rest''"
    by (cases rest') auto
  obtain ys z where drop: "drop index xs = ys @ [z]"
    using False assms(3) by (cases "drop index xs" rule: rev_cases) auto
  define us where "us = take index xs"
  have xs: "xs = us @ ys @ [z]"
    using drop by (metis append_take_drop_id us_def)
  have idx: "index = length us"
    using assms(3) by (simp add: us_def)
  let ?w = "vec_of xs rest'"
  have get: "slot_get (length xs - 1) ?w = Some z"
    by (intro slot_get_at [of _ "map Some (us @ ys)" _ rest']) (simp_all add: xs)
  define w2 where "w2 = ?w\<lparr>v_slots := map Some us @ map Some ys @ Some z # Some z # rest''\<rparr>"
  have put: "slot_put (length xs) z ?w = Some w2"
    unfolding w2_def by (subst slot_put_at [of _ "map Some xs" r rest'']) (simp_all add: xs rest')
  define w3 where "w3 = w2\<lparr>v_slots := map Some us @ hd (map Some ys @ [Some z]) # map Some ys @ Some z # rest''\<rparr>"
  have up: "for_each (\<lambda>i w. do { y \<leftarrow> slot_get i w; slot_put (i + 1) y w }) (rev [index..<v_size w2 - 1]) w2 = Some w3"
    using shift_up [of w2 "map Some us" ys "Some z" "Some z # rest''"] by (simp add: w2_def w3_def xs idx)
  let ?v = "vec_of (us @ x # ys @ [z]) rest''"
  have "slot_put index x (w3\<lparr>v_size := length xs + 1\<rparr>) = Some ?v"
    unfolding w3_def w2_def by (subst slot_put_at [of _ "map Some us"]) (simp_all add: xs idx rest')
  moreover have "vec_rep M (us @ x # ys @ [z]) ?v"
    using cap(3) by (intro vec_repI) (simp add: xs rest')
  moreover have "v_size v = length xs" "v_size w2 = length xs" "v_size w3 = length xs"
    using v(1) by (simp_all add: w2_def w3_def)
  ultimately show ?thesis
    using False assms(2,3) cap(1) get put up drop
    by (intro exI [of _ ?v]) (simp add: vec_emplace_at_def us_def)
qed

lemma vec_remove_rep:
  assumes "vec_rep M xs v" and "index < length xs"
  shows "\<exists>v'. vec_remove triv index v = Some v' \<and> vec_take triv index v = Some (xs ! index, v') \<and>
    vec_rep M (take index xs @ drop (Suc index) xs) v'"
proof -
  obtain rest where v: "v = vec_of xs rest" "length xs + length rest < M"
    using assms(1) by (rule vec_repE)
  define us y ys where "us = take index xs" and "y = xs ! index" and "ys = drop (Suc index) xs"
  have xs: "xs = us @ y # ys" and idx: "index = length us"
    using id_take_nth_drop [OF assms(2)] assms(2) by (simp_all add: us_def y_def ys_def)
  define w where "w = v\<lparr>v_slots := map Some us @ (if triv then Some y else None) # map Some ys @ rest,
    v_size := length us + length ys\<rparr>"
  have "slot_destroy triv index v = Some (w\<lparr>v_size := length xs\<rparr>)"
    unfolding w_def by (subst slot_destroy_at [of _ "map Some us" y]) (simp_all add: v(1) xs idx)
  moreover obtain e where "for_each (\<lambda>i w. do { y \<leftarrow> slot_get (i + 1) w; w' \<leftarrow> slot_put i y w; slot_destroy triv (i + 1) w' })
      [index..<length xs - 1] w = Some (w\<lparr>v_slots := map Some us @ map Some ys @ e # rest\<rparr>)"
    using shift_down [of w "map Some us" _ ys rest triv] by (auto simp: w_def idx xs)
  moreover have "w\<lparr>v_slots := map Some us @ map Some ys @ e # rest\<rparr> = vec_of (us @ ys) (e # rest)"
    by (simp add: w_def v(1) xs)
  moreover have "vec_rep M (us @ ys) (vec_of (us @ ys) (e # rest))"
    using v(2) by (intro vec_repI) (simp add: xs)
  moreover have "v_size v = length xs" "w\<lparr>v_size := length xs, v_size := length xs - 1\<rparr> = w" "slot_get index v = Some y"
    by (simp_all add: w_def v(1) xs idx slot_get_def nth_append)
  ultimately show ?thesis
    using assms(2) by (simp add: vec_remove_def vec_take_def us_def y_def ys_def)
qed

lemma vec_index_rep:
  assumes "vec_rep M xs v"
  shows "vec_index index v = (if index < length xs then Some (xs ! index) else None)"
  using assms by (auto simp: vec_index_def slot_get_nth elim!: vec_repE)

lemma vec_assign_rep:
  assumes "vec_rep M xs v" and "index < length xs"
  shows "\<exists>v'. vec_assign index x v = Some v' \<and> vec_rep M (xs[index := x]) v'"
proof -
  obtain rest where v: "v = vec_of xs rest" "length xs + length rest < M"
    using assms(1) by (rule vec_repE)
  then have "vec_assign index x v = Some (vec_of (xs[index := x]) rest)"
    using assms(2) by (simp add: vec_assign_def slot_put_def list_update_append map_update)
  then show ?thesis
    using v(2) vec_repI [of "xs[index := x]" rest M] by simp
qed

lemma vec_pop_rep:
  assumes "vec_rep M (xs @ [x]) v"
  shows "\<exists>v'. vec_pop triv v = Some (if triv then Some x else None, v') \<and> vec_rep M xs v'"
proof -
  obtain rest where v: "v = vec_of (xs @ [x]) rest" "length (xs @ [x]) + length rest < M"
    using assms by (rule vec_repE)
  let ?v = "v\<lparr>v_size := length xs\<rparr>"
  have get: "slot_get (length xs) ?v = Some x"
    by (intro slot_get_at [of _ "map Some xs" _ rest]) (simp_all add: v(1))
  have destroy: "slot_destroy False (length xs) ?v = Some (?v\<lparr>v_slots := map Some xs @ None # rest\<rparr>)"
    by (subst slot_destroy_at [of _ "map Some xs" x rest]) (simp_all add: v(1))
  have "vec_rep M xs (vec_of xs (r # rest))" for r
    using v(2) by (intro vec_repI) simp
  then show ?thesis
    using get destroy by (auto simp: vec_pop_def v(1))
qed

lemma vec_ensure_size_rep:
  assumes "vec_rep M xs v" and "n < M"
  shows "\<exists>v'. vec_ensure_size M n x v = Some v' \<and> vec_rep M (xs @ replicate (n - length xs) x) v'"
proof (cases "n \<le> length xs")
  case True
  then show ?thesis
    using assms by (auto simp: vec_ensure_size_def elim: vec_repE)
next
  case False
  obtain rest where v: "v = vec_of xs rest" "length xs + length rest < M"
    using assms(1) by (rule vec_repE)
  obtain rest' where cap: "ensure_capacity M n v = Some (vec_of xs rest')"
      "n \<le> length xs + length rest'" "length xs + length rest' < M"
    using ensure_capacity_rep [OF assms(2) v(2)] v(1) by blast
  let ?ys = "replicate (n - length xs) x"
  have "for_each (\<lambda>i. slot_put i x) [length xs..<length xs + length ?ys] (vec_of xs rest') =
      Some (vec_of xs rest'\<lparr>v_slots := map Some xs @ map Some ?ys @ drop (length ?ys) rest'\<rparr>)"
    using cap(2) by (intro fill_slots [where a = "length xs"]) simp_all
  moreover have "vec_of xs rest'\<lparr>v_slots := map Some xs @ map Some ?ys @ drop (length ?ys) rest', v_size := n\<rparr> =
      vec_of (xs @ ?ys) (drop (length ?ys) rest')"
    using False cap(2) by simp
  moreover have "vec_rep M (xs @ ?ys) (vec_of (xs @ ?ys) (drop (length ?ys) rest'))"
    using False cap(2,3) by (intro vec_repI) simp
  ultimately show ?thesis
    using False cap(1) v(1) by (simp add: vec_ensure_size_def)
qed

lemma destroy_all:
  assumes "v_slots w = map Some xs @ rest"
  shows "\<exists>ys. length ys = length xs \<and>
    for_each (slot_destroy triv) (rev [0..<length xs]) w = Some (w\<lparr>v_slots := ys @ rest\<rparr>)"
  using assms
proof (induction xs arbitrary: w rest rule: rev_induct)
  case (snoc x xs)
  let ?y = "if triv then Some x else None"
  have "slot_destroy triv (length xs) w = Some (w\<lparr>v_slots := map Some xs @ ?y # rest\<rparr>)"
    using snoc.prems by (subst slot_destroy_at [of _ "map Some xs" x rest]) simp_all
  moreover obtain ys where "length ys = length xs" "for_each (slot_destroy triv) (rev [0..<length xs])
      (w\<lparr>v_slots := map Some xs @ ?y # rest\<rparr>) = Some (w\<lparr>v_slots := ys @ ?y # rest\<rparr>)"
    using snoc.IH [of "w\<lparr>v_slots := map Some xs @ ?y # rest\<rparr>" "?y # rest"] by auto
  ultimately show ?case
    by (intro exI [of _ "ys @ [?y]"]) simp
next
  case Nil
  then show ?case
    by (cases w) auto
qed

lemma vec_clear_rep:
  assumes "vec_rep M xs v"
  shows "\<exists>v'. vec_clear triv v = Some v' \<and> vec_rep M [] v'"
proof -
  obtain rest where v: "v = vec_of xs rest" "length xs + length rest < M"
    using assms by (rule vec_repE)
  obtain ys where "length ys = length xs"
      "for_each (slot_destroy triv) (rev [0..<length xs]) v = Some (v\<lparr>v_slots := ys @ rest\<rparr>)"
    using destroy_all [of v xs rest triv] v(1) by auto
  moreover have "v\<lparr>v_slots := ys @ rest, v_size := 0\<rparr> = vec_of [] (ys @ rest)"
    using calculation(1) v(1) by simp
  ultimately show ?thesis
    using v vec_repI [of "[]" "ys @ rest" M] by (simp add: vec_clear_def)
qed

lemma vec_copy_rep:
  fixes xs :: "'a list"
  assumes "vec_rep M xs v"
  shows "\<exists>v'. vec_copy M v = Some v' \<and> vec_rep M xs v'"
proof -
  obtain rest where v: "v = vec_of xs rest" "length xs + length rest < M"
    using assms by (rule vec_repE)
  obtain rest' :: "'a option list" where cap: "ensure_capacity M (length xs) vec_empty = Some (vec_of [] rest')"
      "length xs \<le> length rest'" "length rest' < M"
    using ensure_capacity_rep [of "length xs" M "[]" "[]"] v(2) by (auto simp: vec_empty_def)
  let ?w = "vec_of [] rest'\<lparr>v_size := length xs\<rparr>"
  have "for_each (\<lambda>i w. do { x \<leftarrow> slot_get i v; slot_put i x w }) [0..<0 + length xs] ?w =
      Some (?w\<lparr>v_slots := [] @ map Some xs @ drop (length xs) rest'\<rparr>)"
    using cap(2) v(1) by (intro fill_slots [where a = 0]) (simp_all add: slot_get_nth)
  moreover have "?w\<lparr>v_slots := [] @ map Some xs @ drop (length xs) rest'\<rparr> = vec_of xs (drop (length xs) rest')"
    using cap(2) by simp
  moreover have "vec_rep M xs (vec_of xs (drop (length xs) rest'))"
    using cap(2,3) by (intro vec_repI) simp
  ultimately show ?thesis
    using cap(1) v(1) by (simp add: vec_copy_def)
qed

section \<open>The contract of a growable array\<close>

locale growable =
  fixes rep :: "'a list \<Rightarrow> 'v \<Rightarrow> bool"
    and limit :: nat
    and push :: "'a \<Rightarrow> 'v \<Rightarrow> 'v option"
    and remove_at :: "nat \<Rightarrow> 'v \<Rightarrow> 'v option"
    and index :: "nat \<Rightarrow> 'v \<Rightarrow> 'a option"
  assumes push: "rep xs v \<Longrightarrow> length xs + 1 < limit \<Longrightarrow> \<exists>v'. push x v = Some v' \<and> rep (xs @ [x]) v'"
    and remove_at: "rep xs v \<Longrightarrow> i < length xs \<Longrightarrow>
      \<exists>v'. remove_at i v = Some v' \<and> rep (take i xs @ drop (Suc i) xs) v'"
    and index: "rep xs v \<Longrightarrow> index i v = (if i < length xs then Some (xs ! i) else None)"
begin

lemma push_all:
  assumes "rep xs v" and "length xs + length ys < limit"
  shows "\<exists>v'. for_each push ys v = Some v' \<and> rep (xs @ ys) v'"
  using assms
proof (induction ys arbitrary: xs v)
  case (Cons y ys)
  obtain v' where "push y v = Some v'" "rep (xs @ [y]) v'"
    using push [OF Cons.prems(1), of y] Cons.prems(2) by auto
  then show ?case
    using Cons.IH [of "xs @ [y]" v'] Cons.prems(2) by simp
qed simp

text \<open>Removing everything from the front.\<close>

lemma drain:
  assumes "rep xs v"
  shows "\<exists>v'. for_each (\<lambda>_. remove_at 0) xs v = Some v' \<and> rep [] v'"
  using assms
proof (induction xs arbitrary: v)
  case (Cons x xs)
  obtain v' where "remove_at 0 v = Some v'" "rep xs v'"
    using remove_at [OF Cons.prems, of 0] by auto
  then show ?case
    using Cons.IH by simp
qed auto

lemma index_after_push:
  "rep xs v \<Longrightarrow> length xs + 1 < limit \<Longrightarrow> \<exists>v'. push x v = Some v' \<and> index (length xs) v' = Some x"
  using push index by fastforce

end

interpretation vector: growable "vec_rep M" M "vec_push M" "vec_remove triv" vec_index
proof unfold_locales
  show "\<exists>v'. vec_push M x v = Some v' \<and> vec_rep M (xs @ [x]) v'" if "vec_rep M xs v" "length xs + 1 < M" for xs v and x :: 'a
    using vec_push_rep [OF that] by blast
  show "\<exists>v'. vec_remove triv i v = Some v' \<and> vec_rep M (take i xs @ drop (Suc i) xs) v'"
    if "vec_rep M xs v" "i < length xs" for xs :: "'a list" and v i
    using vec_remove_rep [OF that] by blast
  show "vec_index i v = (if i < length xs then Some (xs ! i) else None)" if "vec_rep M xs v" for xs :: "'a list" and v i
    using vec_index_rep [OF that] .
qed

lemma vec_extend_rep:
  assumes "vec_rep M xs v" and "length xs + length ys < M"
  shows "\<exists>v'. vec_extend M triv ys v = Some v' \<and> vec_rep M (xs @ ys) v'"
proof (cases "ys = []")
  case True
  then show ?thesis
    using assms by (simp add: vec_extend_def)
next
  case False
  obtain rest where v: "v = vec_of xs rest" "length xs + length rest < M"
    using assms(1) by (rule vec_repE)
  obtain rest' where cap: "ensure_capacity M (length xs + length ys) v = Some (vec_of xs rest')"
      "length xs + length ys \<le> length xs + length rest'" "length xs + length rest' < M"
    using ensure_capacity_rep [OF assms(2) v(2)] v(1) by blast
  have "for_each (\<lambda>i. slot_put (length xs + i) (ys ! i)) [0..<0 + length ys] (vec_of xs rest') =
      Some (vec_of xs rest'\<lparr>v_slots := map Some xs @ map Some ys @ drop (length ys) rest'\<rparr>)"
    using cap(2) by (intro fill_slots [where a = "length xs"]) simp_all
  moreover have "vec_of xs rest'\<lparr>v_slots := map Some xs @ map Some ys @ drop (length ys) rest', v_size := length xs + length ys\<rparr> =
      vec_of (xs @ ys) (drop (length ys) rest')"
    using cap(2) by simp
  moreover have "vec_rep M (xs @ ys) (vec_of (xs @ ys) (drop (length ys) rest'))"
    using cap(2,3) by (intro vec_repI) simp
  moreover obtain v' where "for_each (vec_push M) ys (vec_of xs rest') = Some v'" "vec_rep M (xs @ ys) v'"
    using vector.push_all [OF vec_repI [OF cap(3)] assms(2)] by blast
  ultimately show ?thesis
    using False cap(1) v(1) assms(2) by (simp add: vec_extend_def)
qed

section \<open>Programs over vectors\<close>

datatype 'a vec_op =
    Push 'a
  | PushMove 'a
  | Emplace 'a
  | EmplaceAt nat 'a
  | Extend "'a list"
  | EnsureSize nat 'a
  | EnsureCapacity nat
  | Assign nat 'a
  | Index nat
  | Pop
  | Remove nat
  | Take nat
  | Clear
  | Copy

text \<open>One operation, with the elements it returns.\<close>

fun vec_exec :: "nat \<Rightarrow> bool \<Rightarrow> 'a vec_op \<Rightarrow> 'a vec \<Rightarrow> ('a list \<times> 'a vec) option" where
  "vec_exec M triv (Push x) v = map_option (Pair []) (vec_push M x v)"
| "vec_exec M triv (PushMove x) v = map_option (Pair []) (vec_push_move M x v)"
| "vec_exec M triv (Emplace x) v = map_option (apfst (\<lambda>y. [y])) (vec_emplace M x v)"
| "vec_exec M triv (EmplaceAt i x) v = map_option (apfst (\<lambda>y. [y])) (vec_emplace_at M i x v)"
| "vec_exec M triv (Extend ys) v = map_option (Pair []) (vec_extend M triv ys v)"
| "vec_exec M triv (EnsureSize n x) v = map_option (Pair []) (vec_ensure_size M n x v)"
| "vec_exec M triv (EnsureCapacity n) v = map_option (Pair []) (ensure_capacity M n v)"
| "vec_exec M triv (Assign i x) v = map_option (Pair []) (vec_assign i x v)"
| "vec_exec M triv (Index i) v = map_option (\<lambda>x. ([x], v)) (vec_index i v)"
| "vec_exec M triv Pop v = map_option (apfst (\<lambda>r. case r of None \<Rightarrow> [] | Some x \<Rightarrow> [x])) (vec_pop triv v)"
| "vec_exec M triv (Remove i) v = map_option (Pair []) (vec_remove triv i v)"
| "vec_exec M triv (Take i) v = map_option (apfst (\<lambda>x. [x])) (vec_take triv i v)"
| "vec_exec M triv Clear v = map_option (Pair []) (vec_clear triv v)"
| "vec_exec M triv Copy v = map_option (Pair []) (vec_copy M v)"

text \<open>The same operation on a list.\<close>

fun list_exec :: "bool \<Rightarrow> 'a vec_op \<Rightarrow> 'a list \<Rightarrow> ('a list \<times> 'a list) option" where
  "list_exec triv (Push x) xs = Some ([], xs @ [x])"
| "list_exec triv (PushMove x) xs = Some ([], xs @ [x])"
| "list_exec triv (Emplace x) xs = Some ([x], xs @ [x])"
| "list_exec triv (EmplaceAt i x) xs = (if i \<le> length xs then Some ([x], take i xs @ x # drop i xs) else None)"
| "list_exec triv (Extend ys) xs = Some ([], xs @ ys)"
| "list_exec triv (EnsureSize n x) xs = Some ([], xs @ replicate (n - length xs) x)"
| "list_exec triv (EnsureCapacity n) xs = Some ([], xs)"
| "list_exec triv (Assign i x) xs = (if i < length xs then Some ([], xs[i := x]) else None)"
| "list_exec triv (Index i) xs = (if i < length xs then Some ([xs ! i], xs) else None)"
| "list_exec triv Pop xs = (if xs = [] then None else Some (if triv then [last xs] else [], butlast xs))"
| "list_exec triv (Remove i) xs = (if i < length xs then Some ([], take i xs @ drop (Suc i) xs) else None)"
| "list_exec triv (Take i) xs = (if i < length xs then Some ([xs ! i], take i xs @ drop (Suc i) xs) else None)"
| "list_exec triv Clear xs = Some ([], [])"
| "list_exec triv Copy xs = Some ([], xs)"

text \<open>The lengths an operation asks for are values of the size type.\<close>

fun fits :: "nat \<Rightarrow> 'a vec_op \<Rightarrow> 'a list \<Rightarrow> bool" where
  "fits M (Push x) xs \<longleftrightarrow> length xs + 1 < M"
| "fits M (PushMove x) xs \<longleftrightarrow> length xs + 1 < M"
| "fits M (Emplace x) xs \<longleftrightarrow> length xs + 1 < M"
| "fits M (EmplaceAt i x) xs \<longleftrightarrow> length xs + 1 < M"
| "fits M (Extend ys) xs \<longleftrightarrow> length xs + length ys < M"
| "fits M (EnsureSize n x) xs \<longleftrightarrow> n < M"
| "fits M (EnsureCapacity n) xs \<longleftrightarrow> n < M"
| "fits M _ xs \<longleftrightarrow> True"

lemma vec_out_of_range:
  assumes "vec_rep M xs v"
  shows "i > length xs \<Longrightarrow> vec_emplace_at M i x v = None" and "i \<ge> length xs \<Longrightarrow> vec_assign i x v = None"
    and "i \<ge> length xs \<Longrightarrow> vec_remove triv i v = None" and "i \<ge> length xs \<Longrightarrow> vec_take triv i v = None"
    and "xs = [] \<Longrightarrow> vec_pop triv v = None"
  using assms by (auto simp: vec_emplace_at_def vec_assign_def vec_remove_def vec_take_def vec_pop_def elim!: vec_repE)

definition agrees :: "nat \<Rightarrow> ('a list \<times> 'a list) option \<Rightarrow> ('a list \<times> 'a vec) option \<Rightarrow> bool" where
  "agrees M spec impl \<longleftrightarrow>
     (case spec of None \<Rightarrow> impl = None | Some (r, ys) \<Rightarrow> \<exists>v'. impl = Some (r, v') \<and> vec_rep M ys v')"

lemma vec_exec_agrees:
  assumes rep: "vec_rep M xs v" and fits: "fits M op xs"
  shows "agrees M (list_exec triv op xs) (vec_exec M triv op v)"
proof (cases op)
  case (EnsureCapacity n)
  then show ?thesis
    using rep fits ensure_capacity_rep [of n M xs] by (fastforce simp: agrees_def elim!: vec_repE intro: vec_repI)
next
  case (EmplaceAt i x)
  then show ?thesis
    using rep fits vec_emplace_at_rep [OF rep, of i x] vec_out_of_range(1) [OF rep, of i x]
    by (auto simp: agrees_def)
next
  case Pop
  show ?thesis
  proof (cases xs rule: rev_cases)
    case Nil
    then show ?thesis
      using Pop vec_out_of_range(5) [OF rep] by (simp add: agrees_def)
  next
    case (snoc ys y)
    then show ?thesis
      using Pop vec_pop_rep [of M ys y v triv] rep by (cases triv) (auto simp: agrees_def)
  qed
next
  case (Assign i x)
  then show ?thesis
    using vec_assign_rep [OF rep, of i x] vec_out_of_range(2) [OF rep, of i x] by (auto simp: agrees_def)
next
  case (Remove i)
  then show ?thesis
    using vec_remove_rep [OF rep, of i triv] vec_out_of_range(3) [OF rep, of i triv] by (auto simp: agrees_def)
next
  case (Take i)
  then show ?thesis
    using vec_remove_rep [OF rep, of i triv] vec_out_of_range(4) [OF rep, of i triv] by (auto simp: agrees_def)
next
  case (Index i)
  then show ?thesis
    using vec_index_rep [OF rep, of i] rep by (simp add: agrees_def)
next
  case (Extend ys)
  then show ?thesis
    using vec_extend_rep [OF rep, of ys triv] fits by (auto simp: agrees_def)
next
  case (EnsureSize n x)
  then show ?thesis
    using vec_ensure_size_rep [OF rep, of n x] fits by (auto simp: agrees_def)
next
  case Clear
  then show ?thesis
    using vec_clear_rep [OF rep, of triv] by (auto simp: agrees_def)
next
  case Copy
  then show ?thesis
    using vec_copy_rep [OF rep] by (auto simp: agrees_def)
qed (use fits vec_push_rep [OF rep] in \<open>auto simp: agrees_def\<close>)

fun vec_run :: "nat \<Rightarrow> bool \<Rightarrow> 'a vec_op list \<Rightarrow> 'a vec \<Rightarrow> ('a list \<times> 'a vec) option" where
  "vec_run M triv [] v = Some ([], v)"
| "vec_run M triv (op # ops) v = do {
     (r, v') \<leftarrow> vec_exec M triv op v;
     (rs, v'') \<leftarrow> vec_run M triv ops v';
     Some (r @ rs, v'')
   }"

fun list_run :: "bool \<Rightarrow> 'a vec_op list \<Rightarrow> 'a list \<Rightarrow> ('a list \<times> 'a list) option" where
  "list_run triv [] xs = Some ([], xs)"
| "list_run triv (op # ops) xs = do {
     (r, ys) \<leftarrow> list_exec triv op xs;
     (rs, zs) \<leftarrow> list_run triv ops ys;
     Some (r @ rs, zs)
   }"

fun fits_run :: "nat \<Rightarrow> bool \<Rightarrow> 'a vec_op list \<Rightarrow> 'a list \<Rightarrow> bool" where
  "fits_run M triv [] xs \<longleftrightarrow> True"
| "fits_run M triv (op # ops) xs \<longleftrightarrow> fits M op xs \<and>
     (case list_exec triv op xs of None \<Rightarrow> True | Some (r, ys) \<Rightarrow> fits_run M triv ops ys)"

lemma vec_run_agrees:
  assumes "vec_rep M xs v" and "fits_run M triv ops xs"
  shows "agrees M (list_run triv ops xs) (vec_run M triv ops v)"
  using assms
proof (induction ops arbitrary: xs v)
  case (Cons op ops)
  have step: "agrees M (list_exec triv op xs) (vec_exec M triv op v)"
    using Cons.prems by (intro vec_exec_agrees) simp_all
  show ?case
  proof (cases "list_exec triv op xs")
    case None
    then show ?thesis
      using step by (simp add: agrees_def)
  next
    case (Some p)
    then obtain r ys where p: "list_exec triv op xs = Some (r, ys)"
      by (cases p) simp
    then obtain v' where v': "vec_exec M triv op v = Some (r, v')" "vec_rep M ys v'"
      using step by (auto simp: agrees_def)
    have "agrees M (list_run triv ops ys) (vec_run M triv ops v')"
      using Cons.IH [OF v'(2)] Cons.prems(2) p by simp
    then show ?thesis
      using p v'(1) by (cases "list_run triv ops ys") (auto simp: agrees_def)
  qed
qed (simp add: agrees_def)





end
