(* ===== verification/Heap.thy ===== *)
theory Heap
  imports Frames
begin

text \<open>
  The kernel heap of \<^verbatim>\<open>src/kernel/mem/heap.cc\<close>: regions of one mebibyte cut into chunks of 32 bytes with a
  bit set of the chunks in use, a chain of regions, and allocations too large for a region, which come
  straight from the memory manager. Addresses are natural numbers; the allocation headers in memory are a
  map from addresses to their two fields.
\<close>

section \<open>State\<close>

abbreviation k_allocation_header_check :: nat where "k_allocation_header_check \<equiv> 0xdeadbeef"
abbreviation k_chunk_size :: nat where "k_chunk_size \<equiv> 32"
abbreviation header_size :: nat where "header_size \<equiv> 16"

record allocation_header =
  ah_check :: nat
  ah_chunk_count :: nat

text \<open>
  The buckets of the bit set that are scanned, one for every 64 chunks.
\<close>

record heap_region =
  hr_memory :: nat
  hr_bitset :: "u64 list"
  hr_chunk_count :: nat
  hr_used_chunk_count :: nat

text \<open>The headers written so far; an address without one holds arbitrary memory.\<close>

type_synonym headers = "nat \<rightharpoonup> allocation_header"

section \<open>One region\<close>

definition region_new :: "nat \<Rightarrow> nat \<Rightarrow> heap_region option" where
  "region_new memory memory_size = do {
     let count = memory_size div (k_chunk_size + 1);
     ensure (count * k_chunk_size + (count + 7) div 8 \<le> memory_size);
     Some \<lparr>hr_memory = memory, hr_bitset = replicate (count div 64) 0, hr_chunk_count = count, hr_used_chunk_count = 0\<rparr>
   }"

text \<open>\<open>__builtin_ctzll\<close>; undefined on zero.\<close>

fun ctz_from :: "nat \<Rightarrow> nat \<Rightarrow> u64 \<Rightarrow> nat" where
  "ctz_from 0 k w = k"
| "ctz_from (Suc n) k w = (if bit w k then k else ctz_from n (Suc k) w)"

definition ctz :: "u64 \<Rightarrow> nat option" where
  "ctz w = do { ensure (w \<noteq> 0); Some (ctz_from 64 0 w) }"

lemma ctz_from_bound: "k \<le> ctz_from n k w"
  by (induction n k w rule: ctz_from.induct) (auto intro: Suc_leD)

lemma ctz_from_skip: "k \<le> i \<Longrightarrow> i < ctz_from n k w \<Longrightarrow> \<not> bit w i"
proof (induction n k w rule: ctz_from.induct)
  case (2 n k w)
  then show ?case
    by (cases "i = k") (auto split: if_splits)
qed simp

lemma ctz_from_found: "k \<le> i \<Longrightarrow> i < k + n \<Longrightarrow> bit w i \<Longrightarrow> bit w (ctz_from n k w) \<and> ctz_from n k w \<le> i"
proof (induction n k w rule: ctz_from.induct)
  case (2 n k w)
  then show ?case
    by (cases "i = k") (auto split: if_splits)
qed simp

lemma ctz_spec:
  assumes "ctz w = Some t"
  shows "bit w t \<and> (\<forall>i < t. \<not> bit w i) \<and> t < 64"
proof -
  have w: "w \<noteq> 0" "t = ctz_from 64 0 w"
    using assms by (simp_all add: ctz_def)
  obtain i where "bit w i"
    using w(1) by (metis bit_eqI bit_0_eq bot_apply bot_bool_def)
  then show ?thesis
    using ctz_from_found [of 0 i 64 w] ctz_from_skip [of 0 _ 64 w] w(2) bit_imp_le_length [of w i] by force
qed

lemma ctz_pos: "ctz (NOT w) = Some t \<Longrightarrow> bit w 0 \<Longrightarrow> 0 < t"
  using ctz_spec [of "NOT w" t] by (cases t) (auto simp: bit_not_iff)

text \<open>The scan of the bits of one bucket: the number of free chunks so far and the first of them.\<close>

function scan_bucket :: "nat \<Rightarrow> nat \<Rightarrow> nat \<Rightarrow> u64 \<Rightarrow> nat \<Rightarrow> nat \<Rightarrow> (nat \<times> nat) option" where
  "scan_bucket desired base viewed bucket free first =
     (if viewed < 64 then
        if bucket = 0 then
          scan_bucket desired base (viewed + 64) bucket (free + (64 - viewed)) (if free = 0 then base + viewed else first)
        else do {
          zeroes \<leftarrow> ctz bucket;
          let bucket' = drop_bit zeroes bucket;
          let first' = (if free = 0 then base + viewed else first);
          if free + zeroes \<ge> desired then Some (free + zeroes, first')
          else do {
            ones \<leftarrow> ctz (NOT bucket');
            scan_bucket desired base (viewed + zeroes + ones) (drop_bit ones bucket') 0 first'
          }
        }
      else Some (free, first))"
  by pat_completeness auto
termination
proof (relation "measure (\<lambda>(desired, base, viewed, bucket, free, first). 64 - viewed)", goal_cases)
  case (3 desired base viewed bucket free first zeroes bucket' first' ones)
  have "bit bucket' 0"
    using ctz_spec [of bucket zeroes] 3 by (simp add: bit_drop_bit_eq)
  then show ?case
    using ctz_pos [of bucket' ones] 3 by simp
qed simp_all

declare scan_bucket.simps [simp del]

fun scan_region :: "nat \<Rightarrow> nat \<Rightarrow> u64 list \<Rightarrow> nat \<Rightarrow> nat \<Rightarrow> (nat \<times> nat) option" where
  "scan_region desired index [] free first = Some (free, first)"
| "scan_region desired index (bucket # buckets) free first =
     (if free \<ge> desired then Some (free, first)
      else if bucket = 0 then
        scan_region desired (index + 1) buckets (free + 64) (if free = 0 then index * 64 else first)
      else if bucket = - 1 then scan_region desired (index + 1) buckets 0 first
      else do {
        (free', first') \<leftarrow> scan_bucket desired (index * 64) 0 bucket free first;
        scan_region desired (index + 1) buckets free' first'
      })"

definition mark_chunk :: "nat \<Rightarrow> u64 list \<Rightarrow> u64 list option" where
  "mark_chunk i bits = do {
     let k = (i + 64) div 64 - 1;
     ensure (k < length bits);
     ensure (\<not> word_test_bit (bits ! k) (i mod 64));
     Some (bits[k := word_set_bit (bits ! k) (i mod 64)])
   }"

definition unmark_chunk :: "nat \<Rightarrow> u64 list \<Rightarrow> u64 list option" where
  "unmark_chunk i bits = do {
     let k = (i + 64) div 64 - 1;
     ensure (k < length bits);
     ensure (word_test_bit (bits ! k) (i mod 64));
     Some (bits[k := word_clear_bit (bits ! k) (i mod 64)])
   }"

text \<open>The result is \<open>None\<close> inside when there is no room. The sizes the kernel asks for do not wrap.\<close>

definition region_allocate :: "nat \<Rightarrow> heap_region \<times> headers \<Rightarrow> (nat option \<times> heap_region \<times> headers) option" where
  "region_allocate size' = (\<lambda>(r, hs). do {
     let n = add64 size' header_size;
     let desired = add64 n (k_chunk_size - 1) div k_chunk_size;
     (free, first) \<leftarrow> scan_region desired 0 (hr_bitset r) 0 0;
     if free < desired then Some (None, r, hs)
     else do {
       let header = hr_memory r + first * k_chunk_size;
       bits \<leftarrow> for_each mark_chunk [first..<first + desired] (hr_bitset r);
       Some (Some (header + header_size),
         r\<lparr>hr_bitset := bits, hr_used_chunk_count := hr_used_chunk_count r + desired\<rparr>,
         hs(header \<mapsto> \<lparr>ah_check = k_allocation_header_check, ah_chunk_count = desired\<rparr>))
     }
   })"

text \<open>The header in front of an allocation, with its check field tested.\<close>

definition checked_header :: "nat \<Rightarrow> headers \<Rightarrow> allocation_header option" where
  "checked_header ptr hs = do {
     h \<leftarrow> hs (ptr - header_size);
     ensure (ah_check h = k_allocation_header_check);
     Some h
   }"

definition region_deallocate :: "nat \<Rightarrow> heap_region \<times> headers \<Rightarrow> heap_region option" where
  "region_deallocate ptr = (\<lambda>(r, hs). do {
     h \<leftarrow> checked_header ptr hs;
     let first = (ptr - header_size - hr_memory r) div k_chunk_size;
     bits \<leftarrow> for_each unmark_chunk [first..<first + ah_chunk_count h] (hr_bitset r);
     Some (r\<lparr>hr_bitset := bits, hr_used_chunk_count := sub64 (hr_used_chunk_count r) (ah_chunk_count h)\<rparr>)
   })"

definition region_contains :: "nat \<Rightarrow> heap_region \<Rightarrow> headers \<Rightarrow> bool option" where
  "region_contains ptr r hs = do {
     _ \<leftarrow> checked_header ptr hs;
     Some (hr_memory r \<le> ptr - header_size \<and> ptr < hr_memory r + hr_chunk_count r * k_chunk_size)
   }"

section \<open>The heap\<close>

record heap =
  h_regions :: "heap_region list"
  h_headers :: headers
  h_memory :: memory_manager

text \<open>A region object takes 40 bytes at the front of its memory, rounded up to 48.\<close>

abbreviation region_object_size :: nat where "region_object_size \<equiv> 48"

definition make_region :: "memory_manager \<Rightarrow> (heap_region \<times> memory_manager) option" where
  "make_region mm = do {
     (memory, mm') \<leftarrow> alloc_contiguous (MiB 1) mm;
     r \<leftarrow> region_new (memory + region_object_size) (MiB 1 - region_object_size);
     Some (r, mm')
   }"

definition heap_initialise :: "memory_manager \<Rightarrow> heap option" where
  "heap_initialise mm = do {
     (r, mm') \<leftarrow> make_region mm;
     Some \<lparr>h_regions = [r], h_headers = Map.empty, h_memory = mm'\<rparr>
   }"

text \<open>The new region is linked behind the last one.\<close>

definition create_region :: "heap \<Rightarrow> heap option" where
  "create_region h = do {
     (r, mm') \<leftarrow> make_region (h_memory h);
     ensure (h_regions h \<noteq> []);
     Some (h\<lparr>h_regions := h_regions h @ [r], h_memory := mm'\<rparr>)
   }"

definition region_limit :: "heap \<Rightarrow> nat option" where
  "region_limit h = do {
     ensure (h_regions h \<noteq> []);
     Some (sub64 (hr_chunk_count (hd (h_regions h)) * k_chunk_size) (KiB 1))
   }"

text \<open>The first region with room.\<close>

fun allocate_in :: "nat \<Rightarrow> heap_region list \<Rightarrow> headers \<Rightarrow> (nat option \<times> heap_region list \<times> headers) option" where
  "allocate_in n [] hs = Some (None, [], hs)"
| "allocate_in n (r # rs) hs = do {
     (p, r', hs') \<leftarrow> region_allocate n (r, hs);
     case p of
       Some ptr \<Rightarrow> Some (Some ptr, r' # rs, hs')
     | None \<Rightarrow> do {
         (q, rs', hs'') \<leftarrow> allocate_in n rs hs';
         Some (q, r' # rs', hs'')
       }
   }"

definition heap_allocate :: "nat \<Rightarrow> heap \<Rightarrow> (nat option \<times> heap) option" where
  "heap_allocate n h = do {
     limit \<leftarrow> region_limit h;
     if n \<ge> limit then do {
       (memory, mm') \<leftarrow> alloc_contiguous (add64 n header_size) (h_memory h);
       Some (Some (memory + header_size),
         h\<lparr>h_memory := mm',
           h_headers := (h_headers h)(memory \<mapsto>
             \<lparr>ah_check = k_allocation_header_check, ah_chunk_count = add64 n (k_chunk_size - 1) div k_chunk_size\<rparr>)\<rparr>)
     } else do {
       (p, rs, hs) \<leftarrow> allocate_in n (h_regions h) (h_headers h);
       let h' = h\<lparr>h_regions := rs, h_headers := hs\<rparr>;
       case p of
         Some ptr \<Rightarrow> Some (Some ptr, h')
       | None \<Rightarrow> do {
           h'' \<leftarrow> create_region h';
           (q, r, hs') \<leftarrow> region_allocate n (last (h_regions h''), h_headers h'');
           Some (q, h''\<lparr>h_regions := butlast (h_regions h'') @ [r], h_headers := hs'\<rparr>)
         }
     }
   }"

text \<open>
  The loop over the chain: an empty region other than the first one is unlinked and its memory given
  back. A pointer that no region contains is dropped.
\<close>

fun deallocate_in :: "bool \<Rightarrow> nat \<Rightarrow> heap_region list \<Rightarrow> headers \<Rightarrow> memory_manager \<Rightarrow> (heap_region list \<times> memory_manager) option" where
  "deallocate_in base ptr [] hs mm = Some ([], mm)"
| "deallocate_in base ptr (r # rs) hs mm = do {
     inside \<leftarrow> region_contains ptr r hs;
     if inside then do {
       r' \<leftarrow> region_deallocate ptr (r, hs);
       if hr_used_chunk_count r' = 0 \<and> \<not> base then do {
         mm' \<leftarrow> free_contiguous (hr_memory r' - region_object_size) (MiB 1) mm;
         Some (rs, mm')
       } else Some (r' # rs, mm)
     } else do {
       (rs', mm') \<leftarrow> deallocate_in False ptr rs hs mm;
       Some (r # rs', mm')
     }
   }"

definition heap_deallocate :: "nat \<Rightarrow> heap \<Rightarrow> heap option" where
  "heap_deallocate ptr h = do {
     hd \<leftarrow> checked_header ptr (h_headers h);
     limit \<leftarrow> region_limit h;
     if ah_chunk_count hd * k_chunk_size > limit then do {
       mm' \<leftarrow> free_contiguous (ptr - header_size) (ah_chunk_count hd * k_chunk_size) (h_memory h);
       Some (h\<lparr>h_memory := mm'\<rparr>)
     } else do {
       (rs, mm') \<leftarrow> deallocate_in True ptr (h_regions h) (h_headers h) (h_memory h);
       Some (h\<lparr>h_regions := rs, h_memory := mm'\<rparr>)
     }
   }"

text \<open>
  Aligned allocations: the distance to the pointer that was allocated is stored in the eight bytes in front of
  the pointer that is returned. \<open>slots\<close> holds these values. A null pointer from the allocation would be used.
\<close>

definition new_aligned :: "nat \<Rightarrow> nat \<Rightarrow> heap \<times> (nat \<rightharpoonup> nat) \<Rightarrow> (nat \<times> heap \<times> (nat \<rightharpoonup> nat)) option" where
  "new_aligned n alignment = (\<lambda>(h, slots). do {
     ensure (alignment \<noteq> 0);
     (p, h') \<leftarrow> heap_allocate (n + alignment + 8) h;
     ptr \<leftarrow> p;
     let max_addr = ptr + alignment;
     let aligned_ptr = max_addr - max_addr mod alignment;
     Some (aligned_ptr, h', slots(aligned_ptr - 8 \<mapsto> aligned_ptr - ptr))
   })"

definition operator_new :: "nat \<Rightarrow> heap \<Rightarrow> (nat option \<times> heap) option" where
  "operator_new n h = heap_allocate n h"

text \<open>The null pointer is zero.\<close>

definition operator_delete :: "nat \<Rightarrow> heap \<Rightarrow> heap option" where
  "operator_delete ptr h = (if ptr = 0 then Some h else heap_deallocate ptr h)"

definition delete_aligned :: "nat \<Rightarrow> heap \<times> (nat \<rightharpoonup> nat) \<Rightarrow> heap option" where
  "delete_aligned ptr = (\<lambda>(h, slots).
     if ptr = 0 then Some h else do { d \<leftarrow> slots (ptr - 8); heap_deallocate (ptr - d) h })"

section \<open>The search for free chunks\<close>

definition chunk_used :: "u64 list \<Rightarrow> nat \<Rightarrow> bool" where
  "chunk_used bits i \<longleftrightarrow> i < 64 * length bits \<and> bit (bits ! (i div 64)) (i mod 64)"

text \<open>
  The state of the search in front of chunk \<open>p\<close>: the last \<open>free\<close> chunks are free, and every
  run of \<open>d\<close> chunks that starts in front of them has a used chunk.
\<close>

definition scan_ok :: "(nat \<Rightarrow> bool) \<Rightarrow> nat \<Rightarrow> nat \<Rightarrow> nat \<Rightarrow> nat \<Rightarrow> bool" where
  "scan_ok U d p free first \<longleftrightarrow>
     free \<le> p \<and> (\<forall>i. p - free \<le> i \<longrightarrow> i < p \<longrightarrow> \<not> U i) \<and> (0 < free \<longrightarrow> first = p - free) \<and>
     (\<forall>s < p - free. \<exists>i. s \<le> i \<and> i < s + d \<and> U i)"

lemma scan_ok_free:
  assumes "scan_ok U d p free first" and "\<And>i. p \<le> i \<Longrightarrow> i < p + k \<Longrightarrow> \<not> U i"
  shows "scan_ok U d (p + k) (free + k) (if free = 0 then p else first)"
  using assms unfolding scan_ok_def by (auto simp: not_less)

lemma scan_ok_used:
  assumes "scan_ok U d p free first" and "free < d" and "0 < k" and "\<And>i. p \<le> i \<Longrightarrow> i < p + k \<Longrightarrow> U i"
  shows "scan_ok U d (p + k) 0 first'"
proof -
  have "\<exists>i. s \<le> i \<and> i < s + d \<and> U i" if "s < p + k" for s
  proof -
    consider "s < p - free" | "p - free \<le> s" "s < p" | "p \<le> s"
      by linarith
    then show ?thesis
    proof cases
      case 1
      then show ?thesis
        using assms(1) by (simp add: scan_ok_def)
    next
      case 2
      then show ?thesis
        using assms(1-4) by (intro exI [of _ p]) (auto simp: scan_ok_def)
    next
      case 3
      then show ?thesis
        using assms(2,4) that by (intro exI [of _ s]) auto
    qed
  qed
  then show ?thesis
    by (simp add: scan_ok_def)
qed

lemma clear_bit_not_full: "\<not> bit w k \<Longrightarrow> k < 64 \<Longrightarrow> w \<noteq> (- 1 :: u64)"
  by (rule notI) simp

lemma not_full_complement: "w \<noteq> (- 1 :: u64) \<Longrightarrow> NOT w \<noteq> 0"
  by (metis bit.compl_zero bit.double_compl)

text \<open>One stretch of free and one of used chunks.\<close>

lemma scan_bucket_ok:
  assumes "scan_ok U d (base + viewed) free first" and "free < d" and "viewed \<le> 64"
    and "\<And>j. bit bucket j \<longleftrightarrow> viewed + j < 64 \<and> U (base + viewed + j)" and "bucket \<noteq> - 1"
  shows "\<exists>free' first' p. scan_bucket d base viewed bucket free first = Some (free', first') \<and>
    scan_ok U d p free' first' \<and> p \<le> base + 64 \<and> (free' < d \<longrightarrow> p = base + 64)"
  using assms
proof (induction d base viewed bucket free first rule: scan_bucket.induct)
  case (1 d base viewed bucket free first)
  consider "viewed = 64" | "viewed < 64" "bucket = 0" | "viewed < 64" "bucket \<noteq> 0"
    using "1.prems"(3) by linarith
  then show ?case
  proof cases
    case 1
    then show ?thesis
      using "1.prems"(1) by (auto simp: scan_bucket.simps)
  next
    case 2
    have "\<not> U i" if "base + viewed \<le> i" "i < base + viewed + (64 - viewed)" for i
      using "1.prems"(4) [of "i - (base + viewed)"] that 2 by simp
    then have "scan_ok U d (base + viewed + (64 - viewed)) (free + (64 - viewed)) (if free = 0 then base + viewed else first)"
      using "1.prems"(1) by (intro scan_ok_free)
    then show ?thesis
      using 2 by (auto simp: scan_bucket.simps)
  next
    case 3
    then obtain zeroes where zeroes: "ctz bucket = Some zeroes"
      by (simp add: ctz_def)
    let ?bucket = "drop_bit zeroes bucket" and ?first = "if free = 0 then base + viewed else first"
    have z: "bit bucket zeroes" "\<And>j. j < zeroes \<Longrightarrow> \<not> bit bucket j"
      using ctz_spec [OF zeroes] by simp_all
    have in_bucket: "viewed + zeroes < 64"
      using "1.prems"(4) z(1) by blast
    have "\<not> U i" if "base + viewed \<le> i" "i < base + viewed + zeroes" for i
      using "1.prems"(4) [of "i - (base + viewed)"] z(2) [of "i - (base + viewed)"] that in_bucket by simp
    then have ok: "scan_ok U d (base + viewed + zeroes) (free + zeroes) ?first"
      using "1.prems"(1) by (intro scan_ok_free)
    show ?thesis
    proof (cases "free + zeroes \<ge> d")
      case True
      then show ?thesis
        using 3 zeroes ok in_bucket by (subst scan_bucket.simps) (auto simp: Let_def intro!: exI [of _ "base + viewed + zeroes"])
    next
      case False
      have bits: "bit ?bucket j \<longleftrightarrow> viewed + zeroes + j < 64 \<and> U (base + (viewed + zeroes) + j)" for j
        using "1.prems"(4) [of "zeroes + j"] by (simp add: bit_drop_bit_eq add.assoc)
      have "\<not> bit ?bucket 63 \<or> viewed + zeroes = 0"
        using bits [of 63] by linarith
      then have "?bucket \<noteq> - 1"
        using "1.prems"(5) clear_bit_not_full [of ?bucket 63] by auto
      then have "NOT ?bucket \<noteq> 0"
        by (rule not_full_complement)
      then obtain ones where ones: "ctz (NOT ?bucket) = Some ones"
        by (simp add: ctz_def)
      have o: "\<And>j. j < ones \<Longrightarrow> bit ?bucket j" "\<not> bit ?bucket ones" "0 < ones" "ones < 64"
        using ctz_spec [OF ones] ctz_pos [OF ones] z(1) by (auto simp: bit_not_iff bit_drop_bit_eq)
      have last: "bit ?bucket (ones - 1)"
        using o by simp
      have "U i" if "base + viewed + zeroes \<le> i" "i < base + viewed + zeroes + ones" for i
        using bits [of "i - (base + viewed + zeroes)"] o(1) [of "i - (base + viewed + zeroes)"] that by simp
      then have used: "scan_ok U d (base + viewed + zeroes + ones) 0 ?first"
        using ok False o(3) by (intro scan_ok_used [where free = "free + zeroes"]) simp_all
      have "\<exists>free' first' p. scan_bucket d base (viewed + zeroes + ones) (drop_bit ones ?bucket) 0 ?first = Some (free', first') \<and>
          scan_ok U d p free' first' \<and> p \<le> base + 64 \<and> (free' < d \<longrightarrow> p = base + 64)"
      proof (rule "1.IH"(2) [OF 3 zeroes refl refl False ones])
        show "viewed + zeroes + ones \<le> 64"
          using last bits [of "ones - 1"] o(3) by linarith
        show "bit (drop_bit ones ?bucket) j \<longleftrightarrow> viewed + zeroes + ones + j < 64 \<and> U (base + (viewed + zeroes + ones) + j)" for j
          using bits [of "ones + j"] by (simp add: bit_drop_bit_eq ac_simps)
        show "drop_bit ones ?bucket \<noteq> - 1"
          using o(2) by (intro clear_bit_not_full [of _ 0]) (simp_all add: bit_drop_bit_eq add.commute)
      qed (use used False "1.prems"(2) in \<open>simp_all add: add.assoc\<close>)
      then show ?thesis
        using 3 zeroes ones False by (subst scan_bucket.simps) (simp add: Let_def)
    qed
  qed
qed

lemma scan_region_ok:
  assumes "scan_ok U d (64 * index) free first"
    and "\<And>k j. k < length buckets \<Longrightarrow> j < 64 \<Longrightarrow> bit (buckets ! k) j \<longleftrightarrow> U (64 * (index + k) + j)"
  shows "\<exists>free' first' p. scan_region d index buckets free first = Some (free', first') \<and>
    scan_ok U d p free' first' \<and> p \<le> 64 * (index + length buckets) \<and> (free' < d \<longrightarrow> p = 64 * (index + length buckets))"
  using assms
proof (induction buckets arbitrary: index free first)
  case (Cons bucket buckets)
  let ?goal = "\<lambda>free first. \<exists>free' first' p. scan_region d (index + 1) buckets free first = Some (free', first') \<and>
    scan_ok U d p free' first' \<and> p \<le> 64 * (index + 1 + length buckets) \<and> (free' < d \<longrightarrow> p = 64 * (index + 1 + length buckets))"
  have later: "bit (buckets ! k) j \<longleftrightarrow> U (64 * (index + 1 + k) + j)" if "k < length buckets" "j < 64" for k j
    using Cons.prems(2) [of "Suc k" j] that by simp
  have next_bucket: "?goal free first" if "scan_ok U d (64 * (index + 1)) free first" for free first
    using Cons.IH [of "index + 1" free first, OF that later] by simp
  have bits: "bit bucket j \<longleftrightarrow> j < 64 \<and> U (64 * index + j)" for j
    using Cons.prems(2) [of 0 j] bit_imp_le_length [of bucket j] by auto
  consider "free \<ge> d" | "free < d" "bucket = 0" | "free < d" "bucket = - 1" "bucket \<noteq> 0" | "free < d" "bucket \<noteq> 0" "bucket \<noteq> - 1"
    by linarith
  then show ?case
  proof cases
    case 1
    then show ?thesis
      using Cons.prems(1) by (auto intro!: exI [of _ "64 * index"])
  next
    case 2
    have "\<not> U i" if "64 * index \<le> i" "i < 64 * index + 64" for i
      using bits [of "i - 64 * index"] that 2 by simp
    then have "scan_ok U d (64 * index + 64) (free + 64) (if free = 0 then 64 * index else first)"
      using Cons.prems(1) by (intro scan_ok_free)
    then show ?thesis
      using 2 next_bucket [of "free + 64" "if free = 0 then index * 64 else first"] by (simp add: ac_simps split: if_splits)
  next
    case 3
    have "U i" if "64 * index \<le> i" "i < 64 * index + 64" for i
    proof -
      have "i - 64 * index < 64"
        using that by linarith
      then show ?thesis
        using bits [of "i - 64 * index"] that 3 by simp
    qed
    then have "scan_ok U d (64 * index + 64) 0 first"
      using Cons.prems(1) 3 by (intro scan_ok_used [of U d "64 * index" free]) simp_all
    then show ?thesis
      using 3 next_bucket [of 0 first] by (simp add: ac_simps)
  next
    case 4
    obtain free' first' p where scan: "scan_bucket d (index * 64) 0 bucket free first = Some (free', first')"
        "scan_ok U d p free' first'" "p \<le> 64 * index + 64" "free' < d \<longrightarrow> p = 64 * index + 64"
      using scan_bucket_ok [of U d "index * 64" 0 free first bucket] Cons.prems(1) 4 bits by (auto simp: mult.commute)
    show ?thesis
    proof (cases "free' < d")
      case True
      then show ?thesis
        using 4 scan next_bucket [of free' first'] by (simp add: ac_simps)
    next
      case False
      then have "scan_region d (index + 1) buckets free' first' = Some (free', first')"
        by (cases buckets) simp_all
      then show ?thesis
        using 4 scan False by (auto intro!: exI [of _ p])
    qed
  qed
qed auto

lemma chunk_used_bucket: "k < length bits \<Longrightarrow> j < 64 \<Longrightarrow> bit (bits ! k) j \<longleftrightarrow> chunk_used bits (64 * k + j)"
  by (auto simp: chunk_used_def)

text \<open>The search finds the first run of free chunks that is long enough, and fails only if there is none.\<close>

lemma scan_region_spec:
  assumes "0 < d"
  shows "\<exists>free first. scan_region d 0 bits 0 0 = Some (free, first) \<and>
    (if free < d then \<forall>s. s + d \<le> 64 * length bits \<longrightarrow> (\<exists>i. s \<le> i \<and> i < s + d \<and> chunk_used bits i)
     else first + d \<le> 64 * length bits \<and> (\<forall>i. first \<le> i \<longrightarrow> i < first + d \<longrightarrow> \<not> chunk_used bits i) \<and>
       (\<forall>s < first. \<exists>i. s \<le> i \<and> i < s + d \<and> chunk_used bits i))"
proof -
  have "scan_ok (chunk_used bits) d (64 * 0) 0 0"
    by (simp add: scan_ok_def)
  then obtain free first p where scan: "scan_region d 0 bits 0 0 = Some (free, first)"
      "scan_ok (chunk_used bits) d p free first" "p \<le> 64 * length bits" "free < d \<longrightarrow> p = 64 * length bits"
    using scan_region_ok [of "chunk_used bits" d 0 0 0 bits] chunk_used_bucket [of _ bits] by auto
  show ?thesis
  proof (cases "free < d")
    case True
    then show ?thesis
      using scan by (auto simp: scan_ok_def)
  next
    case False
    then show ?thesis
      using scan assms by (auto simp: scan_ok_def)
  qed
qed

lemma bucket_of: "(i + 64) div 64 - Suc 0 = i div (64 :: nat)"
  by simp

lemma mark_chunk_eq:
  assumes "\<not> chunk_used bits i" and "i < 64 * length bits"
  shows "\<exists>bits'. mark_chunk i bits = Some bits' \<and> length bits' = length bits \<and>
    (\<forall>j. chunk_used bits' j \<longleftrightarrow> chunk_used bits j \<or> j = i)"
proof -
  have k: "i div 64 < length bits"
    using assms(2) by (simp add: div_less_iff_less_mult mult.commute)
  have split: "j = i" if "j div 64 = i div 64" "j mod 64 = i mod 64" for j
    using that by (metis div_mult_mod_eq)
  show ?thesis
    using assms k split by (auto simp: mark_chunk_def Let_def bucket_of chunk_used_def bit_ops nth_list_update)
qed

lemma unmark_chunk_eq:
  assumes "chunk_used bits i"
  shows "\<exists>bits'. unmark_chunk i bits = Some bits' \<and> length bits' = length bits \<and>
    (\<forall>j. chunk_used bits' j \<longleftrightarrow> chunk_used bits j \<and> j \<noteq> i)"
proof -
  have k: "i div 64 < length bits"
    using assms by (simp add: chunk_used_def div_less_iff_less_mult mult.commute)
  have split: "j = i" if "j div 64 = i div 64" "j mod 64 = i mod 64" for j
    using that by (metis div_mult_mod_eq)
  show ?thesis
    using assms k split by (auto simp: unmark_chunk_def Let_def bucket_of chunk_used_def bit_ops nth_list_update)
qed

lemma mark_chunks:
  assumes "\<forall>i\<in>set is'. \<not> chunk_used bits i \<and> i < 64 * length bits" and "distinct is'"
  shows "\<exists>bits'. for_each mark_chunk is' bits = Some bits' \<and> length bits' = length bits \<and>
    (\<forall>j. chunk_used bits' j \<longleftrightarrow> chunk_used bits j \<or> j \<in> set is')"
  using assms
proof (induction is' arbitrary: bits)
  case (Cons i is')
  obtain bits' where b: "mark_chunk i bits = Some bits'" "length bits' = length bits"
      "\<forall>j. chunk_used bits' j \<longleftrightarrow> chunk_used bits j \<or> j = i"
    using mark_chunk_eq [of bits i] Cons.prems(1) by auto
  moreover have "\<forall>j\<in>set is'. \<not> chunk_used bits' j \<and> j < 64 * length bits'"
    using b Cons.prems by auto
  ultimately show ?case
    using Cons.IH [of bits'] Cons.prems(2) by auto
qed simp

lemma unmark_chunks:
  assumes "\<forall>i\<in>set is'. chunk_used bits i" and "distinct is'"
  shows "\<exists>bits'. for_each unmark_chunk is' bits = Some bits' \<and> length bits' = length bits \<and>
    (\<forall>j. chunk_used bits' j \<longleftrightarrow> chunk_used bits j \<and> j \<notin> set is')"
  using assms
proof (induction is' arbitrary: bits)
  case (Cons i is')
  obtain bits' where b: "unmark_chunk i bits = Some bits'" "length bits' = length bits"
      "\<forall>j. chunk_used bits' j \<longleftrightarrow> chunk_used bits j \<and> j \<noteq> i"
    using unmark_chunk_eq [of bits i] Cons.prems(1) by auto
  moreover have "\<forall>j\<in>set is'. chunk_used bits' j"
    using b Cons.prems by auto
  ultimately show ?case
    using Cons.IH [of bits'] Cons.prems(2) by auto
qed simp

section \<open>Blocks of a region\<close>

text \<open>A block is its first chunk and its size in bytes. The pointer follows the header.\<close>

definition chunks_for :: "nat \<Rightarrow> nat" where
  "chunks_for n = (n + header_size + (k_chunk_size - 1)) div k_chunk_size"

definition block_chunks :: "nat \<times> nat \<Rightarrow> nat set" where
  "block_chunks b = {fst b..<fst b + chunks_for (snd b)}"

definition block_ptr :: "heap_region \<Rightarrow> nat \<times> nat \<Rightarrow> nat" where
  "block_ptr r b = hr_memory r + fst b * k_chunk_size + header_size"

text \<open>
  The live blocks have disjoint chunks, the bit set holds exactly these, and the header of every block
  is intact.
\<close>

definition region_inv :: "(nat \<times> nat) list \<Rightarrow> heap_region \<times> headers \<Rightarrow> bool" where
  "region_inv live = (\<lambda>(r, hs).
     64 * length (hr_bitset r) \<le> hr_chunk_count r \<and>
     (\<forall>i. chunk_used (hr_bitset r) i \<longleftrightarrow> (\<exists>b\<in>set live. i \<in> block_chunks b)) \<and>
     (\<forall>b\<in>set live. \<forall>c\<in>set live. b \<noteq> c \<longrightarrow> block_chunks b \<inter> block_chunks c = {}) \<and>
     distinct live \<and>
     (\<forall>b\<in>set live. hs (block_ptr r b - header_size) =
        Some \<lparr>ah_check = k_allocation_header_check, ah_chunk_count = chunks_for (snd b)\<rparr>) \<and>
     hr_used_chunk_count r = (\<Sum>b\<leftarrow>live. chunks_for (snd b)) \<and>
     hr_chunk_count r < 2 ^ 64)"

lemma chunks_for_pos [simp]: "0 < chunks_for n"
  by (simp add: chunks_for_def div_greater_zero_iff)

lemma chunks_for_room: "n + header_size \<le> chunks_for n * k_chunk_size"
  by (simp add: chunks_for_def)

lemma region_allocate_sizes:
  "n < 2 ^ 63 \<Longrightarrow> add64 (add64 n header_size) (k_chunk_size - 1) div k_chunk_size = chunks_for n"
  by (simp add: add64_def chunks_for_def)

lemma region_allocate_eq:
  "n < 2 ^ 63 \<Longrightarrow> region_allocate n (r, hs) = do {
     (free, first) \<leftarrow> scan_region (chunks_for n) 0 (hr_bitset r) 0 0;
     if free < chunks_for n then Some (None, r, hs)
     else do {
       bits \<leftarrow> for_each mark_chunk [first..<first + chunks_for n] (hr_bitset r);
       Some (Some (block_ptr r (first, n)),
         r\<lparr>hr_bitset := bits, hr_used_chunk_count := hr_used_chunk_count r + chunks_for n\<rparr>,
         hs(hr_memory r + first * k_chunk_size \<mapsto>
           \<lparr>ah_check = k_allocation_header_check, ah_chunk_count = chunks_for n\<rparr>))
     }
   }"
  by (simp only: region_allocate_def prod.case Let_def region_allocate_sizes block_ptr_def fst_conv)

lemma region_allocate_ok:
  assumes "region_inv live (r, hs)" and "n < 2 ^ 63"
  shows "\<exists>p r' hs'. region_allocate n (r, hs) = Some (p, r', hs') \<and>
    hr_memory r' = hr_memory r \<and> hr_chunk_count r' = hr_chunk_count r \<and> length (hr_bitset r') = length (hr_bitset r) \<and>
    (case p of
       None \<Rightarrow> r' = r \<and> hs' = hs \<and> (\<forall>s. s + chunks_for n \<le> 64 * length (hr_bitset r) \<longrightarrow>
         (\<exists>b\<in>set live. block_chunks b \<inter> {s..<s + chunks_for n} \<noteq> {}))
     | Some ptr \<Rightarrow> \<exists>first. ptr = block_ptr r (first, n) \<and> region_inv ((first, n) # live) (r', hs') \<and>
         first + chunks_for n \<le> 64 * length (hr_bitset r))"
proof -
  let ?d = "chunks_for n"
  obtain free first where scan: "scan_region ?d 0 (hr_bitset r) 0 0 = Some (free, first)" and
    spec: "if free < ?d then \<forall>s. s + ?d \<le> 64 * length (hr_bitset r) \<longrightarrow> (\<exists>i. s \<le> i \<and> i < s + ?d \<and> chunk_used (hr_bitset r) i)
     else first + ?d \<le> 64 * length (hr_bitset r) \<and> (\<forall>i. first \<le> i \<longrightarrow> i < first + ?d \<longrightarrow> \<not> chunk_used (hr_bitset r) i) \<and>
       (\<forall>s < first. \<exists>i. s \<le> i \<and> i < s + ?d \<and> chunk_used (hr_bitset r) i)"
    using scan_region_spec [of ?d "hr_bitset r"] by auto
  have used: "chunk_used (hr_bitset r) i \<longleftrightarrow> (\<exists>b\<in>set live. i \<in> block_chunks b)" for i
    using assms(1) by (simp add: region_inv_def)
  show ?thesis
  proof (cases "free < ?d")
    case True
    have "\<exists>b\<in>set live. block_chunks b \<inter> {s..<s + ?d} \<noteq> {}" if room: "s + ?d \<le> 64 * length (hr_bitset r)" for s
    proof -
      obtain i where i: "s \<le> i" "i < s + ?d" "chunk_used (hr_bitset r) i"
        using True spec room by auto
      then obtain b where "b \<in> set live" "i \<in> block_chunks b"
        using used by blast
      then show ?thesis
        using i by (intro bexI [of _ b]) auto
    qed
    then show ?thesis
      using True scan by (simp add: region_allocate_eq [OF assms(2)])
  next
    case False
    then have range: "first + ?d \<le> 64 * length (hr_bitset r)"
        "\<forall>i\<in>set [first..<first + ?d]. \<not> chunk_used (hr_bitset r) i \<and> i < 64 * length (hr_bitset r)"
      using spec by auto
    obtain bits where bits: "for_each mark_chunk [first..<first + ?d] (hr_bitset r) = Some bits"
        "length bits = length (hr_bitset r)"
        "\<forall>j. chunk_used bits j \<longleftrightarrow> chunk_used (hr_bitset r) j \<or> j \<in> set [first..<first + ?d]"
      using mark_chunks [OF range(2) distinct_upt] by auto
    let ?header = "\<lparr>ah_check = k_allocation_header_check, ah_chunk_count = ?d\<rparr>"
    let ?r = "r\<lparr>hr_bitset := bits, hr_used_chunk_count := hr_used_chunk_count r + ?d\<rparr>"
    let ?hs = "hs(hr_memory r + first * k_chunk_size \<mapsto> ?header)"
    have new: "block_chunks (first, n) = set [first..<first + ?d]"
      by (auto simp: block_chunks_def)
    have disjoint: "block_chunks (first, n) \<inter> block_chunks b = {}" if "b \<in> set live" for b
      using range(2) used that new by auto
    have "first \<in> block_chunks (first, n)"
      by (simp add: block_chunks_def)
    then have other: "(first, n) \<notin> set live" "\<forall>b\<in>set live. fst b \<noteq> first"
      using disjoint by (fastforce simp: block_chunks_def)+
    have "region_inv ((first, n) # live) (?r, ?hs)"
      using assms(1) bits(2,3) new disjoint other
      by (auto simp: region_inv_def block_ptr_def Int_commute)
    then show ?thesis
      using False scan bits(1,2) range(1) by (simp add: region_allocate_eq [OF assms(2)]) (auto simp: block_ptr_def)
  qed
qed

lemma region_allocate_cases:
  assumes "region_inv live (r, hs)" and "n < 2 ^ 63"
  obtains (full) "region_allocate n (r, hs) = Some (None, r, hs)"
  | (found) first r' hs' where "region_allocate n (r, hs) = Some (Some (block_ptr r (first, n)), r', hs')"
      "hr_memory r' = hr_memory r" "hr_chunk_count r' = hr_chunk_count r" "length (hr_bitset r') = length (hr_bitset r)"
      "region_inv ((first, n) # live) (r', hs')"
proof -
  obtain p r' hs' where "region_allocate n (r, hs) = Some (p, r', hs')"
      "hr_memory r' = hr_memory r" "hr_chunk_count r' = hr_chunk_count r" "length (hr_bitset r') = length (hr_bitset r)"
      "p = None \<longrightarrow> r' = r \<and> hs' = hs"
      "\<forall>ptr. p = Some ptr \<longrightarrow> (\<exists>first. ptr = block_ptr r (first, n) \<and> region_inv ((first, n) # live) (r', hs'))"
    using region_allocate_ok [OF assms] by (force split: option.splits)
  then show thesis
    using that by (cases p) auto
qed

lemma region_allocate_fresh:
  assumes "region_inv [] (r, hs)" and "n < 2 ^ 63" and "chunks_for n \<le> 64 * length (hr_bitset r)"
  shows "\<exists>first r' hs'. region_allocate n (r, hs) = Some (Some (block_ptr r (first, n)), r', hs') \<and>
    hr_memory r' = hr_memory r \<and> hr_chunk_count r' = hr_chunk_count r \<and> region_inv [(first, n)] (r', hs')"
proof -
  obtain p r' hs' where alloc: "region_allocate n (r, hs) = Some (p, r', hs')"
      "hr_memory r' = hr_memory r" "hr_chunk_count r' = hr_chunk_count r"
      "p = None \<longrightarrow> (\<forall>s. s + chunks_for n \<le> 64 * length (hr_bitset r) \<longrightarrow> False)"
      "\<forall>ptr. p = Some ptr \<longrightarrow> (\<exists>first. ptr = block_ptr r (first, n) \<and> region_inv [(first, n)] (r', hs'))"
    using region_allocate_ok [OF assms(1,2)] by (force split: option.splits)
  then have "p \<noteq> None"
    using assms(3) by (auto dest: spec [of _ 0])
  then show ?thesis
    using alloc by auto
qed

lemma used_chunks_bound:
  assumes "region_inv live (r, hs)"
  shows "hr_used_chunk_count r < 2 ^ 64"
proof -
  have live: "distinct live" "\<forall>b\<in>set live. \<forall>c\<in>set live. b \<noteq> c \<longrightarrow> block_chunks b \<inter> block_chunks c = {}"
    using assms by (simp_all add: region_inv_def)
  have "hr_used_chunk_count r = (\<Sum>b\<in>set live. card (block_chunks b))"
    using assms live(1) by (simp add: region_inv_def block_chunks_def sum_list_distinct_conv_sum_set)
  also have "\<dots> = card (\<Union>b\<in>set live. block_chunks b)"
    using live(2) by (subst card_UN_disjoint) (auto simp: block_chunks_def)
  also have "\<dots> \<le> card {..<64 * length (hr_bitset r)}"
    using assms by (intro card_mono) (auto simp: region_inv_def chunk_used_def)
  also have "\<dots> \<le> hr_chunk_count r"
    using assms by (simp add: region_inv_def)
  finally show ?thesis
    using assms by (simp add: region_inv_def)
qed

lemma region_deallocate_ok:
  assumes "region_inv live (r, hs)" and "b \<in> set live"
  shows "\<exists>r'. region_deallocate (block_ptr r b) (r, hs) = Some r' \<and> region_inv (remove1 b live) (r', hs) \<and>
    hr_memory r' = hr_memory r \<and> hr_chunk_count r' = hr_chunk_count r \<and> length (hr_bitset r') = length (hr_bitset r)"
proof -
  let ?d = "chunks_for (snd b)"
  have header: "hs (block_ptr r b - header_size) = Some \<lparr>ah_check = k_allocation_header_check, ah_chunk_count = ?d\<rparr>"
    using assms by (simp add: region_inv_def)
  have first: "(block_ptr r b - header_size - hr_memory r) div k_chunk_size = fst b"
    by (simp add: block_ptr_def)
  have chunks: "set [fst b..<fst b + ?d] = block_chunks b"
    by (auto simp: block_chunks_def)
  have "\<forall>i\<in>block_chunks b. chunk_used (hr_bitset r) i"
    using assms by (auto simp: region_inv_def)
  then obtain bits where bits: "for_each unmark_chunk [fst b..<fst b + ?d] (hr_bitset r) = Some bits"
      "length bits = length (hr_bitset r)" "\<forall>j. chunk_used bits j \<longleftrightarrow> chunk_used (hr_bitset r) j \<and> j \<notin> block_chunks b"
    using unmark_chunks [of "[fst b..<fst b + ?d]" "hr_bitset r", unfolded chunks] by auto
  let ?used = "hr_used_chunk_count r - ?d"
  have total: "hr_used_chunk_count r = ?d + (\<Sum>c\<leftarrow>remove1 b live. chunks_for (snd c))"
    using assms by (simp add: region_inv_def sum_list_map_remove1)
  then have sub: "sub64 (hr_used_chunk_count r) ?d = ?used"
    using used_chunks_bound [OF assms(1)] by (simp add: wrap_simps)
  let ?r = "r\<lparr>hr_bitset := bits, hr_used_chunk_count := ?used\<rparr>"
  have live: "set (remove1 b live) = set live - {b}" "distinct (remove1 b live)"
    using assms(1) by (simp_all add: region_inv_def)
  have disjoint: "i \<notin> block_chunks b" if "c \<in> set live" "c \<noteq> b" "i \<in> block_chunks c" for c i
    using assms that by (auto simp: region_inv_def)
  have "chunk_used bits i \<longleftrightarrow> (\<exists>c\<in>set (remove1 b live). i \<in> block_chunks c)" for i
  proof -
    have "chunk_used (hr_bitset r) i \<longleftrightarrow> (\<exists>c\<in>set live. i \<in> block_chunks c)"
      using assms(1) by (simp add: region_inv_def)
    then show ?thesis
      using bits(3) live(1) disjoint by auto
  qed
  then have "region_inv (remove1 b live) (?r, hs)"
    using assms(1) bits(2) live total by (auto simp: region_inv_def block_ptr_def)
  then show ?thesis
    using header first bits(1,2) sub by (simp add: region_deallocate_def checked_header_def)
qed

section \<open>Clients of a region\<close>

datatype heap_op = Alloc nat | Free nat

text \<open>
  A client keeps the pointers and sizes of what it allocated, and frees by position.
\<close>

fun region_step :: "heap_op \<Rightarrow> (nat \<times> nat) list \<times> heap_region \<times> headers \<Rightarrow> ((nat \<times> nat) list \<times> heap_region \<times> headers) option" where
  "region_step (Alloc n) (live, r, hs) = do {
     (p, r', hs') \<leftarrow> region_allocate n (r, hs);
     Some ((case p of None \<Rightarrow> live | Some ptr \<Rightarrow> (ptr, n) # live), r', hs')
   }"
| "region_step (Free i) (live, r, hs) =
     (if i < length live then do {
        r' \<leftarrow> region_deallocate (fst (live ! i)) (r, hs);
        Some (remove1 (live ! i) live, r', hs)
      } else Some (live, r, hs))"

definition client_ok :: "heap_region \<Rightarrow> (nat \<times> nat) list \<times> heap_region \<times> headers \<Rightarrow> bool" where
  "client_ok r0 = (\<lambda>(live, r, hs). hr_memory r = hr_memory r0 \<and> hr_chunk_count r = hr_chunk_count r0 \<and>
     length (hr_bitset r) = length (hr_bitset r0) \<and>
     (\<exists>blocks. region_inv blocks (r, hs) \<and> live = map (\<lambda>b. (block_ptr r b, snd b)) blocks))"

lemma inj_block: "inj (\<lambda>b. (block_ptr r b, snd b))"
  by (auto simp: inj_def block_ptr_def)

lemma remove1_map_inj: "inj f \<Longrightarrow> remove1 (f x) (map f xs) = map f (remove1 x xs)"
  by (induction xs) (auto simp: inj_eq)

lemma region_step_ok:
  assumes "client_ok r0 s" and "\<And>n. op = Alloc n \<Longrightarrow> n < 2 ^ 63"
  shows "\<exists>s'. region_step op s = Some s' \<and> client_ok r0 s'"
proof -
  obtain live r hs where s: "s = (live, r, hs)"
    by (cases s) auto
  obtain blocks where r: "hr_memory r = hr_memory r0" "hr_chunk_count r = hr_chunk_count r0"
      "length (hr_bitset r) = length (hr_bitset r0)" and inv: "region_inv blocks (r, hs)"
      and live: "live = map (\<lambda>b. (block_ptr r b, snd b)) blocks"
    using assms(1) s by (auto simp: client_ok_def)
  have same: "block_ptr r' = block_ptr r" if "hr_memory r' = hr_memory r" for r'
    using that by (simp add: block_ptr_def fun_eq_iff)
  show ?thesis
  proof (cases op)
    case (Alloc n)
    show ?thesis
      using inv assms(2) [OF Alloc]
    proof (cases rule: region_allocate_cases)
      case full
      then show ?thesis
        using Alloc s assms(1) by simp
    next
      case (found first r' hs')
      have "(block_ptr r (first, n), n) # live = map (\<lambda>b. (block_ptr r' b, snd b)) ((first, n) # blocks)"
        using live by (simp add: same [OF found(2)])
      then show ?thesis
        using Alloc s r found unfolding client_ok_def by auto
    qed
  next
    case (Free i)
    show ?thesis
    proof (cases "i < length live")
      case True
      then have b: "blocks ! i \<in> set blocks" "live ! i = (block_ptr r (blocks ! i), snd (blocks ! i))"
        using live by simp_all
      have "remove1 (live ! i) live = map (\<lambda>b. (block_ptr r b, snd b)) (remove1 (blocks ! i) blocks)"
        using remove1_map_inj [of "\<lambda>b. (block_ptr r b, snd b)" "blocks ! i" blocks] b(2)
        by (simp add: live inj_block)
      moreover obtain r' where "region_deallocate (block_ptr r (blocks ! i)) (r, hs) = Some r'"
          "region_inv (remove1 (blocks ! i) blocks) (r', hs)" and r': "hr_memory r' = hr_memory r"
          "hr_chunk_count r' = hr_chunk_count r" "length (hr_bitset r') = length (hr_bitset r)"
        using region_deallocate_ok [OF inv b(1)] by blast
      ultimately show ?thesis
        using True Free s b(2) r unfolding client_ok_def by (auto simp: same [OF r'(1)])
    next
      case False
      then show ?thesis
        using Free s assms(1) by simp
    qed
  qed
qed

lemma region_steps_ok:
  assumes "client_ok r0 s" and "\<forall>op\<in>set ops. \<forall>n. op = Alloc n \<longrightarrow> n < 2 ^ 63"
  shows "\<exists>s'. for_each region_step ops s = Some s' \<and> client_ok r0 s'"
  using assms
proof (induction ops arbitrary: s)
  case (Cons op ops)
  then show ?case
    using region_step_ok [OF Cons.prems(1), of op] by fastforce
qed simp

lemma chunk_used_none:
  assumes "\<And>i. \<not> chunk_used bits i"
  shows "bits = replicate (length bits) 0"
proof (rule nth_equalityI)
  show "bits ! k = replicate (length bits) 0 ! k" if "k < length bits" for k
  proof -
    have "\<not> bit (bits ! k) j" for j
      using assms [of "64 * k + j"] chunk_used_bucket [OF that, of j] bit_imp_le_length [of "bits ! k" j] by auto
    then show ?thesis
      using that by (auto intro: bit_eqI)
  qed
qed simp

lemma region_new_inv:
  assumes "region_new memory n = Some r" and "n < 2 ^ 64"
  shows "region_inv [] (r, Map.empty) \<and> hr_memory r = memory \<and> hr_chunk_count r * k_chunk_size \<le> n \<and>
    hr_bitset r = replicate (length (hr_bitset r)) 0"
proof -
  have "\<not> chunk_used (replicate m 0) i" for m i
    by (auto simp: chunk_used_def)
  moreover have "hr_chunk_count r = n div 33"
    using assms(1) by (auto simp: region_new_def Let_def)
  ultimately show ?thesis
    using assms by (auto simp: region_new_def Let_def region_inv_def)
qed

text \<open>Blocks of different chunks do not overlap, headers included.\<close>

lemma blocks_apart:
  assumes "block_chunks b \<inter> block_chunks c = {}"
  shows "{block_ptr r b - header_size..<block_ptr r b + snd b} \<inter>
    {block_ptr r c - header_size..<block_ptr r c + snd c} = {}"
proof -
  have pos: "0 < chunks_for (snd b)" "0 < chunks_for (snd c)"
    by simp_all
  have "fst b + chunks_for (snd b) \<le> fst c \<or> fst c + chunks_for (snd c) \<le> fst b"
  proof (rule ccontr)
    assume "\<not> ?thesis"
    then have "max (fst b) (fst c) \<in> block_chunks b \<inter> block_chunks c"
      using pos by (auto simp: block_chunks_def max_def)
    then show False
      using assms by blast
  qed
  then have "(fst b + chunks_for (snd b)) * k_chunk_size \<le> fst c * k_chunk_size \<or>
      (fst c + chunks_for (snd c)) * k_chunk_size \<le> fst b * k_chunk_size"
    by (metis mult_le_mono1)
  then have "block_ptr r b + snd b \<le> block_ptr r c - header_size \<or> block_ptr r c + snd c \<le> block_ptr r b - header_size"
    using chunks_for_room [of "snd b"] chunks_for_room [of "snd c"] by (auto simp: block_ptr_def algebra_simps)
  then show ?thesis
    by auto
qed

text \<open>
  C11. However a client allocates from a region of the kernel heap and frees, no assertion fails, the
  blocks it holds lie inside the memory of the region, keep the alignment of its start to 16 bytes, and
  overlap neither each other nor the header of another block. The count of used chunks is exact, and when
  everything was freed the bit set is as it was.
\<close>

theorem region_blocks_disjoint:
  assumes "region_new memory n = Some r" and "n < 2 ^ 64" and "\<forall>op\<in>set ops. \<forall>m. op = Alloc m \<longrightarrow> m < 2 ^ 63"
  shows "\<exists>live r' hs'. for_each region_step ops ([], r, Map.empty) = Some (live, r', hs') \<and>
    (\<forall>(p, m)\<in>set live. (p - memory) mod 16 = 0 \<and> memory + header_size \<le> p \<and> p + m \<le> memory + n) \<and>
    (\<forall>i < length live. \<forall>j < length live. i \<noteq> j \<longrightarrow>
       {fst (live ! i) - header_size..<fst (live ! i) + snd (live ! i)} \<inter>
       {fst (live ! j) - header_size..<fst (live ! j) + snd (live ! j)} = {}) \<and>
    hr_used_chunk_count r' = (\<Sum>(p, m)\<leftarrow>live. chunks_for m) \<and>
    (live = [] \<longrightarrow> r' = r)"
proof -
  note new = region_new_inv [OF assms(1,2)]
  have "client_ok r ([], r, Map.empty)"
    using new by (simp add: client_ok_def)
  then obtain live r' hs' where run: "for_each region_step ops ([], r, Map.empty) = Some (live, r', hs')"
      "client_ok r (live, r', hs')"
    using region_steps_ok [OF _ assms(3)] by (metis prod_cases3)
  then obtain blocks where r': "hr_memory r' = memory" "hr_chunk_count r' = hr_chunk_count r"
      "length (hr_bitset r') = length (hr_bitset r)" and inv: "region_inv blocks (r', hs')"
      and live: "live = map (\<lambda>b. (block_ptr r' b, snd b)) blocks"
    using new by (auto simp: client_ok_def)
  have inside: "block_ptr r' b + snd b \<le> memory + n" if "b \<in> set blocks" for b
  proof -
    have "fst b + chunks_for (snd b) - 1 \<in> block_chunks b"
      using chunks_for_pos [of "snd b"] by (auto simp: block_chunks_def simp del: chunks_for_pos)
    then have "chunk_used (hr_bitset r') (fst b + chunks_for (snd b) - 1)"
      using inv that by (auto simp: region_inv_def)
    then have "fst b + chunks_for (snd b) - 1 < 64 * length (hr_bitset r')"
      by (simp add: chunk_used_def)
    moreover have "64 * length (hr_bitset r') \<le> hr_chunk_count r"
      using inv r'(2) by (simp add: region_inv_def)
    ultimately have "fst b + chunks_for (snd b) \<le> hr_chunk_count r"
      by linarith
    then have "(fst b + chunks_for (snd b)) * k_chunk_size \<le> n"
      using new by (meson le_trans mult_le_mono1)
    then show ?thesis
      using chunks_for_room [of "snd b"] r'(1) by (simp add: block_ptr_def algebra_simps)
  qed
  have "\<forall>(p, m)\<in>set live. (p - memory) mod 16 = 0 \<and> memory + header_size \<le> p \<and> p + m \<le> memory + n"
    using inside r'(1) by (auto simp: live block_ptr_def)
  moreover have "\<forall>i < length live. \<forall>j < length live. i \<noteq> j \<longrightarrow>
       {fst (live ! i) - header_size..<fst (live ! i) + snd (live ! i)} \<inter>
       {fst (live ! j) - header_size..<fst (live ! j) + snd (live ! j)} = {}"
  proof (intro allI impI)
    fix i j
    assume ij: "i < length live" "j < length live" "i \<noteq> j"
    then have "block_chunks (blocks ! i) \<inter> block_chunks (blocks ! j) = {}"
      using inv live by (auto simp: region_inv_def nth_eq_iff_index_eq)
    then show "{fst (live ! i) - header_size..<fst (live ! i) + snd (live ! i)} \<inter>
       {fst (live ! j) - header_size..<fst (live ! j) + snd (live ! j)} = {}"
      using blocks_apart [of "blocks ! i" "blocks ! j" r'] ij live by simp
  qed
  moreover have "hr_used_chunk_count r' = (\<Sum>(p, m)\<leftarrow>live. chunks_for m)"
    using inv by (simp add: region_inv_def live comp_def)
  moreover have "r' = r" if "live = []"
  proof -
    have none: "\<not> chunk_used (hr_bitset r') i" and "hr_used_chunk_count r' = 0" for i
      using inv live that by (auto simp: region_inv_def)
    then show ?thesis
      using new r' chunk_used_none [of "hr_bitset r'"] by (simp add: region_inv_def)
  qed
  ultimately show ?thesis
    using run(1) by blast
qed

theorem region_blocks_disjoint_witness:
  "\<exists>r. region_new 48 4096 = Some r \<and>
     (\<exists>live r' hs'. for_each region_step [Alloc 100, Alloc 40, Free 1, Alloc 8] ([], r, Map.empty) = Some (live, r', hs') \<and>
        hr_used_chunk_count r' = (\<Sum>(p, m)\<leftarrow>live. chunks_for m) \<and>
        (\<forall>i < length live. \<forall>j < length live. i \<noteq> j \<longrightarrow>
          {fst (live ! i) - header_size..<fst (live ! i) + snd (live ! i)} \<inter>
          {fst (live ! j) - header_size..<fst (live ! j) + snd (live ! j)} = {}))"
proof -
  have "region_new 48 4096 \<noteq> None"
    by code_simp
  then obtain r where r: "region_new 48 4096 = Some r"
    by blast
  moreover have "\<forall>op\<in>set [Alloc 100, Alloc 40, Free 1, Alloc 8]. \<forall>m. op = Alloc m \<longrightarrow> m < 2 ^ 63"
    by simp
  ultimately show ?thesis
    using region_blocks_disjoint [OF r, of "[Alloc 100, Alloc 40, Free 1, Alloc 8]"] by simp blast
qed

definition free_run :: "u64 list \<Rightarrow> nat \<Rightarrow> nat \<Rightarrow> bool" where
  "free_run bits s d \<longleftrightarrow> s + d \<le> 64 * length bits \<and> (\<forall>i. s \<le> i \<longrightarrow> i < s + d \<longrightarrow> \<not> chunk_used bits i)"

lemma scan_region_first:
  assumes "0 < d"
  shows "\<exists>free first. scan_region d 0 bits 0 0 = Some (free, first) \<and> (d \<le> free \<longleftrightarrow> (\<exists>s. free_run bits s d)) \<and>
    (d \<le> free \<longrightarrow> first = (LEAST s. free_run bits s d) \<and> free_run bits first d)"
proof -
  obtain free first where scan: "scan_region d 0 bits 0 0 = Some (free, first)"
    "if free < d then \<forall>s. s + d \<le> 64 * length bits \<longrightarrow> (\<exists>i. s \<le> i \<and> i < s + d \<and> chunk_used bits i)
     else first + d \<le> 64 * length bits \<and> (\<forall>i. first \<le> i \<longrightarrow> i < first + d \<longrightarrow> \<not> chunk_used bits i) \<and>
       (\<forall>s < first. \<exists>i. s \<le> i \<and> i < s + d \<and> chunk_used bits i)"
    using scan_region_spec [OF assms, of bits] by auto
  show ?thesis
  proof (cases "free < d")
    case True
    then have "\<not> free_run bits s d" for s
      using scan(2) by (auto simp: free_run_def)
    then show ?thesis
      using scan(1) True by simp
  next
    case False
    then have run: "free_run bits first d" "\<And>s. free_run bits s d \<Longrightarrow> first \<le> s"
      using scan(2) by (auto simp: free_run_def not_less [symmetric])
    then have "(LEAST s. free_run bits s d) = first"
      by (rule Least_equality)
    then show ?thesis
      using scan(1) False run by auto
  qed
qed

text \<open>
  C23. A region gives out the lowest run of free chunks that holds the header and the bytes asked for,
  and refuses exactly when there is no such run among the chunks of its full buckets: the scan by
  leading and trailing bits finds what a search chunk by chunk would find.
\<close>

theorem region_allocate_first_fit:
  assumes "n < 2 ^ 63"
  shows "map_option fst (region_allocate n (r, hs)) =
    Some (if \<exists>s. free_run (hr_bitset r) s (chunks_for n)
          then Some (block_ptr r (LEAST s. free_run (hr_bitset r) s (chunks_for n), n)) else None)"
proof -
  obtain free first where scan: "scan_region (chunks_for n) 0 (hr_bitset r) 0 0 = Some (free, first)"
      "chunks_for n \<le> free \<longleftrightarrow> (\<exists>s. free_run (hr_bitset r) s (chunks_for n))"
      "chunks_for n \<le> free \<longrightarrow> first = (LEAST s. free_run (hr_bitset r) s (chunks_for n)) \<and> free_run (hr_bitset r) first (chunks_for n)"
    using scan_region_first [OF chunks_for_pos, of n "hr_bitset r"] by blast
  show ?thesis
  proof (cases "free < chunks_for n")
    case True
    then show ?thesis
      using scan by (simp add: region_allocate_eq [OF assms])
  next
    case False
    then have run: "first = (LEAST s. free_run (hr_bitset r) s (chunks_for n))" "free_run (hr_bitset r) first (chunks_for n)"
      using scan(3) not_less by blast+
    have "\<forall>i\<in>set [first..<first + chunks_for n]. \<not> chunk_used (hr_bitset r) i \<and> i < 64 * length (hr_bitset r)"
      using run(2) by (auto simp: free_run_def)
    then obtain bits where "for_each mark_chunk [first..<first + chunks_for n] (hr_bitset r) = Some bits"
      using mark_chunks [OF _ distinct_upt] by blast
    moreover have "\<exists>s. free_run (hr_bitset r) s (chunks_for n)"
      using run(2) by blast
    ultimately show ?thesis
      using scan(1) False by (simp add: region_allocate_eq [OF assms] flip: run(1))
  qed
qed

theorem region_allocate_first_fit_witness:
  "map_option fst (region_allocate 40 (\<lparr>hr_memory = 48, hr_bitset = [0xD], hr_chunk_count = 64, hr_used_chunk_count = 3\<rparr>, Map.empty)) =
     Some (Some (48 + 4 * 32 + 16))"
proof -
  let ?r = "\<lparr>hr_memory = 48, hr_bitset = [0xD], hr_chunk_count = 64, hr_used_chunk_count = 3\<rparr> :: heap_region"
  have d: "chunks_for 40 = 2"
    by code_simp
  have used: "chunk_used [0xD] 0" "\<not> chunk_used [0xD] 1" "chunk_used [0xD] 2" "chunk_used [0xD] 3"
    by code_simp+
  have "\<not> chunk_used [0xD] 4" "\<not> chunk_used [0xD] 5"
    by code_simp+
  then have run: "free_run [0xD] 4 2"
    by (auto simp: free_run_def less_Suc_eq numeral_eq_Suc)
  moreover have "4 \<le> s" if "free_run [0xD] s 2" for s
  proof (rule ccontr)
    assume "\<not> 4 \<le> s"
    then have "s \<in> {0, 1, 2, 3}"
      by auto
    then show False
      using that used unfolding free_run_def by (auto dest: spec [of _ 2])
  qed
  ultimately have "(LEAST s. free_run [0xD] s 2) = 4"
    by (rule Least_equality)
  then show ?thesis
    using region_allocate_first_fit [of 40 ?r Map.empty] run d by (auto simp: block_ptr_def)
qed

section \<open>Blocks at the limit\<close>

lemma alloc_contiguous_from_frame: "alloc_contiguous_from i n mm = Some (a, mm') \<Longrightarrow> k_frame_size dvd a"
proof (induction i n mm rule: alloc_contiguous_from.induct)
  case (1 i n mm)
  have "k_frame_size dvd mul64 i k_frame_size"
    by (simp add: mul64_def dvd_mod_iff)
  moreover note "1.prems" [unfolded alloc_contiguous_from.simps [of i n mm]]
  ultimately show ?case
    using "1.IH" by (auto split: if_splits Option.bind_splits)
qed

lemma make_region_fresh:
  assumes "make_region mm = Some (r, mm')"
  shows "\<exists>a. k_frame_size dvd a \<and> hr_memory r = a + region_object_size \<and> hr_chunk_count r = 31773 \<and>
    length (hr_bitset r) = 496 \<and> region_inv [] (r, Map.empty)"
proof -
  obtain a where a: "alloc_contiguous (MiB 1) mm = Some (a, mm')" "region_new (a + region_object_size) (MiB 1 - region_object_size) = Some r"
    using assms by (auto simp: make_region_def split: Option.bind_splits)
  have "k_frame_size dvd a"
    using a(1) alloc_contiguous_from_frame by (auto simp: alloc_contiguous_def split: Option.bind_splits)
  moreover have "hr_chunk_count r = 31773 \<and> length (hr_bitset r) = 496"
    using a(2) by (auto simp: region_new_def MiB_def Let_def)
  ultimately show ?thesis
    using region_new_inv [OF a(2)] by (auto simp: MiB_def)
qed

lemma not_frame: "k_frame_size dvd a \<Longrightarrow> (a + region_object_size + k * k_chunk_size) mod k_frame_size \<noteq> 0"
proof
  assume a: "k_frame_size dvd a" and "(a + region_object_size + k * k_chunk_size) mod k_frame_size = 0"
  then have "k_frame_size dvd a + region_object_size + k * k_chunk_size"
    by (simp add: mod_eq_0_iff_dvd)
  moreover have "k_chunk_size dvd k_frame_size"
    by simp
  ultimately have "k_chunk_size dvd a" "k_chunk_size dvd a + region_object_size + k * k_chunk_size"
    using a dvd_trans by blast+
  then have "k_chunk_size dvd region_object_size"
    by (simp add: dvd_add_right_iff dvd_add_left_iff)
  then show False
    by simp
qed

text \<open>
  The heap decides by different sizes whether a block came from a region: when allocating by the bytes
  asked for, when freeing by the chunks in the header, which count the header too. A block of 1 to 15
  bytes less than the limit is cut from a region, and freeing it fails an assertion of the memory manager.
\<close>

theorem heap_boundary_block_not_freed:
  assumes "heap_initialise mm = Some h" and "1015697 \<le> n" and "n < 1015712"
  shows "\<exists>p h'. operator_new n h = Some (Some p, h') \<and> h_memory h' = h_memory h \<and> operator_delete p h' = None"
proof -
  obtain r mm' where h: "make_region mm = Some (r, mm')" "h = \<lparr>h_regions = [r], h_headers = Map.empty, h_memory = mm'\<rparr>"
    using assms(1) by (auto simp: heap_initialise_def split: Option.bind_splits)
  obtain a where r: "k_frame_size dvd a" "hr_memory r = a + region_object_size" "hr_chunk_count r = 31773"
      "length (hr_bitset r) = 496" "region_inv [] (r, Map.empty)"
    using make_region_fresh [OF h(1)] by auto
  have d: "chunks_for n = 31742"
    using assms(2,3) by (simp add: chunks_for_def)
  obtain first r' hs' where alloc: "region_allocate n (r, Map.empty) = Some (Some (block_ptr r (first, n)), r', hs')"
      "hr_memory r' = hr_memory r" "hr_chunk_count r' = hr_chunk_count r" "region_inv [(first, n)] (r', hs')"
    using region_allocate_fresh [OF r(5), of n] assms(3) r(4) d by auto
  let ?p = "block_ptr r (first, n)" and ?h = "h\<lparr>h_regions := [r'], h_headers := hs'\<rparr>"
  have ptr: "?p - header_size = a + region_object_size + first * k_chunk_size" "?p \<noteq> 0"
    using r(2) by (simp_all add: block_ptr_def)
  have "hs' (?p - header_size) = Some \<lparr>ah_check = k_allocation_header_check, ah_chunk_count = 31742\<rparr>"
    using alloc(2,4) d by (simp add: region_inv_def block_ptr_def)
  then have header: "checked_header ?p (h_headers ?h) = Some \<lparr>ah_check = k_allocation_header_check, ah_chunk_count = 31742\<rparr>"
    by (simp add: checked_header_def)
  have limit: "region_limit h = Some 1015712" "region_limit ?h = Some 1015712"
    using r(3) alloc(3) h(2) by (simp_all add: region_limit_def KiB_def sub64_def)
  have "operator_new n h = Some (Some ?p, ?h)"
    using limit(1) assms(3) alloc(1) h(2) by (simp add: operator_new_def heap_allocate_def)
  moreover have "free_contiguous (?p - header_size) k mm = None" for k mm
    using not_frame [OF r(1), of first] by (simp add: free_contiguous_def ptr(1))
  then have "operator_delete ?p ?h = None"
    using header limit(2) ptr(2) by (simp add: operator_delete_def heap_deallocate_def)
  ultimately show ?thesis
    by (intro exI [of _ ?p] exI [of _ ?h]) simp
qed

text \<open>A machine with 256 free frames.\<close>

definition demo_frames :: memory_manager where
  "demo_frames = \<lparr>frame_bitset = (\<lambda>_. 0), frame_count = 256\<rparr>"

lemma demo_heap: "\<exists>h. heap_initialise demo_frames = Some h"
proof -
  have "alloc_contiguous_from 0 256 demo_frames \<noteq> None"
    by (rule alloc_contiguous_from_finds [of _ _ _ 0]) (simp_all add: demo_frames_def mm_inv_def used_frames_def frame_used_def)
  moreover have "frames_of (MiB 1) = 256"
    by (simp add: frames_of_def MiB_def)
  ultimately obtain a mm where "alloc_contiguous (MiB 1) demo_frames = Some (a, mm)"
    using alloc_contiguous_eq [of "MiB 1" demo_frames] by (auto simp: MiB_def)
  moreover obtain r where "region_new (a + region_object_size) (MiB 1 - region_object_size) = Some r"
    by (simp add: region_new_def MiB_def Let_def)
  ultimately show ?thesis
    by (simp add: heap_initialise_def make_region_def)
qed

theorem heap_boundary_block_not_freed_witness:
  "\<exists>h p h'. heap_initialise demo_frames = Some h \<and> operator_new 1015700 h = Some (Some p, h') \<and> operator_delete p h' = None"
  using demo_heap heap_boundary_block_not_freed [of demo_frames _ 1015700] by fastforce

section \<open>Aligned allocations\<close>

text \<open>
  An allocation with an alignment of at least eight that is a multiple of eight, from a block at a
  multiple of 16, returns an aligned pointer. The bytes asked for and the eight bytes in front, where the
  distance is kept, lie inside the block that was allocated, and deleting the pointer frees that block.
\<close>

theorem aligned_new_delete:
  assumes "heap_allocate (n + alignment + 8) h = Some (Some ptr, h')" and "8 dvd ptr" and "8 dvd alignment" and "0 < alignment"
    and "16 \<le> ptr"
  shows "\<exists>a slots'. new_aligned n alignment (h, slots) = Some (a, h', slots') \<and> a mod alignment = 0 \<and>
    ptr \<le> a - 8 \<and> a + n \<le> ptr + (n + alignment + 8) \<and>
    (\<forall>h''. delete_aligned a (h'', slots') = operator_delete ptr h'') \<and>
    (\<forall>s. s \<noteq> a - 8 \<longrightarrow> slots' s = slots s)"
proof -
  let ?a = "ptr + alignment - (ptr + alignment) mod alignment"
  have a: "?a = alignment * ((ptr + alignment) div alignment)"
    by (rule minus_mod_eq_mult_div)
  have "(ptr + alignment) mod alignment < alignment"
    using assms(4) by (rule mod_less_divisor)
  then have above: "ptr < ?a" "?a \<le> ptr + alignment"
    by linarith+
  have "8 dvd ?a"
    unfolding a using assms(3) by (rule dvd_mult2)
  then have slot: "ptr \<le> ?a - 8"
    using above(1) assms(2) by (auto elim!: dvdE)
  have "?a mod alignment = 0"
    unfolding a by simp
  moreover have "new_aligned n alignment (h, slots) = Some (?a, h', slots(?a - 8 \<mapsto> ?a - ptr))"
    using assms(1,4) by (simp add: new_aligned_def Let_def)
  moreover have "delete_aligned ?a (h'', slots(?a - 8 \<mapsto> ?a - ptr)) = operator_delete ptr h''" for h''
    using above assms(5) by (auto simp: delete_aligned_def operator_delete_def)
  ultimately show ?thesis
    using above slot by auto
qed

theorem aligned_new_delete_witness:
  "\<exists>h ptr h' a slots'. heap_allocate (100 + 64 + 8) h = Some (Some ptr, h') \<and>
     new_aligned 100 64 (h, Map.empty) = Some (a, h', slots') \<and> a mod 64 = 0 \<and>
     delete_aligned a (h', slots') = operator_delete ptr h'"
proof -
  let ?r = "\<lparr>hr_memory = 48, hr_bitset = [0], hr_chunk_count = 64, hr_used_chunk_count = 0\<rparr>"
  let ?h = "\<lparr>h_regions = [?r], h_headers = Map.empty, h_memory = demo_frames\<rparr>"
  have "region_inv [] (?r, Map.empty)"
    by (simp add: region_inv_def chunk_used_def)
  then obtain first r' hs' where "region_allocate 172 (?r, Map.empty) = Some (Some (block_ptr ?r (first, 172)), r', hs')"
    using region_allocate_fresh [of ?r Map.empty 172] by (auto simp: chunks_for_def)
  moreover have "region_limit ?h = Some 1024"
    by (simp add: region_limit_def KiB_def sub64_def)
  ultimately obtain h' where alloc: "heap_allocate (100 + 64 + 8) ?h = Some (Some (block_ptr ?r (first, 172)), h')"
    by (simp add: heap_allocate_def)
  show ?thesis
    using alloc aligned_new_delete [OF alloc, of Map.empty] by (fastforce simp: block_ptr_def)
qed

end
