(* ===== verification/Shell.thy ===== *)
theory Shell
  imports Prelude
begin

text \<open>
  The shell, \<^verbatim>\<open>src/shell\<close>: the lexer, the parser, the syntax tree with its evaluation, and the execution
  of a line. Strings are values; what a failed \<open>text()\<close> or \<open>operator[]\<close> asserts is \<open>None\<close>. Messages of the
  shell are collected in a list. The system calls are functions over a kernel state.
\<close>

section \<open>Tokens\<close>

datatype token_kind = TkEof | TkIdentifier | TkPipe

text \<open>A token made of a kind has an empty text.\<close>

datatype token = Token token_kind | TextToken string

fun token_kind_of :: "token \<Rightarrow> token_kind" where
  "token_kind_of (Token k) = k"
| "token_kind_of (TextToken s) = TkIdentifier"

fun kind_string :: "token_kind \<Rightarrow> string" where
  "kind_string TkEof = ''eof''"
| "kind_string TkIdentifier = ''identifier''"
| "kind_string TkPipe = ''|''"

definition token_text :: "token \<Rightarrow> string option" where
  "token_text t = do {
     ensure (token_kind_of t = TkIdentifier);
     Some (case t of TextToken s \<Rightarrow> s | Token _ \<Rightarrow> [])
   }"

definition token_to_string :: "token \<Rightarrow> string" where
  "token_to_string t =
     (if token_kind_of t = TkIdentifier then case t of TextToken s \<Rightarrow> s | Token _ \<Rightarrow> []
      else kind_string (token_kind_of t))"

section \<open>The lexer\<close>

text \<open>What is left of a terminated string; at the end it points at the terminator.\<close>

fun lex_strchrnul :: "string \<Rightarrow> char \<Rightarrow> string" where
  "lex_strchrnul [] c = []"
| "lex_strchrnul (x # xs) c = (if x \<noteq> CHR 0x00 \<and> x \<noteq> c then lex_strchrnul xs c else x # xs)"

definition lex_strchr :: "string \<Rightarrow> char \<Rightarrow> string option" where
  "lex_strchr s c =
     (let ret = lex_strchrnul s c; x = (case ret of [] \<Rightarrow> CHR 0x00 | x # _ \<Rightarrow> x)
      in if x = c then Some ret else None)"

definition is_space :: "char \<Rightarrow> bool" where
  "is_space ch \<longleftrightarrow> ch = CHR '' '' \<or> ch = CHR 0x0C \<or> ch = CHR 0x0A \<or> ch = CHR 0x0D \<or> ch = CHR 0x09 \<or> ch = CHR 0x0B"

definition is_identifier_character :: "char \<Rightarrow> bool" where
  "is_identifier_character ch \<longleftrightarrow> lex_strchr ['' |'' ! 0, '' |'' ! 1, CHR 0x0A] ch = None"

record lexer =
  lx_source :: string
  lx_position :: nat
  lx_peek_token :: token
  lx_peek_ready :: bool
  lx_messages :: "string list"

definition lexer_new :: "string \<Rightarrow> lexer" where
  "lexer_new source = \<lparr>lx_source = source, lx_position = 0, lx_peek_token = Token TkEof, lx_peek_ready = False, lx_messages = []\<rparr>"

text \<open>
  The position behind the characters of a class. The position never passes the length of the source, so
  the tests for inequality with the length are tests for being smaller.
\<close>

function skip_while :: "(char \<Rightarrow> bool) \<Rightarrow> string \<Rightarrow> nat \<Rightarrow> nat" where
  "skip_while P src pos = (if pos < length src \<and> P (src ! pos) then skip_while P src (pos + 1) else pos)"
  by pat_completeness auto
termination
  by (relation "measure (\<lambda>(P, src, pos). length src - pos)") auto

declare skip_while.simps [simp del]

definition next_token :: "lexer \<Rightarrow> token \<times> lexer" where
  "next_token lx =
     (let src = lx_source lx; pos = skip_while is_space src (lx_position lx)
      in if pos \<ge> length src then (Token TkEof, lx\<lparr>lx_position := pos\<rparr>)
         else let ch = src ! pos
              in if ch = CHR ''|'' then (Token TkPipe, lx\<lparr>lx_position := pos + 1\<rparr>)
                 else if is_identifier_character ch
                 then let stop = skip_while is_identifier_character src (pos + 1)
                      in (TextToken (ch # take (stop - (pos + 1)) (drop (pos + 1) src)), lx\<lparr>lx_position := stop\<rparr>)
                 else (Token TkEof, lx\<lparr>lx_position := pos + 1, lx_messages := lx_messages lx @ [''ush: unexpected '' @ [ch]]\<rparr>))"

definition lex_next :: "lexer \<Rightarrow> token \<times> lexer" where
  "lex_next lx = (if lx_peek_ready lx then (lx_peek_token lx, lx\<lparr>lx_peek_ready := False\<rparr>) else next_token lx)"

definition lex_peek :: "lexer \<Rightarrow> token \<times> lexer" where
  "lex_peek lx =
     (if lx_peek_ready lx then (lx_peek_token lx, lx)
      else let (t, lx') = next_token lx in (t, lx'\<lparr>lx_peek_ready := True, lx_peek_token := t\<rparr>))"

section \<open>The parser\<close>

datatype node = Command node | List "node list" | Pipe node node | StringLiteral string

definition consume :: "token_kind \<Rightarrow> lexer \<Rightarrow> token option \<times> lexer" where
  "consume k lx =
     (let (t, lx1) = lex_peek lx
      in if token_kind_of t = k then let (t', lx2) = lex_next lx1 in (Some t', lx2) else (None, lx1))"

definition expect :: "token_kind \<Rightarrow> lexer \<Rightarrow> token \<times> lexer" where
  "expect k lx =
     (let (t, lx') = lex_next lx
      in if token_kind_of t \<noteq> k
         then (Token TkEof, lx'\<lparr>lx_messages := lx_messages lx' @
           [''ush: expected '' @ kind_string k @ '' but got '' @ token_to_string t]\<rparr>)
         else (t, lx'))"

text \<open>Every token that is consumed leaves less input.\<close>

definition lex_left :: "lexer \<Rightarrow> nat" where
  "lex_left lx = 2 * (length (lx_source lx) - lx_position lx) + (if lx_peek_ready lx \<and> token_kind_of (lx_peek_token lx) \<noteq> TkEof then 1 else 0)"

lemma skip_while_bounds: "pos \<le> skip_while P src pos \<and> (pos \<le> length src \<longrightarrow> skip_while P src pos \<le> length src)"
proof (induction P src pos rule: skip_while.induct)
  case (1 P src pos)
  then show ?case
    by (cases "pos < length src \<and> P (src ! pos)") (auto simp: skip_while.simps [of P src pos])
qed

lemma next_token_progress:
  assumes "next_token lx = (t, lx')" and "token_kind_of t \<noteq> TkEof"
  shows "lx_position lx < lx_position lx' \<and> lx_source lx' = lx_source lx \<and> lx_peek_ready lx' = lx_peek_ready lx \<and>
    lx_peek_token lx' = lx_peek_token lx \<and> lx_position lx < length (lx_source lx)"
proof -
  let ?src = "lx_source lx"
  let ?pos = "skip_while is_space ?src (lx_position lx)"
  have "lx_position lx \<le> ?pos" "?pos + 1 \<le> skip_while is_identifier_character ?src (?pos + 1)"
    using skip_while_bounds by blast+
  moreover have "?pos < length ?src"
    using assms by (auto simp: next_token_def Let_def split: if_splits)
  ultimately show ?thesis
    using assms by (auto simp: next_token_def Let_def split: if_splits)
qed

lemma consume_progress:
  assumes "consume k lx = (Some t, lx')" and "k \<noteq> TkEof"
  shows "lex_left lx' < lex_left lx \<and> token_kind_of t = k"
proof (cases "lx_peek_ready lx")
  case True
  then show ?thesis
    using assms by (auto simp: consume_def lex_peek_def lex_next_def lex_left_def Let_def split: if_splits)
next
  case False
  obtain u lx1 where next_token: "next_token lx = (u, lx1)"
    by fastforce
  then have "token_kind_of u = k" "t = u" "lx' = lx1\<lparr>lx_peek_token := u, lx_peek_ready := False\<rparr>"
    using assms False by (auto simp: consume_def lex_peek_def lex_next_def Let_def split: if_splits)
  then show ?thesis
    using next_token_progress [OF next_token] assms(2) False by (auto simp: lex_left_def)
qed

text \<open>The loop of \<open>parse_list\<close>: the identifiers that follow.\<close>

function parse_identifiers :: "lexer \<Rightarrow> (node list \<times> lexer) option" where
  "parse_identifiers lx =
     (case consume TkIdentifier lx of
        (None, lx') \<Rightarrow> Some ([], lx')
      | (Some t, lx') \<Rightarrow> do {
          s \<leftarrow> token_text t;
          (nodes, lx'') \<leftarrow> parse_identifiers lx';
          Some (StringLiteral s # nodes, lx'')
        })"
  by pat_completeness auto
termination
proof (relation "measure lex_left", simp, goal_cases)
  case (1 lx r lx' t s)
  then show ?case
    using consume_progress [of TkIdentifier lx t lx'] by simp
qed

declare parse_identifiers.simps [simp del]

definition parse_list :: "lexer \<Rightarrow> (node \<times> lexer) option" where
  "parse_list lx = do {
     let (t, lx1) = expect TkIdentifier lx;
     s \<leftarrow> token_text t;
     (nodes, lx2) \<leftarrow> parse_identifiers lx1;
     Some (List (StringLiteral s # nodes), lx2)
   }"

definition parse_command :: "lexer \<Rightarrow> (node \<times> lexer) option" where
  "parse_command lx = do { (n, lx') \<leftarrow> parse_list lx; Some (Command n, lx') }"

lemma next_token_keeps:
  assumes "next_token lx = (t, lx')"
  shows "lx_position lx \<le> lx_position lx' \<and> lx_source lx' = lx_source lx \<and> lx_peek_ready lx' = lx_peek_ready lx \<and>
    lx_peek_token lx' = lx_peek_token lx"
proof -
  let ?src = "lx_source lx"
  let ?pos = "skip_while is_space ?src (lx_position lx)"
  have "lx_position lx \<le> ?pos" "?pos + 1 \<le> skip_while is_identifier_character ?src (?pos + 1)"
    using skip_while_bounds by blast+
  then show ?thesis
    using assms by (auto simp: next_token_def Let_def split: if_splits)
qed

lemma lex_next_left: "lex_next lx = (t, lx') \<Longrightarrow> lex_left lx' \<le> lex_left lx"
  using next_token_keeps [of lx t lx'] by (auto simp: lex_next_def lex_left_def split: if_splits)

lemma lex_peek_left:
  assumes "lex_peek lx = (t, lx')"
  shows "lex_left lx' \<le> lex_left lx"
proof (cases "lx_peek_ready lx")
  case True
  then show ?thesis
    using assms by (simp add: lex_peek_def)
next
  case False
  obtain u lx1 where n: "next_token lx = (u, lx1)"
    by fastforce
  then show ?thesis
    using False assms next_token_keeps [OF n] next_token_progress [OF n]
    by (cases "token_kind_of u = TkEof") (auto simp: lex_peek_def lex_left_def)
qed

lemma consume_left:
  assumes "consume k lx = (r, lx')"
  shows "lex_left lx' \<le> lex_left lx"
proof -
  obtain t lx1 u lx2 where l: "lex_peek lx = (t, lx1)" "lex_next lx1 = (u, lx2)"
    by fastforce
  then show ?thesis
    using assms lex_peek_left [OF l(1)] lex_next_left [OF l(2)] by (auto simp: consume_def split: if_splits)
qed

lemma expect_left:
  assumes "expect k lx = (t, lx')"
  shows "lex_left lx' \<le> lex_left lx"
proof -
  obtain u lx1 where l: "lex_next lx = (u, lx1)"
    by fastforce
  then show ?thesis
    using assms lex_next_left [OF l] by (auto simp: expect_def lex_left_def split: if_splits)
qed

lemma parse_identifiers_left: "parse_identifiers lx = Some (nodes, lx') \<Longrightarrow> lex_left lx' \<le> lex_left lx"
proof (induction lx arbitrary: nodes rule: parse_identifiers.induct)
  case (1 lx)
  obtain r lx1 where c: "consume TkIdentifier lx = (r, lx1)"
    by fastforce
  show ?case
  proof (cases r)
    case None
    then show ?thesis
      using "1.prems" c consume_left [OF c] by (simp add: parse_identifiers.simps [of lx])
  next
    case (Some t)
    then obtain s nodes' where l: "token_text t = Some s" "parse_identifiers lx1 = Some (nodes', lx')"
      using "1.prems" c by (auto simp: parse_identifiers.simps [of lx] split: Option.bind_splits)
    show ?thesis
      using "1.IH" [OF c [symmetric] Some l] consume_left [OF c] by simp
  qed
qed

lemma parse_command_left:
  assumes "parse_command lx = Some (n, lx')"
  shows "lex_left lx' \<le> lex_left lx"
proof -
  obtain t lx1 where e: "expect TkIdentifier lx = (t, lx1)"
    by fastforce
  then obtain nodes where "parse_identifiers lx1 = Some (nodes, lx')"
    using assms by (auto simp: parse_command_def parse_list_def split: Option.bind_splits)
  then show ?thesis
    using expect_left [OF e] parse_identifiers_left by (metis order_trans)
qed

function parse_pipe :: "lexer \<Rightarrow> (node \<times> lexer) option" where
  "parse_pipe lx = do {
     (lhs, lx1) \<leftarrow> parse_command lx;
     let (pipe, lx2) = consume TkPipe lx1;
     case pipe of
       None \<Rightarrow> Some (lhs, lx2)
     | Some _ \<Rightarrow> do { (rhs, lx3) \<leftarrow> parse_pipe lx2; Some (Pipe lhs rhs, lx3) }
   }"
  by pat_completeness auto
termination
proof (relation "measure lex_left", simp, goal_cases)
  case (1 lx p lhs lx1 q pipe lx2 t)
  then show ?case
    using parse_command_left [of lx lhs lx1] consume_progress [of TkPipe lx1 t lx2] by fastforce
qed

declare parse_pipe.simps [simp del]

definition parse :: "lexer \<Rightarrow> (node \<times> lexer) option" where
  "parse lx = do {
     (node, lx1) \<leftarrow> parse_pipe lx;
     let (t, lx2) = lex_next lx1;
     Some (node, if token_kind_of t \<noteq> TkEof
       then lx2\<lparr>lx_messages := lx_messages lx2 @ [''ush: unexpected '' @ token_to_string t]\<rparr> else lx2)
   }"

text \<open>The printed form of a tree, one line per node.\<close>

definition node_indent :: "nat \<Rightarrow> string" where
  "node_indent indent = replicate (indent * 2) CHR '' ''"

fun dump_node :: "nat \<Rightarrow> node \<Rightarrow> string list" where
  "dump_node indent (Command n) = (node_indent indent @ ''Command'') # dump_node (indent + 1) n"
| "dump_node indent (List ns) = (node_indent indent @ ''List'') # concat (map (dump_node (indent + 1)) ns)"
| "dump_node indent (Pipe l r) = (node_indent indent @ ''Pipe'') # dump_node (indent + 1) l @ dump_node (indent + 1) r"
| "dump_node indent (StringLiteral s) = [node_indent indent @ ''StringLiteral('' @ s @ '')'']"

section \<open>Evaluation\<close>

datatype builtin_function = Cd

text \<open>A job has the process id of what was spawned, or zero.\<close>

datatype shell_value =
    Builtin builtin_function "string list"
  | Job string "string list" nat
  | ListValue "shell_value list"
  | PipeValue shell_value shell_value
  | StringValue string

fun build_string_vector :: "shell_value \<Rightarrow> string list option"
and build_string_vectors :: "shell_value list \<Rightarrow> string list option" where
  "build_string_vector (ListValue vs) = build_string_vectors vs"
| "build_string_vector (StringValue s) = Some [s]"
| "build_string_vector (Builtin f args) = None"
| "build_string_vector (Job c args pid) = None"
| "build_string_vector (PipeValue l r) = None"
| "build_string_vectors [] = Some []"
| "build_string_vectors (v # vs) = do {
     xs \<leftarrow> build_string_vector v;
     ys \<leftarrow> build_string_vectors vs;
     Some (xs @ ys)
   }"

definition find_command :: "string \<Rightarrow> string" where
  "find_command nm = ''/bin/'' @ nm"

fun evaluate :: "node \<Rightarrow> shell_value option"
and evaluate_all :: "node list \<Rightarrow> shell_value list option" where
  "evaluate (Command n) = do {
     v \<leftarrow> evaluate n;
     args \<leftarrow> build_string_vector v;
     ensure (0 < length args);
     Some (if args ! 0 = ''cd'' then Builtin Cd args else Job (find_command (args ! 0)) args 0)
   }"
| "evaluate (List ns) = map_option ListValue (evaluate_all ns)"
| "evaluate (Pipe l r) = do { a \<leftarrow> evaluate l; b \<leftarrow> evaluate r; Some (PipeValue a b) }"
| "evaluate (StringLiteral s) = Some (StringValue s)"
| "evaluate_all [] = Some []"
| "evaluate_all (n # ns) = do { v \<leftarrow> evaluate n; vs \<leftarrow> evaluate_all ns; Some (v # vs) }"

section \<open>Execution\<close>

text \<open>
  The system calls the shell makes, over a kernel state: changing the directory, making a pipe (its read and
  its write end), starting a process with its arguments and the descriptors to copy, waiting for a
  process, closing a descriptor, and printing a line.
\<close>

record 'k shell_os =
  os_chdir :: "string \<Rightarrow> 'k \<Rightarrow> (kerror + unit) \<times> 'k"
  os_create_pipe :: "'k \<Rightarrow> (kerror + nat \<times> nat) \<times> 'k"
  os_create_process :: "string \<Rightarrow> string list \<Rightarrow> (nat \<times> nat) list \<Rightarrow> 'k \<Rightarrow> (kerror + nat) \<times> 'k"
  os_wait_pid :: "nat \<Rightarrow> 'k \<Rightarrow> (kerror + unit) \<times> 'k"
  os_close :: "nat \<Rightarrow> 'k \<Rightarrow> 'k"
  os_println :: "string \<Rightarrow> 'k \<Rightarrow> 'k"
  os_error_string :: "kerror \<Rightarrow> string"

text \<open>The list of descriptors to copy is ended by a pair of zeros.\<close>

definition create_process :: "'k shell_os \<Rightarrow> string \<Rightarrow> string list \<Rightarrow> (nat \<times> nat) list \<Rightarrow> 'k \<Rightarrow> (kerror + nat) \<times> 'k" where
  "create_process os path argv copy_fds k = os_create_process os path argv (copy_fds @ [(0, 0)]) k"

definition job_spawn :: "'k shell_os \<Rightarrow> string \<Rightarrow> string list \<Rightarrow> nat \<Rightarrow> (nat \<times> nat) list \<Rightarrow> 'k \<Rightarrow> nat \<times> 'k" where
  "job_spawn os command args pid copy_fds k =
     (if pid \<noteq> 0 then (pid, k)
      else case create_process os command args copy_fds k of
             (Inl e, k') \<Rightarrow> (pid, os_println os (''ush: '' @ command @ '': command not found'') k')
           | (Inr p, k') \<Rightarrow> (p, k'))"

definition await_completion :: "'k shell_os \<Rightarrow> nat \<Rightarrow> 'k \<Rightarrow> 'k option" where
  "await_completion os pid k =
     (if pid = 0 then Some k else case os_wait_pid os pid k of (Inl e, k') \<Rightarrow> None | (Inr _, k') \<Rightarrow> Some k')"

definition execute_cd :: "'k shell_os \<Rightarrow> string list \<Rightarrow> 'k \<Rightarrow> 'k" where
  "execute_cd os args k =
     (if length args \<noteq> 1 \<and> length args \<noteq> 2 then os_println os ''ush: cd: too many arguments'' k
      else let dir = (if length args = 2 then args ! 1 else ''/home'')
           in case os_chdir os dir k of
                (Inl e, k') \<Rightarrow> os_println os (''ush: cd: '' @ dir @ '': '' @ os_error_string os e) k'
              | (Inr _, k') \<Rightarrow> k')"

text \<open>
  The pipe is an object of the block: its read end is closed when the block is left, its write end before
  the right hand side runs. The list of rewirings is passed by reference and not restored on the right.
\<close>

fun execute :: "'k shell_os \<Rightarrow> shell_value \<Rightarrow> (nat \<times> nat) list \<times> 'k \<Rightarrow> ((nat \<times> nat) list \<times> 'k) option" where
  "execute os (Builtin Cd args) (rw, k) = Some (rw, execute_cd os args k)"
| "execute os (Job command args pid) (rw, k) =
     (let (pid', k1) = job_spawn os command args pid rw k
      in do { k2 \<leftarrow> await_completion os pid' k1; Some (rw, k2) })"
| "execute os (PipeValue l r) (rw, k) =
     (case os_create_pipe os k of
        (Inl e, k1) \<Rightarrow> None
      | (Inr (rfd, wfd), k1) \<Rightarrow> do {
          (rw2, k2) \<leftarrow> execute os l (rw @ [(wfd, 1)], k1);
          let k3 = os_close os wfd k2;
          ensure (rw2 \<noteq> []);
          (rw4, k4) \<leftarrow> execute os r (butlast rw2 @ [(rfd, 0)], k3);
          Some (rw4, os_close os rfd k4)
        })"
| "execute os (ListValue vs) (rw, k) = Some (rw, k)"
| "execute os (StringValue s) (rw, k) = Some (rw, k)"

text \<open>One line that was entered.\<close>

definition run_line :: "'k shell_os \<Rightarrow> string \<Rightarrow> 'k \<Rightarrow> 'k option" where
  "run_line os line k = do {
     (node, lx) \<leftarrow> parse (lexer_new line);
     v \<leftarrow> evaluate node;
     (rw, k') \<leftarrow> execute os v ([], foldl (\<lambda>k m. os_println os m k) k (lx_messages lx));
     Some k'
   }"

section \<open>The tokens of a line\<close>

lemma dropWhile_shorter: "length (dropWhile P xs) \<le> length xs"
  by (rule length_dropWhile_le)

function toks :: "string \<Rightarrow> token list" where
  "toks s =
     (case dropWhile is_space s of
        [] \<Rightarrow> []
      | c # cs \<Rightarrow>
          if c = CHR ''|'' then Token TkPipe # toks cs
          else if is_identifier_character c
          then TextToken (c # takeWhile is_identifier_character cs) # toks (dropWhile is_identifier_character cs)
          else Token TkEof # toks cs)"
  by pat_completeness auto
termination
proof (relation "measure length", simp_all, goal_cases)
  case (1 s c cs)
  then show ?case
    using dropWhile_shorter [of is_space s] by simp
next
  case (2 s c cs)
  then show ?case
    using dropWhile_shorter [of is_space s] dropWhile_shorter [of is_identifier_character cs] by simp
next
  case (3 s c cs)
  then show ?case
    using dropWhile_shorter [of is_space s] by simp
qed

declare toks.simps [simp del]

text \<open>The tokens a lexer still delivers in front of the first end of file.\<close>

definition stream :: "lexer \<Rightarrow> token list" where
  "stream lx = takeWhile (\<lambda>t. t \<noteq> Token TkEof)
     ((if lx_peek_ready lx then [lx_peek_token lx] else []) @ toks (drop (lx_position lx) (lx_source lx)))"

lemma skip_while_length: "skip_while P src pos = pos + length (takeWhile P (drop pos src))"
proof (induction P src pos rule: skip_while.induct)
  case (1 P src pos)
  show ?case
  proof (cases "pos < length src")
    case True
    then have "drop pos src = src ! pos # drop (Suc pos) src"
      by (rule Cons_nth_drop_Suc [symmetric])
    then show ?thesis
      using 1 True by (simp add: skip_while.simps [of P src pos])
  next
    case False
    then show ?thesis
      by (simp add: skip_while.simps [of P src pos])
  qed
qed

lemma skip_while_drop: "drop (skip_while P src pos) src = dropWhile P (drop pos src)"
  by (simp add: skip_while_length dropWhile_eq_drop add.commute)

lemma next_token_toks:
  assumes "next_token lx = (t, lx')"
  shows "(case toks (drop (lx_position lx) (lx_source lx)) of
      [] \<Rightarrow> t = Token TkEof
    | u # us \<Rightarrow> t = u \<and> toks (drop (lx_position lx') (lx_source lx')) = us) \<and>
    lx_source lx' = lx_source lx \<and> lx_peek_ready lx' = lx_peek_ready lx"
proof -
  let ?src = "lx_source lx"
  let ?pos = "skip_while is_space ?src (lx_position lx)"
  have rest: "dropWhile is_space (drop (lx_position lx) ?src) = drop ?pos ?src"
    by (simp only: skip_while_drop)
  show ?thesis
  proof (cases "?pos < length ?src")
    case False
    then have "toks (drop (lx_position lx) ?src) = []"
      by (subst toks.simps) (simp add: rest)
    then show ?thesis
      using assms False by (auto simp: next_token_def Let_def)
  next
    case True
    then have cons: "drop ?pos ?src = ?src ! ?pos # drop (?pos + 1) ?src"
      by (simp add: Cons_nth_drop_Suc)
    have stop: "take (skip_while is_identifier_character ?src (?pos + 1) - (?pos + 1)) (drop (?pos + 1) ?src) =
        takeWhile is_identifier_character (drop (?pos + 1) ?src)"
      "drop (skip_while is_identifier_character ?src (?pos + 1)) ?src = dropWhile is_identifier_character (drop (?pos + 1) ?src)"
      by (simp only: skip_while_length [of is_identifier_character] diff_add_inverse flip: takeWhile_eq_take)
        (rule skip_while_drop)
    have "toks (drop (lx_position lx) ?src) =
        (if ?src ! ?pos = CHR ''|'' then Token TkPipe # toks (drop (?pos + 1) ?src)
         else if is_identifier_character (?src ! ?pos)
         then TextToken (?src ! ?pos # takeWhile is_identifier_character (drop (?pos + 1) ?src)) #
           toks (dropWhile is_identifier_character (drop (?pos + 1) ?src))
         else Token TkEof # toks (drop (?pos + 1) ?src))"
      by (subst toks.simps) (simp add: rest cons)
    then show ?thesis
      using assms True stop by (auto simp: next_token_def Let_def split: if_splits)
  qed
qed

lemma lex_next_stream:
  assumes "lex_next lx = (t, lx')"
  shows "case stream lx of [] \<Rightarrow> t = Token TkEof | u # us \<Rightarrow> t = u \<and> stream lx' = us"
proof (cases "lx_peek_ready lx")
  case True
  then show ?thesis
    using assms by (auto simp: lex_next_def stream_def)
next
  case False
  then have "next_token lx = (t, lx')"
    using assms by (simp add: lex_next_def)
  then show ?thesis
    using next_token_toks [of lx t lx'] False by (auto simp: stream_def split: list.splits)
qed

lemma lex_peek_stream:
  assumes "lex_peek lx = (t, lx')"
  shows "t = (case stream lx of [] \<Rightarrow> Token TkEof | u # us \<Rightarrow> u) \<and> stream lx' = stream lx"
proof (cases "lx_peek_ready lx")
  case True
  then show ?thesis
    using assms by (auto simp: lex_peek_def stream_def)
next
  case False
  obtain u lx1 where n: "next_token lx = (u, lx1)"
    by fastforce
  then show ?thesis
    using next_token_toks [OF n] False assms by (auto simp: lex_peek_def stream_def split: list.splits)
qed

lemma toks_tokens: "Token TkIdentifier \<notin> set (toks s)"
proof (induction s rule: toks.induct)
  case (1 s)
  show ?case
  proof (cases "dropWhile is_space s")
    case Nil
    show ?thesis
      by (subst toks.simps) (simp add: Nil)
  next
    case (Cons c cs)
    show ?thesis
      using 1 [OF Cons] by (subst toks.simps) (auto simp: Cons)
  qed
qed

section \<open>Lines that parse\<close>

text \<open>The words of every command of a line.\<close>

fun commands :: "token list \<Rightarrow> string list list" where
  "commands [] = [[]]"
| "commands (TextToken w # ts) = (w # hd (commands ts)) # tl (commands ts)"
| "commands (Token k # ts) = [] # commands ts"

definition command_node :: "string list \<Rightarrow> node" where
  "command_node ws = Command (List (map StringLiteral ws))"

fun pipeline_node :: "string list list \<Rightarrow> node" where
  "pipeline_node [] = command_node []"
| "pipeline_node [ws] = command_node ws"
| "pipeline_node (ws # wss) = Pipe (command_node ws) (pipeline_node wss)"

abbreviation is_word :: "token \<Rightarrow> bool" where
  "is_word t \<equiv> token_kind_of t = TkIdentifier"

definition plain :: "token list \<Rightarrow> bool" where
  "plain ts \<longleftrightarrow> Token TkIdentifier \<notin> set ts \<and> Token TkEof \<notin> set ts"

lemma stream_plain: "lx_peek_token lx \<noteq> Token TkIdentifier \<Longrightarrow> plain (stream lx)"
  using toks_tokens [of "drop (lx_position lx) (lx_source lx)"]
  by (auto simp: plain_def stream_def dest: set_takeWhileD)

lemma plain_cases:
  assumes "plain (t # ts)"
  obtains (word) w where "t = TextToken w" "plain ts" | (bar) "t = Token TkPipe" "plain ts"
proof (cases t)
  case (Token k)
  then show thesis
    using assms that by (cases k) (auto simp: plain_def)
next
  case (TextToken w)
  then show thesis
    using assms that by (auto simp: plain_def)
qed

lemma commands_nonempty [simp]: "commands ts \<noteq> []"
  by (cases ts rule: commands.cases) auto

lemma consume_stream:
  assumes "consume k lx = (r, lx')" and "k \<noteq> TkEof" and "plain (stream lx)"
  shows "case stream lx of
      [] \<Rightarrow> r = None \<and> stream lx' = []
    | t # ts \<Rightarrow> if token_kind_of t = k then r = Some t \<and> stream lx' = ts else r = None \<and> stream lx' = t # ts"
proof -
  obtain t lx1 u lx2 where l: "lex_peek lx = (t, lx1)" "lex_next lx1 = (u, lx2)"
    by fastforce
  then show ?thesis
    using assms lex_peek_stream [OF l(1)] lex_next_stream [OF l(2)]
    by (auto simp: consume_def split: list.splits if_splits)
qed

lemma parse_identifiers_stream:
  assumes "plain (stream lx)"
  shows "\<exists>lx'. parse_identifiers lx = Some (map StringLiteral (hd (commands (stream lx))), lx') \<and>
    (case tl (commands (stream lx)) of
       [] \<Rightarrow> stream lx' = []
     | c # cs \<Rightarrow> \<exists>ts. stream lx' = Token TkPipe # ts \<and> plain ts \<and> commands ts = c # cs)"
  using assms
proof (induction lx rule: parse_identifiers.induct)
  case (1 lx)
  obtain r lx1 where c: "consume TkIdentifier lx = (r, lx1)"
    by fastforce
  note step = consume_stream [OF c _ "1.prems"]
  show ?case
  proof (cases "stream lx")
    case Nil
    then show ?thesis
      using step c by (simp add: parse_identifiers.simps [of lx])
  next
    case (Cons t ts)
    then have "plain (t # ts)"
      using "1.prems" by simp
    then show ?thesis
    proof (cases rule: plain_cases)
      case (word w)
      then have w: "r = Some (TextToken w)" "stream lx1 = ts"
        using step Cons by simp_all
      then show ?thesis
        using "1.IH" [OF c [symmetric] w(1)] word Cons c
        by (auto simp: parse_identifiers.simps [of lx] token_text_def)
    next
      case bar
      then show ?thesis
        using step c Cons
        by (cases "commands ts") (auto simp: parse_identifiers.simps [of lx])
    qed
  qed
qed

lemma expect_stream:
  assumes "expect TkIdentifier lx = (t, lx')" and "plain (stream lx)"
  shows "case hd (commands (stream lx)) of
      [] \<Rightarrow> token_text t = None
    | w # ws \<Rightarrow> \<exists>ts. token_text t = Some w \<and> stream lx = TextToken w # ts \<and> stream lx' = ts"
proof -
  obtain u lx1 where l: "lex_next lx = (u, lx1)"
    by fastforce
  show ?thesis
  proof (cases "stream lx")
    case Nil
    then show ?thesis
      using assms l lex_next_stream [OF l] by (auto simp: expect_def token_text_def)
  next
    case (Cons x xs)
    then have "plain (x # xs)"
      using assms(2) by simp
    then show ?thesis
      using assms l lex_next_stream [OF l] Cons
      by (cases rule: plain_cases) (auto simp: expect_def token_text_def)
  qed
qed

lemma parse_command_stream:
  assumes "plain (stream lx)"
  shows "if hd (commands (stream lx)) = [] then parse_command lx = None
    else \<exists>lx'. parse_command lx = Some (command_node (hd (commands (stream lx))), lx') \<and>
      (case tl (commands (stream lx)) of
         [] \<Rightarrow> stream lx' = []
       | c # cs \<Rightarrow> \<exists>ts. stream lx' = Token TkPipe # ts \<and> plain ts \<and> commands ts = c # cs)"
proof -
  obtain t lx1 where e: "expect TkIdentifier lx = (t, lx1)"
    by fastforce
  note first = expect_stream [OF e assms]
  show ?thesis
  proof (cases "hd (commands (stream lx))")
    case Nil
    then show ?thesis
      using first e by (simp add: parse_command_def parse_list_def)
  next
    case (Cons w ws)
    then obtain ts where w: "token_text t = Some w" "stream lx = TextToken w # ts" "stream lx1 = ts"
      using first by auto
    then have "plain (stream lx1)"
      using assms by (simp add: plain_def)
    then show ?thesis
      using parse_identifiers_stream [of lx1] e w Cons
      by (auto simp: parse_command_def parse_list_def command_node_def)
  qed
qed

lemma parse_pipe_stream:
  assumes "plain (stream lx)"
  shows "if [] \<in> set (commands (stream lx)) then parse_pipe lx = None
    else \<exists>lx'. parse_pipe lx = Some (pipeline_node (commands (stream lx)), lx') \<and> stream lx' = []"
  using assms
proof (induction lx rule: parse_pipe.induct)
  case (1 lx)
  obtain c cs where cs: "commands (stream lx) = c # cs"
    by (cases "commands (stream lx)") auto
  show ?case
  proof (cases "c = []")
    case True
    then show ?thesis
      using parse_command_stream [OF "1.prems"] cs by (simp add: parse_pipe.simps [of lx])
  next
    case False
    then obtain lx1 where lx1: "parse_command lx = Some (command_node c, lx1)"
        "case cs of [] \<Rightarrow> stream lx1 = []
          | d # ds \<Rightarrow> \<exists>ts. stream lx1 = Token TkPipe # ts \<and> plain ts \<and> commands ts = d # ds"
      using parse_command_stream [OF "1.prems"] cs by auto
    obtain r lx2 where consume: "consume TkPipe lx1 = (r, lx2)"
      by fastforce
    have "plain (stream lx1)"
      using lx1(2) by (auto simp: plain_def split: list.splits)
    note step = consume_stream [OF consume _ this]
    show ?thesis
    proof (cases cs)
      case Nil
      then show ?thesis
        using lx1 consume step cs False by (simp add: parse_pipe.simps [of lx])
    next
      case (Cons d ds)
      then obtain ts where ts: "stream lx1 = Token TkPipe # ts" "plain ts" "commands ts = cs"
        using lx1(2) by auto
      then have r: "r = Some (Token TkPipe)" "stream lx2 = ts"
        using step by simp_all
      have "if [] \<in> set cs then parse_pipe lx2 = None
          else \<exists>lx'. parse_pipe lx2 = Some (pipeline_node cs, lx') \<and> stream lx' = []"
        using "1.IH" [OF lx1(1) refl refl consume [symmetric] r(1)] r ts by (simp cong: if_cong)
      then show ?thesis
        using lx1(1) consume r(1) cs False Cons by (auto simp: parse_pipe.simps [of lx] split: if_splits)
    qed
  qed
qed

text \<open>The commands of a line.\<close>

definition line_commands :: "string \<Rightarrow> string list list" where
  "line_commands line = commands (takeWhile (\<lambda>t. t \<noteq> Token TkEof) (toks line))"

lemma parse_line:
  "if [] \<in> set (line_commands line) then parse (lexer_new line) = None
   else \<exists>lx'. parse (lexer_new line) = Some (pipeline_node (line_commands line), lx')"
proof -
  have "stream (lexer_new line) = takeWhile (\<lambda>t. t \<noteq> Token TkEof) (toks line)" "plain (stream (lexer_new line))"
    using stream_plain [of "lexer_new line"] by (simp_all add: stream_def lexer_new_def)
  then show ?thesis
    using parse_pipe_stream [of "lexer_new line"]
    by (auto simp: parse_def line_commands_def split: if_splits prod.splits)
qed

section \<open>Types of trees and values\<close>

text \<open>What a node stands for: a string, a list of strings or something to run.\<close>

datatype node_type = StringType | ListType | RunType

inductive node_typing :: "node \<Rightarrow> node_type \<Rightarrow> bool" where
  literal: "node_typing (StringLiteral s) StringType"
| list: "ns \<noteq> [] \<Longrightarrow> (\<And>n. n \<in> set ns \<Longrightarrow> node_typing n StringType) \<Longrightarrow> node_typing (List ns) ListType"
| command: "node_typing n ListType \<Longrightarrow> node_typing (Command n) RunType"
| pipe: "node_typing l RunType \<Longrightarrow> node_typing r RunType \<Longrightarrow> node_typing (Pipe l r) RunType"

inductive_cases string_typing: "node_typing n StringType"
inductive_cases list_typing: "node_typing n ListType"

inductive value_typing :: "shell_value \<Rightarrow> node_type \<Rightarrow> bool" where
  "value_typing (StringValue s) StringType"
| "vs \<noteq> [] \<Longrightarrow> (\<And>v. v \<in> set vs \<Longrightarrow> value_typing v StringType) \<Longrightarrow> value_typing (ListValue vs) ListType"
| "value_typing (Builtin f args) RunType"
| "args \<noteq> [] \<Longrightarrow> value_typing (Job c args 0) RunType"
| "value_typing l RunType \<Longrightarrow> value_typing r RunType \<Longrightarrow> value_typing (PipeValue l r) RunType"

inductive_cases string_value: "value_typing v StringType"
inductive_cases list_value: "value_typing v ListType"

lemma evaluate_all_typed:
  "(\<And>n. n \<in> set ns \<Longrightarrow> \<exists>v. evaluate n = Some v \<and> value_typing v StringType) \<Longrightarrow>
   \<exists>vs. evaluate_all ns = Some vs \<and> length vs = length ns \<and> (\<forall>v\<in>set vs. value_typing v StringType)"
proof (induction ns)
  case (Cons n ns)
  obtain v where "evaluate n = Some v" "value_typing v StringType"
    using Cons.prems [of n] by auto
  moreover obtain vs where "evaluate_all ns = Some vs" "length vs = length ns" "\<forall>v\<in>set vs. value_typing v StringType"
    using Cons.IH Cons.prems by auto
  ultimately show ?case
    by simp
qed simp

lemma build_string_vectors_typed:
  "\<forall>v\<in>set vs. value_typing v StringType \<Longrightarrow> \<exists>ss. build_string_vectors vs = Some ss \<and> length ss = length vs"
  by (induction vs) (auto elim: string_value)

text \<open>Evaluation keeps types and never fails on a typed node.\<close>

lemma evaluate_typed: "node_typing n ty \<Longrightarrow> \<exists>v. evaluate n = Some v \<and> value_typing v ty"
proof (induction rule: node_typing.induct)
  case (list ns)
  then obtain vs where vs: "evaluate_all ns = Some vs" "length vs = length ns" "\<forall>v\<in>set vs. value_typing v StringType"
    using evaluate_all_typed [of ns] by auto
  moreover have "vs \<noteq> []"
    using vs(2) list(1) by auto
  ultimately show ?case
    by (auto intro: value_typing.intros)
next
  case (command n)
  then obtain vs where vs: "evaluate n = Some (ListValue vs)" "vs \<noteq> []" "\<forall>v\<in>set vs. value_typing v StringType"
    by (auto elim: list_value)
  then obtain ss where "build_string_vectors vs = Some ss" "ss \<noteq> []"
    using build_string_vectors_typed [of vs] by fastforce
  then show ?case
    using vs(1) by (auto intro: value_typing.intros)
next
  case (pipe l r)
  then show ?case
    by (auto intro: value_typing.intros)
qed (auto intro: value_typing.intros)

lemma command_node_typed: "ws \<noteq> [] \<Longrightarrow> node_typing (command_node ws) RunType"
  unfolding command_node_def by (intro node_typing.command node_typing.list) (auto intro: node_typing.literal)

lemma pipeline_node_typed: "wss \<noteq> [] \<Longrightarrow> [] \<notin> set wss \<Longrightarrow> node_typing (pipeline_node wss) RunType"
  by (induction wss rule: pipeline_node.induct) (auto intro: node_typing.pipe command_node_typed)

text \<open>
  C26. Every tree the shell's parser returns is well typed, and a well-typed tree evaluates without failing
  an assertion, to a value of its type: a line that parses gives a builtin, a job or a pipe of these, which
  are the values \<open>execute\<close> runs, and never a list or a string.
\<close>

theorem shell_types_sound:
  assumes "parse (lexer_new line) = Some (n, lx)"
  shows "node_typing n RunType \<and> (\<exists>v. evaluate n = Some v \<and> value_typing v RunType)"
proof -
  have "n = pipeline_node (line_commands line)" "[] \<notin> set (line_commands line)"
    using parse_line [of line] assms by (auto split: if_splits)
  then have "node_typing n RunType"
    using pipeline_node_typed [of "line_commands line"] by (simp add: line_commands_def)
  then show ?thesis
    using evaluate_typed by blast
qed

theorem shell_types_sound_witness:
  "\<exists>n lx v. parse (lexer_new ''ls /dev | cat'') = Some (n, lx) \<and> node_typing n RunType \<and>
     evaluate n = Some v \<and> value_typing v RunType"
proof -
  have "parse (lexer_new ''ls /dev | cat'') \<noteq> None"
    by code_simp
  then obtain n lx where "parse (lexer_new ''ls /dev | cat'') = Some (n, lx)"
    by auto
  then show ?thesis
    using shell_types_sound by blast
qed

text \<open>
  C39. The shell does not survive a line with an empty command. Parsing such a line, an empty or blank one, one that
  starts or ends with a bar or has two bars in a row, fails the assertion that the expected word has a text;
  every other line parses, into the pipeline of its commands.
\<close>

theorem shell_empty_command_fails:
  "parse (lexer_new line) = None \<longleftrightarrow> [] \<in> set (line_commands line)"
  using parse_line [of line] by (auto split: if_splits)

section \<open>Writing and reading a pipeline\<close>

definition valid_word :: "string \<Rightarrow> bool" where
  "valid_word w \<longleftrightarrow> w \<noteq> [] \<and> list_all is_identifier_character w \<and> \<not> is_space (hd w)"

fun render_words :: "string list \<Rightarrow> string" where
  "render_words [] = []"
| "render_words [w] = w"
| "render_words (w # ws) = w @ '' '' @ render_words ws"

fun render_pipeline :: "string list list \<Rightarrow> string" where
  "render_pipeline [] = []"
| "render_pipeline [c] = render_words c"
| "render_pipeline (c # cs) = render_words c @ '' | '' @ render_pipeline cs"

fun pipeline_tokens :: "string list list \<Rightarrow> token list" where
  "pipeline_tokens [] = []"
| "pipeline_tokens [c] = map TextToken c"
| "pipeline_tokens (c # cs) = map TextToken c @ Token TkPipe # pipeline_tokens cs"

lemma separators: "\<not> is_identifier_character CHR '' ''" "\<not> is_identifier_character CHR ''|''" "is_space CHR '' ''" "\<not> is_space CHR ''|''"
  by code_simp+

lemma toks_space: "toks (CHR '' '' # s) = toks s"
  by (simp add: toks.simps [of "CHR '' '' # s"] toks.simps [of s] separators)

lemma toks_bar: "toks (CHR ''|'' # s) = Token TkPipe # toks s"
  by (simp add: toks.simps [of "CHR ''|'' # s"] separators)

lemma toks_word:
  assumes "valid_word w" and "rest = [] \<or> \<not> is_identifier_character (hd rest)"
  shows "toks (w @ rest) = TextToken w # toks rest"
proof -
  obtain c cs where w: "w = c # cs" "is_identifier_character c" "list_all is_identifier_character cs" "\<not> is_space c"
    using assms(1) by (cases w) (auto simp: valid_word_def)
  have "takeWhile is_identifier_character (cs @ rest) = cs" "dropWhile is_identifier_character (cs @ rest) = rest"
    using w(3) assms(2) by (induction cs) (cases rest; auto)+
  moreover have "c \<noteq> CHR ''|''"
    using w(2) separators by auto
  ultimately show ?thesis
    using w by (subst toks.simps) simp
qed

lemma toks_words:
  assumes "ws \<noteq> []" and "list_all valid_word ws" and "rest = [] \<or> hd rest = CHR '' ''"
  shows "toks (render_words ws @ rest) = map TextToken ws @ toks rest"
  using assms
proof (induction ws rule: render_words.induct)
  case (2 w)
  then show ?case
    using toks_word [of w rest] separators by auto
next
  case (3 w x ws)
  then show ?case
    using toks_word [of w "'' '' @ render_words (x # ws) @ rest"] separators by (simp add: toks_space)
qed simp

lemma toks_pipeline:
  assumes "[] \<notin> set cs" and "list_all (list_all valid_word) cs"
  shows "toks (render_pipeline cs) = pipeline_tokens cs"
  using assms
proof (induction cs rule: render_pipeline.induct)
  case 1
  then show ?case
    by (simp add: toks.simps)
next
  case (2 c)
  then show ?case
    using toks_words [of c "[]"] toks.simps [of "[]"] by simp
next
  case (3 c d cs)
  then show ?case
    using toks_words [of c "'' | '' @ render_pipeline (d # cs)"] by (auto simp: toks_space toks_bar)
qed

lemma commands_words: "commands (map TextToken ws @ ts) = (ws @ hd (commands ts)) # tl (commands ts)"
  by (induction ws) auto

lemma commands_pipeline: "cs \<noteq> [] \<Longrightarrow> commands (pipeline_tokens cs) = cs"
  by (induction cs rule: pipeline_tokens.induct) (auto simp: commands_words commands_words [of _ "[]", simplified])

lemma pipeline_tokens_not_eof: "takeWhile (\<lambda>t. t \<noteq> Token TkEof) (pipeline_tokens cs) = pipeline_tokens cs"
  by (induction cs rule: pipeline_tokens.induct) (auto simp: takeWhile_eq_all_conv)

text \<open>What a pipeline of words evaluates to.\<close>

definition command_value :: "string list \<Rightarrow> shell_value" where
  "command_value ws = (if hd ws = ''cd'' then Builtin Cd ws else Job (''/bin/'' @ hd ws) ws 0)"

fun pipeline_value :: "string list list \<Rightarrow> shell_value" where
  "pipeline_value [] = ListValue []"
| "pipeline_value [c] = command_value c"
| "pipeline_value (c # cs) = PipeValue (command_value c) (pipeline_value cs)"

lemma evaluate_words: "evaluate_all (map StringLiteral ws) = Some (map StringValue ws)"
  by (induction ws) auto

lemma build_words: "build_string_vectors (map StringValue ws) = Some ws"
  by (induction ws) auto

lemma evaluate_command: "ws \<noteq> [] \<Longrightarrow> evaluate (command_node ws) = Some (command_value ws)"
  by (auto simp: command_node_def command_value_def evaluate_words build_words find_command_def hd_conv_nth)

lemma evaluate_pipeline: "cs \<noteq> [] \<Longrightarrow> [] \<notin> set cs \<Longrightarrow> evaluate (pipeline_node cs) = Some (pipeline_value cs)"
  by (induction cs rule: pipeline_node.induct) (auto simp: evaluate_command)

text \<open>
  C25. Reading back a pipeline that was written out with its words separated by blanks and its commands by bars gives
  the pipeline: the line parses, and evaluates to the pipe of the jobs of its commands, each with the program
  of its first word under \<open>/bin\<close> and all its words as arguments, and with \<open>cd\<close> as a builtin.
\<close>

theorem shell_pipeline_roundtrip:
  assumes "cs \<noteq> []" and "[] \<notin> set cs" and "list_all (list_all valid_word) cs"
  shows "\<exists>n lx. parse (lexer_new (render_pipeline cs)) = Some (n, lx) \<and> evaluate n = Some (pipeline_value cs)"
proof -
  have "line_commands (render_pipeline cs) = cs"
    using assms by (simp add: line_commands_def toks_pipeline pipeline_tokens_not_eof commands_pipeline)
  then show ?thesis
    using parse_line [of "render_pipeline cs"] evaluate_pipeline assms(1,2) by auto
qed

theorem shell_pipeline_roundtrip_witness:
  "\<exists>n lx. parse (lexer_new (render_pipeline [[''ls'', ''/dev''], [''cat'']])) = Some (n, lx) \<and>
     evaluate n = Some (PipeValue (Job ''/bin/ls'' [''ls'', ''/dev''] 0) (Job ''/bin/cat'' [''cat''] 0))"
proof -
  have "list_all (list_all valid_word) [[''ls'', ''/dev''], [''cat'']]"
    by code_simp
  then show ?thesis
    using shell_pipeline_roundtrip [of "[[''ls'', ''/dev''], [''cat'']]"] by (simp add: command_value_def)
qed

end
