(* ===== verification/Line_Editor.thy ===== *)
theory Line_Editor
  imports Prelude
begin

text \<open>
  The line editor of the shell, \<^verbatim>\<open>src/shell/line_editor.cc\<close>: a buffer with a cursor, a history, and the
  characters sent to the terminal. Subscripts and removals are checked as the vector does. Sizes stay below
  the range of the 32-bit positions.
\<close>

section \<open>State\<close>

record key_event =
  ke_code :: nat
  ke_character :: char
  ke_alt_pressed :: bool
  ke_ctrl_pressed :: bool

record editor =
  ed_prompt :: string
  ed_buffer :: string
  ed_history :: "string list"
  ed_cursor :: nat
  ed_history_pos :: nat
  ed_out :: string

definition editor_new :: "string \<Rightarrow> editor" where
  "editor_new prompt = \<lparr>ed_prompt = prompt, ed_buffer = [], ed_history = [], ed_cursor = 0, ed_history_pos = 0, ed_out = []\<rparr>"

definition ed_print :: "string \<Rightarrow> editor \<Rightarrow> editor" where
  "ed_print s ed = ed\<lparr>ed_out := ed_out ed @ s\<rparr>"

text \<open>The sequences that move the cursor of the terminal.\<close>

abbreviation esc_right :: string where "esc_right \<equiv> CHR 0x1B # ''[C''"
abbreviation esc_left :: string where "esc_left \<equiv> CHR 0x1B # ''[D''"

definition buffer_get :: "nat \<Rightarrow> editor \<Rightarrow> char option" where
  "buffer_get i ed = do { ensure (i < length (ed_buffer ed)); Some (ed_buffer ed ! i) }"

definition buffer_set :: "nat \<Rightarrow> char \<Rightarrow> editor \<Rightarrow> editor option" where
  "buffer_set i c ed = do { ensure (i < length (ed_buffer ed)); Some (ed\<lparr>ed_buffer := (ed_buffer ed)[i := c]\<rparr>) }"

definition buffer_remove :: "nat \<Rightarrow> editor \<Rightarrow> editor option" where
  "buffer_remove i ed = do {
     ensure (i < length (ed_buffer ed));
     Some (ed\<lparr>ed_buffer := take i (ed_buffer ed) @ drop (Suc i) (ed_buffer ed)\<rparr>)
   }"

section \<open>Operations\<close>

text \<open>The prompt shows the working directory, with a tilde for the home directory.\<close>

definition begin_line :: "string \<Rightarrow> editor \<Rightarrow> editor" where
  "begin_line cwd ed =
     (let ed1 = ed_print (CHR 0x1B # ''[38;2;179;179;255m'') ed;
          home = length cwd \<ge> 5 \<and> take 5 cwd = ''/home'';
          ed2 = (if home then ed_print ''~'' ed1 else ed1);
          view = (if home then drop 5 cwd else cwd)
      in ed_print (CHR 0x1B # ''[38;2;255;255;255m'') (ed_print (view @ '' '' @ ed_prompt ed2) ed2))"

definition ed_clear :: "string \<Rightarrow> editor \<Rightarrow> editor" where
  "ed_clear cwd ed = begin_line cwd ((ed_print (CHR 0x1B # ''[J'') ed)\<lparr>ed_buffer := [], ed_cursor := 0\<rparr>)"

definition clear_line :: "editor \<Rightarrow> editor option" where
  "clear_line ed = do {
     ed' \<leftarrow> for_each (\<lambda>i e. do { e' \<leftarrow> buffer_remove (ed_cursor e - i - 1) e; Some (ed_print [CHR 0x08] e') })
       [0..<ed_cursor ed] ed;
     Some (ed'\<lparr>ed_cursor := 0\<rparr>)
   }"

definition goto_start :: "editor \<Rightarrow> editor" where
  "goto_start ed = (fold (\<lambda>_. ed_print esc_left) [0..<ed_cursor ed] ed)\<lparr>ed_cursor := 0\<rparr>"

definition goto_end :: "editor \<Rightarrow> editor" where
  "goto_end ed = (fold (\<lambda>_. ed_print esc_right) [ed_cursor ed..<length (ed_buffer ed)] ed)\<lparr>ed_cursor := length (ed_buffer ed)\<rparr>"

text \<open>The loops of the moves by words; \<open>i\<close> is their counter.\<close>

function word_right :: "nat \<Rightarrow> editor \<Rightarrow> editor option" where
  "word_right i ed =
     (if i < length (ed_buffer ed) then
        let ed' = ed_print esc_right (ed\<lparr>ed_cursor := ed_cursor ed + 1\<rparr>)
        in if ed_cursor ed' = length (ed_buffer ed') then Some ed'
           else do {
             c \<leftarrow> buffer_get (ed_cursor ed') ed';
             if c = CHR '' '' then Some ed' else word_right (i + 1) ed'
           }
      else Some ed)"
  by pat_completeness auto
termination
  by (relation "measure (\<lambda>(i, ed). length (ed_buffer ed) - i)") (auto simp: ed_print_def)

declare word_right.simps [simp del]

fun word_left :: "nat \<Rightarrow> editor \<Rightarrow> editor option" where
  "word_left 0 ed = Some ed"
| "word_left (Suc i) ed = do {
     let ed' = ed_print esc_left (ed\<lparr>ed_cursor := ed_cursor ed - 1\<rparr>);
     c \<leftarrow> buffer_get (ed_cursor ed') ed';
     if c = CHR '' '' then Some ed' else word_left i ed'
   }"

definition handle_backspace :: "editor \<Rightarrow> editor option" where
  "handle_backspace ed =
     (if ed_cursor ed = 0 then Some ed
      else do {
        ed' \<leftarrow> buffer_remove (ed_cursor ed - 1) (ed\<lparr>ed_cursor := ed_cursor ed - 1\<rparr>);
        Some (ed_print [CHR 0x08] ed')
      })"

definition handle_enter :: "editor \<Rightarrow> string \<times> editor" where
  "handle_enter ed =
     (let line = ed_buffer ed; ed1 = ed_print [CHR 0x0A] ed
      in if line = [] then ([CHR 0x0A], ed1)
         else let history = ed_history ed1 @ [line]
              in (last history, ed1\<lparr>ed_buffer := [], ed_cursor := 0, ed_history := history, ed_history_pos := length history\<rparr>))"

definition ctrl_character :: "string \<Rightarrow> char \<Rightarrow> editor \<Rightarrow> editor option" where
  "ctrl_character cwd ch ed =
     (if ch = CHR ''a'' then Some (goto_start ed)
      else if ch = CHR ''e'' then Some (goto_end ed)
      else if ch = CHR ''l'' then Some (ed_clear cwd ed)
      else if ch = CHR ''u'' then clear_line ed
      else Some ed)"

definition handle_ctrl :: "string \<Rightarrow> key_event \<Rightarrow> editor \<Rightarrow> editor option" where
  "handle_ctrl cwd ev ed = do {
     ed1 \<leftarrow> ctrl_character cwd (ke_character ev) ed;
     if ke_code ev = 0x4f then
       if ed_cursor ed1 = length (ed_buffer ed1) then Some ed1
       else let ed2 = ed_print esc_right (ed1\<lparr>ed_cursor := ed_cursor ed1 + 1\<rparr>) in word_right (ed_cursor ed2) ed2
     else if ke_code ev = 0x50 then
       if ed_cursor ed1 = 0 then Some ed1
       else do {
         let ed2 = ed_print esc_left (ed1\<lparr>ed_cursor := ed_cursor ed1 - 1\<rparr>);
         ed3 \<leftarrow> word_left (ed_cursor ed2) ed2;
         Some (if ed_cursor ed3 \<noteq> 0 then ed_print esc_right (ed3\<lparr>ed_cursor := ed_cursor ed3 + 1\<rparr>) else ed3)
       }
     else Some ed1
   }"

definition handle_history :: "nat \<Rightarrow> editor \<Rightarrow> editor option" where
  "handle_history code ed = do {
     let ed1 = (if code = 0x51
        then (if ed_history_pos ed < length (ed_history ed) then ed\<lparr>ed_history_pos := ed_history_pos ed + 1\<rparr> else ed)
        else (if ed_history_pos ed > 0 then ed\<lparr>ed_history_pos := ed_history_pos ed - 1\<rparr> else ed));
     ed2 \<leftarrow> clear_line ed1;
     Some (if ed_history_pos ed2 < length (ed_history ed2)
       then fold (\<lambda>ch e. ed_print [ch] (e\<lparr>ed_buffer := ed_buffer e @ [ch], ed_cursor := ed_cursor e + 1\<rparr>))
              (ed_history ed2 ! ed_history_pos ed2) ed2
       else ed2)
   }"

text \<open>The buffer grows by one character, and those behind the cursor move up.\<close>

definition insert_character :: "char \<Rightarrow> editor \<Rightarrow> editor option" where
  "insert_character ch ed = do {
     let ed1 = ed\<lparr>ed_buffer := ed_buffer ed @ [CHR 0x00]\<rparr>;
     ed2 \<leftarrow> for_each (\<lambda>i e. do { c \<leftarrow> buffer_get (ed_cursor e + i - 1) e; buffer_set (ed_cursor e + i) c e })
       (rev [1..<length (ed_buffer ed1) - ed_cursor ed1]) ed1;
     ed3 \<leftarrow> buffer_set (ed_cursor ed2) ch ed2;
     Some (ed_print [ch] (ed3\<lparr>ed_cursor := ed_cursor ed3 + 1\<rparr>))
   }"

definition handle_key_event :: "string \<Rightarrow> key_event \<Rightarrow> editor \<Rightarrow> (string \<times> editor) option" where
  "handle_key_event cwd ev ed =
     (if ke_character ev = CHR 0x08 then map_option (Pair []) (handle_backspace ed)
      else if ke_character ev = CHR 0x0A then Some (handle_enter ed)
      else if ke_ctrl_pressed ev then map_option (Pair []) (handle_ctrl cwd ev ed)
      else if ke_code ev = 0x51 \<or> ke_code ev = 0x52 then map_option (Pair []) (handle_history (ke_code ev) ed)
      else if ke_code ev = 0x4a then Some ([], goto_start ed)
      else if ke_code ev = 0x4d then Some ([], goto_end ed)
      else if ke_code ev = 0x4f then
        Some ([], if ed_cursor ed < length (ed_buffer ed) then ed_print esc_right (ed\<lparr>ed_cursor := ed_cursor ed + 1\<rparr>) else ed)
      else if ke_code ev = 0x50 then
        Some ([], if ed_cursor ed > 0 then ed_print esc_left (ed\<lparr>ed_cursor := ed_cursor ed - 1\<rparr>) else ed)
      else if ke_character ev = CHR 0x00 then Some ([], ed)
      else map_option (Pair []) (insert_character (ke_character ev) ed))"

section \<open>The text in front of and behind the cursor\<close>

definition ed_rep :: "string \<Rightarrow> string \<Rightarrow> editor \<Rightarrow> bool" where
  "ed_rep l r ed \<longleftrightarrow> ed_buffer ed = l @ r \<and> ed_cursor ed = length l"

text \<open>What an operation leaves alone.\<close>

definition same_history :: "editor \<Rightarrow> editor \<Rightarrow> bool" where
  "same_history ed ed' \<longleftrightarrow> ed_history ed' = ed_history ed \<and> ed_history_pos ed' = ed_history_pos ed"

lemma ed_print_simps [simp]:
  "ed_buffer (ed_print s ed) = ed_buffer ed" "ed_cursor (ed_print s ed) = ed_cursor ed"
  "ed_history (ed_print s ed) = ed_history ed" "ed_history_pos (ed_print s ed) = ed_history_pos ed"
  by (simp_all add: ed_print_def)

lemma same_history_refl [simp]: "same_history ed ed"
  by (simp add: same_history_def)

lemma fold_print [simp]:
  "ed_buffer (fold (\<lambda>_. ed_print s) xs ed) = ed_buffer ed" "ed_cursor (fold (\<lambda>_. ed_print s) xs ed) = ed_cursor ed"
  "ed_history (fold (\<lambda>_. ed_print s) xs ed) = ed_history ed" "ed_history_pos (fold (\<lambda>_. ed_print s) xs ed) = ed_history_pos ed"
  by (induction xs arbitrary: ed) simp_all

lemma goto_start_rep: "ed_rep l r ed \<Longrightarrow> ed_rep [] (l @ r) (goto_start ed) \<and> same_history ed (goto_start ed)"
  by (simp add: ed_rep_def same_history_def goto_start_def)

lemma goto_end_rep: "ed_rep l r ed \<Longrightarrow> ed_rep (l @ r) [] (goto_end ed) \<and> same_history ed (goto_end ed)"
  by (simp add: ed_rep_def same_history_def goto_end_def)

lemma begin_line_same: "ed_buffer (begin_line cwd ed) = ed_buffer ed \<and> ed_cursor (begin_line cwd ed) = ed_cursor ed \<and>
  same_history ed (begin_line cwd ed)"
  by (simp add: begin_line_def Let_def same_history_def)

lemma ed_clear_rep: "ed_rep [] [] (ed_clear cwd ed) \<and> same_history ed (ed_clear cwd ed)"
  using begin_line_same [of cwd "(ed_print (CHR 0x1B # ''[J'') ed)\<lparr>ed_buffer := [], ed_cursor := 0\<rparr>"]
  by (simp add: ed_clear_def ed_rep_def same_history_def)

lemma clear_line_rep:
  assumes "ed_rep l r ed"
  shows "\<exists>ed'. clear_line ed = Some ed' \<and> ed_rep [] r ed' \<and> same_history ed ed'"
proof -
  let ?body = "\<lambda>i e. do { e' \<leftarrow> buffer_remove (ed_cursor e - i - 1) e; Some (ed_print [CHR 0x08] e') }"
  have "\<exists>e. for_each ?body [0..<k] ed = Some e \<and> ed_buffer e = take (length l - k) l @ r \<and>
      ed_cursor e = length l \<and> same_history ed e" if "k \<le> length l" for k
    using that
  proof (induction k)
    case 0
    then show ?case
      using assms by (simp add: ed_rep_def)
  next
    case (Suc k)
    then obtain e where e: "for_each ?body [0..<k] ed = Some e" "ed_buffer e = take (length l - k) l @ r"
        "ed_cursor e = length l" "same_history ed e"
      by auto
    obtain m where m: "length l - k = Suc m" "length l - Suc k = m" "m < length l"
      using Suc.prems by (metis Suc_diff_Suc Suc_le_eq diff_less diff_less_Suc less_le_trans not_less_eq zero_less_Suc)
    then have "ed_buffer e = take (Suc m) l @ r" "ed_cursor e - k - 1 = m"
      using e by simp_all
    then have "buffer_remove (ed_cursor e - k - 1) e = Some (e\<lparr>ed_buffer := take m l @ r\<rparr>)"
      using m(3) by (simp add: buffer_remove_def)
    then show ?case
      using e m by (auto simp: for_each_append same_history_def)
  qed
  from this [of "length l"] show ?thesis
    using assms by (auto simp: clear_line_def ed_rep_def same_history_def)
qed

lemma word_right_rep:
  assumes "ed_cursor ed \<le> length (ed_buffer ed)"
  shows "\<exists>ed'. word_right (ed_cursor ed) ed = Some ed' \<and> ed_buffer ed' = ed_buffer ed \<and>
    ed_cursor ed \<le> ed_cursor ed' \<and> ed_cursor ed' \<le> length (ed_buffer ed) \<and> same_history ed ed'"
  using assms
proof (induction "length (ed_buffer ed) - ed_cursor ed" arbitrary: ed)
  case 0
  then show ?case
    by (simp add: word_right.simps)
next
  case (Suc n)
  let ?ed = "ed_print esc_right (ed\<lparr>ed_cursor := ed_cursor ed + 1\<rparr>)"
  have "\<exists>ed'. word_right (ed_cursor ?ed) ?ed = Some ed' \<and> ed_buffer ed' = ed_buffer ?ed \<and>
      ed_cursor ?ed \<le> ed_cursor ed' \<and> ed_cursor ed' \<le> length (ed_buffer ?ed) \<and> same_history ?ed ed'"
    using Suc.hyps(2) by (intro Suc.hyps(1)) simp_all
  then show ?case
    using Suc.hyps(2) by (subst word_right.simps) (auto simp: buffer_get_def same_history_def Let_def)
qed

lemma word_left_rep:
  assumes "ed_cursor ed \<le> length (ed_buffer ed)"
  shows "\<exists>ed'. word_left (ed_cursor ed) ed = Some ed' \<and> ed_buffer ed' = ed_buffer ed \<and>
    ed_cursor ed' \<le> ed_cursor ed \<and> same_history ed ed'"
  using assms
proof (induction "ed_cursor ed" arbitrary: ed)
  case (Suc n)
  let ?ed = "ed_print esc_left (ed\<lparr>ed_cursor := ed_cursor ed - 1\<rparr>)"
  have n: "ed_cursor ?ed = n" "n < length (ed_buffer ed)"
    using Suc.hyps(2) Suc.prems by simp_all
  then obtain ed' where "word_left n ?ed = Some ed'" "ed_buffer ed' = ed_buffer ?ed"
      "ed_cursor ed' \<le> n" "same_history ?ed ed'"
    using Suc.hyps(1) [of ?ed] Suc.prems by auto
  then show ?case
    using n Suc.hyps(2) [symmetric] by (auto simp: buffer_get_def same_history_def Let_def)
qed (simp add: same_history_def)

lemma buffer_get_at: "ed_buffer ed = pre @ c # post \<Longrightarrow> i = length pre \<Longrightarrow> buffer_get i ed = Some c"
  by (simp add: buffer_get_def)

lemma buffer_set_at:
  "ed_buffer ed = pre @ x # post \<Longrightarrow> i = length pre \<Longrightarrow> buffer_set i c ed = Some (ed\<lparr>ed_buffer := pre @ c # post\<rparr>)"
  by (simp add: buffer_set_def)

lemma shift_text:
  assumes "ed_buffer ed = l @ ys @ z # post" and "ed_cursor ed = length l"
  shows "for_each (\<lambda>i e. do { c \<leftarrow> buffer_get (ed_cursor e + i - 1) e; buffer_set (ed_cursor e + i) c e })
    (rev [1..<Suc (length ys)]) ed = Some (ed\<lparr>ed_buffer := l @ hd (ys @ [z]) # ys @ post\<rparr>)"
  using assms
proof (induction ys arbitrary: ed z post rule: rev_induct)
  case (snoc b ys)
  let ?ed = "ed\<lparr>ed_buffer := l @ ys @ b # b # post\<rparr>"
  have "buffer_get (length l + length ys) ed = Some b"
    using snoc.prems by (intro buffer_get_at [of _ "l @ ys"]) simp_all
  moreover have "buffer_set (length l + Suc (length ys)) b ed = Some ?ed"
    using snoc.prems by (subst buffer_set_at [of _ "l @ ys @ [b]" z post]) simp_all
  ultimately show ?case
    using snoc.IH [of ?ed b "b # post"] snoc.prems by (cases ys) simp_all
qed simp

lemma insert_character_rep:
  assumes "ed_rep l r ed"
  shows "\<exists>ed'. insert_character c ed = Some ed' \<and> ed_rep (l @ [c]) r ed' \<and> same_history ed ed'"
proof -
  let ?ed = "ed\<lparr>ed_buffer := ed_buffer ed @ [CHR 0x00]\<rparr>"
  have ed: "ed_buffer ed = l @ r" "ed_cursor ed = length l"
    using assms by (simp_all add: ed_rep_def)
  let ?ed2 = "?ed\<lparr>ed_buffer := l @ hd (r @ [CHR 0x00]) # r\<rparr>"
  have "for_each (\<lambda>i e. do { c \<leftarrow> buffer_get (ed_cursor e + i - 1) e; buffer_set (ed_cursor e + i) c e })
      (rev [1..<Suc (length r)]) ?ed = Some ?ed2"
    using shift_text [of ?ed l r "CHR 0x00" "[]"] ed by simp
  moreover have "length (ed_buffer ?ed) - ed_cursor ?ed = Suc (length r)"
    using ed by simp
  moreover have "buffer_set (ed_cursor ?ed2) c ?ed2 = Some (?ed2\<lparr>ed_buffer := l @ c # r\<rparr>)"
    using ed by (intro buffer_set_at) simp_all
  ultimately show ?thesis
    using ed by (simp add: insert_character_def ed_rep_def same_history_def del: upt_Suc)
qed

lemma handle_backspace_rep:
  assumes "ed_rep l r ed"
  shows "\<exists>ed'. handle_backspace ed = Some ed' \<and> ed_rep (butlast l) r ed' \<and> same_history ed ed'"
proof (cases l rule: rev_cases)
  case Nil
  then show ?thesis
    using assms by (simp add: handle_backspace_def ed_rep_def)
next
  case (snoc l' c)
  then show ?thesis
    using assms by (simp add: handle_backspace_def buffer_remove_def ed_rep_def same_history_def)
qed

lemma recall_fold:
  "fold (\<lambda>ch e. ed_print [ch] (e\<lparr>ed_buffer := ed_buffer e @ [ch], ed_cursor := Suc (ed_cursor e)\<rparr>)) h ed =
   ed\<lparr>ed_buffer := ed_buffer ed @ h, ed_cursor := ed_cursor ed + length h, ed_out := ed_out ed @ h\<rparr>"
  by (induction h arbitrary: ed) (simp_all add: ed_print_def)

text \<open>The position in the history after a key.\<close>

definition history_move :: "nat \<Rightarrow> nat \<Rightarrow> nat \<Rightarrow> nat" where
  "history_move code n pos = (if code = 0x51 then (if pos < n then pos + 1 else pos) else pos - 1)"

lemma handle_history_eq:
  assumes "ed_rep l r ed"
  shows "\<exists>ed'. handle_history code ed = Some ed' \<and> ed_history ed' = ed_history ed \<and>
    ed_history_pos ed' = history_move code (length (ed_history ed)) (ed_history_pos ed) \<and>
    (let h = (if ed_history_pos ed' < length (ed_history ed) then ed_history ed ! ed_history_pos ed' else [])
     in ed_buffer ed' = r @ h \<and> ed_cursor ed' = length h)"
proof -
  let ?pos = "history_move code (length (ed_history ed)) (ed_history_pos ed)"
  let ?ed = "ed\<lparr>ed_history_pos := ?pos\<rparr>"
  obtain ed2 where ed2: "clear_line ?ed = Some ed2" "ed_rep [] r ed2" "same_history ?ed ed2"
    using clear_line_rep [of l r ?ed] assms by (auto simp: ed_rep_def)
  have "(if code = 0x51
        then (if ed_history_pos ed < length (ed_history ed) then ed\<lparr>ed_history_pos := ed_history_pos ed + 1\<rparr> else ed)
        else (if ed_history_pos ed > 0 then ed\<lparr>ed_history_pos := ed_history_pos ed - 1\<rparr> else ed)) = ?ed"
    by (auto simp: history_move_def)
  then show ?thesis
    using ed2 by (simp add: handle_history_def recall_fold Let_def ed_rep_def same_history_def)
qed

section \<open>The editor edits\<close>

text \<open>
  What a key does to the text in front of and behind the cursor, the history and the position in it, with
  the line that is returned. For the moves by words only the text is fixed. Recalling a line replaces the text
  when the cursor is at its end.
\<close>

fun edit_spec :: "key_event \<Rightarrow> string \<times> string \<times> string list \<times> nat \<Rightarrow> string \<Rightarrow> string \<times> string \<times> string list \<times> nat \<Rightarrow> bool" where
  "edit_spec ev (l, r, h, p) line (l', r', h', p') \<longleftrightarrow>
     (if ke_character ev = CHR 0x08 then line = [] \<and> (l', r', h', p') = (butlast l, r, h, p)
      else if ke_character ev = CHR 0x0A then
        if l @ r = [] then line = [CHR 0x0A] \<and> (l', r', h', p') = (l, r, h, p)
        else line = l @ r \<and> (l', r', h', p') = ([], [], h @ [l @ r], length h + 1)
      else if ke_ctrl_pressed ev then line = [] \<and> (h', p') = (h, p) \<and>
        l' @ r' = (if ke_character ev = CHR ''l'' then [] else if ke_character ev = CHR ''u'' then r else l @ r)
      else if ke_code ev = 0x51 \<or> ke_code ev = 0x52 then line = [] \<and> h' = h \<and> p' = history_move (ke_code ev) (length h) p \<and>
        (r = [] \<longrightarrow> (l', r') = (if p' < length h then h ! p' else [], []))
      else line = [] \<and> (h', p') = (h, p) \<and>
        (l', r') = (if ke_code ev = 0x4a then ([], l @ r)
          else if ke_code ev = 0x4d then (l @ r, [])
          else if ke_code ev = 0x4f then if r = [] then (l, r) else (l @ [hd r], tl r)
          else if ke_code ev = 0x50 then if l = [] then (l, r) else (butlast l, last l # r)
          else if ke_character ev = CHR 0x00 then (l, r)
          else (l @ [ke_character ev], r)))"

definition ed_view :: "editor \<Rightarrow> string \<times> string \<times> string list \<times> nat" where
  "ed_view ed = (take (ed_cursor ed) (ed_buffer ed), drop (ed_cursor ed) (ed_buffer ed), ed_history ed, ed_history_pos ed)"

definition ed_wf :: "editor \<Rightarrow> bool" where
  "ed_wf ed \<longleftrightarrow> ed_cursor ed \<le> length (ed_buffer ed) \<and> ed_history_pos ed \<le> length (ed_history ed)"

lemma ed_view_rep: "ed_rep l r ed \<Longrightarrow> ed_view ed = (l, r, ed_history ed, ed_history_pos ed)"
  by (simp add: ed_view_def ed_rep_def)

lemma ed_rep_wf: "ed_rep l r ed' \<Longrightarrow> ed_wf ed \<Longrightarrow> same_history ed ed' \<Longrightarrow> ed_wf ed'"
  by (simp add: ed_wf_def ed_rep_def same_history_def)

lemma ctrl_character_rep:
  assumes "ed_rep l r ed"
  shows "\<exists>ed' l' r'. ctrl_character cwd ch ed = Some ed' \<and> ed_rep l' r' ed' \<and> same_history ed ed' \<and>
    l' @ r' = (if ch = CHR ''l'' then [] else if ch = CHR ''u'' then r else l @ r)"
proof -
  consider "ch = CHR ''a''" | "ch = CHR ''e''" | "ch = CHR ''l''" | "ch = CHR ''u''"
    | "ch \<notin> {CHR ''a'', CHR ''e'', CHR ''l'', CHR ''u''}"
    by blast
  then show ?thesis
  proof cases
    case 1
    then show ?thesis
      using goto_start_rep [OF assms] by (intro exI [of _ "goto_start ed"] exI [of _ "[]"] exI [of _ "l @ r"]) (simp add: ctrl_character_def)
  next
    case 2
    then show ?thesis
      using goto_end_rep [OF assms] by (intro exI [of _ "goto_end ed"] exI [of _ "l @ r"] exI [of _ "[]"]) (simp add: ctrl_character_def)
  next
    case 3
    then show ?thesis
      using ed_clear_rep [of cwd ed] by (intro exI [of _ "ed_clear cwd ed"] exI [of _ "[]"]) (simp add: ctrl_character_def)
  next
    case 4
    obtain ed' where "clear_line ed = Some ed'" "ed_rep [] r ed'" "same_history ed ed'"
      using clear_line_rep [OF assms] by blast
    then show ?thesis
      using 4 by (intro exI [of _ ed'] exI [of _ "[]"] exI [of _ r]) (simp add: ctrl_character_def)
  next
    case 5
    then show ?thesis
      using assms by (intro exI [of _ ed] exI [of _ l] exI [of _ r]) (simp add: ctrl_character_def)
  qed
qed

lemma handle_ctrl_rep:
  assumes "ed_rep l r ed"
  shows "\<exists>ed' l' r'. handle_ctrl cwd ev ed = Some ed' \<and> ed_rep l' r' ed' \<and> same_history ed ed' \<and>
    l' @ r' = (if ke_character ev = CHR ''l'' then [] else if ke_character ev = CHR ''u'' then r else l @ r)"
proof -
  obtain ed1 l1 r1 where ed1: "ctrl_character cwd (ke_character ev) ed = Some ed1" "ed_rep l1 r1 ed1" "same_history ed ed1"
      "l1 @ r1 = (if ke_character ev = CHR ''l'' then [] else if ke_character ev = CHR ''u'' then r else l @ r)"
    using ctrl_character_rep [OF assms] by blast
  have "\<exists>ed'. handle_ctrl cwd ev ed = Some ed' \<and> ed_buffer ed' = ed_buffer ed1 \<and>
      ed_cursor ed' \<le> length (ed_buffer ed1) \<and> same_history ed1 ed'"
  proof -
    have cursor: "ed_cursor ed1 \<le> length (ed_buffer ed1)"
      using ed1(2) by (simp add: ed_rep_def)
    consider "ke_code ev = 0x4f" "ed_cursor ed1 < length (ed_buffer ed1)" | "ke_code ev = 0x50" "0 < ed_cursor ed1"
      | "ke_code ev \<noteq> 0x4f \<or> ed_cursor ed1 = length (ed_buffer ed1)" "ke_code ev \<noteq> 0x50 \<or> ed_cursor ed1 = 0"
      using cursor by linarith
    then show ?thesis
    proof cases
      case 1
      let ?ed = "ed_print esc_right (ed1\<lparr>ed_cursor := ed_cursor ed1 + 1\<rparr>)"
      show ?thesis
        using word_right_rep [of ?ed] 1 by (auto simp: handle_ctrl_def ed1(1) same_history_def Let_def)
    next
      case 2
      let ?ed = "ed_print esc_left (ed1\<lparr>ed_cursor := ed_cursor ed1 - 1\<rparr>)"
      have "ed_cursor ?ed \<le> length (ed_buffer ?ed)"
        using cursor by simp
      then obtain ed3 where "word_left (ed_cursor ?ed) ?ed = Some ed3" "ed_buffer ed3 = ed_buffer ?ed"
          "ed_cursor ed3 \<le> ed_cursor ?ed" "same_history ?ed ed3"
        using word_left_rep by blast
      then show ?thesis
        using 2 cursor by (auto simp: handle_ctrl_def ed1(1) same_history_def Let_def)
    next
      case 3
      then show ?thesis
        using cursor by (auto simp: handle_ctrl_def ed1(1))
    qed
  qed
  then obtain ed' where ed': "handle_ctrl cwd ev ed = Some ed'" "ed_buffer ed' = ed_buffer ed1"
      "ed_cursor ed' \<le> length (ed_buffer ed1)" "same_history ed1 ed'"
    by blast
  then show ?thesis
    using ed1(2-4)
    by (intro exI [of _ ed'] exI [of _ "take (ed_cursor ed') (ed_buffer ed1)"] exI [of _ "drop (ed_cursor ed') (ed_buffer ed1)"])
      (simp add: ed_rep_def same_history_def)
qed

text \<open>The keys that move by one character or insert one.\<close>

definition plain_key :: "key_event \<Rightarrow> bool" where
  "plain_key ev \<longleftrightarrow> ke_character ev \<noteq> CHR 0x08 \<and> ke_character ev \<noteq> CHR 0x0A \<and> \<not> ke_ctrl_pressed ev \<and>
     ke_code ev \<noteq> 0x51 \<and> ke_code ev \<noteq> 0x52"

lemma plain_key_rep:
  assumes rep: "ed_rep l r ed" and ev: "plain_key ev"
  shows "\<exists>ed' l' r'. handle_key_event cwd ev ed = Some ([], ed') \<and> ed_rep l' r' ed' \<and> same_history ed ed' \<and>
    (l', r') = (if ke_code ev = 0x4a then ([], l @ r)
      else if ke_code ev = 0x4d then (l @ r, [])
      else if ke_code ev = 0x4f then if r = [] then (l, r) else (l @ [hd r], tl r)
      else if ke_code ev = 0x50 then if l = [] then (l, r) else (butlast l, last l # r)
      else if ke_character ev = CHR 0x00 then (l, r)
      else (l @ [ke_character ev], r))"
proof -
  have ends: "ed_cursor ed < length (ed_buffer ed) \<longleftrightarrow> r \<noteq> []" "0 < ed_cursor ed \<longleftrightarrow> l \<noteq> []"
    using rep by (auto simp: ed_rep_def)
  have right: "ed_rep (l @ [hd r]) (tl r) (ed_print esc_right (ed\<lparr>ed_cursor := ed_cursor ed + 1\<rparr>))" if "r \<noteq> []"
    using rep that by (simp add: ed_rep_def)
  have left: "ed_rep (butlast l) (last l # r) (ed_print esc_left (ed\<lparr>ed_cursor := ed_cursor ed - 1\<rparr>))" if "l \<noteq> []"
    using rep that by (simp add: ed_rep_def)
  consider "ke_code ev = 0x4a \<or> ke_code ev = 0x4d" | "ke_code ev = 0x4f" | "ke_code ev = 0x50"
    | "ke_code ev \<notin> {0x4a, 0x4d, 0x4f, 0x50}"
    by blast
  then show ?thesis
  proof cases
    case 1
    then show ?thesis
      using ev goto_start_rep [OF rep] goto_end_rep [OF rep] by (auto simp: handle_key_event_def plain_key_def)
  next
    case 2
    then show ?thesis
      using ev rep right by (auto simp: handle_key_event_def plain_key_def ends same_history_def)
  next
    case 3
    then show ?thesis
      using ev rep left by (auto simp: handle_key_event_def plain_key_def ends same_history_def)
  next
    case 4
    then show ?thesis
      using ev rep insert_character_rep [OF rep, of "ke_character ev"]
      by (cases "ke_character ev = CHR 0x00") (auto simp: handle_key_event_def plain_key_def)
  qed
qed


definition editor_example :: editor where
  "editor_example = (editor_new ''> '')\<lparr>ed_buffer := ''lsp'', ed_cursor := 2, ed_history := [''cat''], ed_history_pos := 1\<rparr>"


text \<open>
  Recalling a line of the history deletes only the text in front of the cursor. The text behind it stays, the
  recalled line is appended to that text, and the cursor is placed as if the line stood alone.
\<close>

theorem history_keeps_tail:
  assumes "ed_wf ed" and "\<not> ke_ctrl_pressed ev" and "ke_character ev \<noteq> CHR 0x08" and "ke_character ev \<noteq> CHR 0x0A"
    and "ke_code ev = 0x52" and "0 < ed_history_pos ed"
  shows "\<exists>ed'. handle_key_event cwd ev ed = Some ([], ed') \<and>
    ed_buffer ed' = drop (ed_cursor ed) (ed_buffer ed) @ ed_history ed ! (ed_history_pos ed - 1) \<and>
    ed_cursor ed' = length (ed_history ed ! (ed_history_pos ed - 1))"
proof -
  have "ed_rep (take (ed_cursor ed) (ed_buffer ed)) (drop (ed_cursor ed) (ed_buffer ed)) ed"
    using assms(1) by (simp add: ed_rep_def ed_wf_def)
  note handle_history_eq [OF this, of "ke_code ev"]
  then show ?thesis
    using assms by (auto simp: handle_key_event_def history_move_def Let_def ed_wf_def)
qed

theorem history_keeps_tail_witness:
  "\<exists>ed'. handle_key_event [] \<lparr>ke_code = 0x52, ke_character = CHR 0x00, ke_alt_pressed = False, ke_ctrl_pressed = False\<rparr> editor_example = Some ([], ed') \<and>
    ed_buffer ed' = ''pcat'' \<and> ed_cursor ed' = 3"
  using history_keeps_tail [of editor_example "\<lparr>ke_code = 0x52, ke_character = CHR 0x00, ke_alt_pressed = False, ke_ctrl_pressed = False\<rparr>" "[]"]
  by (simp add: ed_wf_def editor_example_def editor_new_def numeral_3_eq_3)

end
