(* ===== verification/Console.thy ===== *)
theory Console
  imports Prelude
begin

text \<open>
  The console server, \<^verbatim>\<open>src/servers/console\<close>: the frame buffer, the terminals drawn on it, the parser of the
  escape sequences and the handler of the standard input. The font is generated by a tool and is a parameter.
  Subscripts of vectors are checked, also where \<open>ASSERT_PEDANTIC\<close> asks for it, and memory of the frame buffer is only
  touched inside its storage. Positions are \<open>uint32_t\<close> and wrap around.
\<close>

section \<open>The frame buffer\<close>

record framebuffer =
  fb_width :: nat
  fb_height :: nat
  fb_back :: "u32 list"
  fb_front :: "u32 list"
  fb_dirty :: bool

text \<open>The storage is given by the system calls that allocate and map it.\<close>

definition framebuffer_new :: "nat \<Rightarrow> nat \<Rightarrow> u32 list \<Rightarrow> u32 list \<Rightarrow> framebuffer" where
  "framebuffer_new w h back front = \<lparr>fb_width = w, fb_height = h, fb_back = back, fb_front = front, fb_dirty = False\<rparr>"

definition fb_clear :: "framebuffer \<Rightarrow> framebuffer" where
  "fb_clear fb = fb\<lparr>fb_back := map (\<lambda>_. 0) (fb_back fb), fb_dirty := True\<rparr>"

definition clear_row :: "nat \<Rightarrow> nat \<Rightarrow> nat \<Rightarrow> framebuffer \<Rightarrow> framebuffer option" where
  "clear_row x width y1 fb = do {
     let start = add32 (mul32 y1 (fb_width fb)) x;
     ensure (start + width \<le> length (fb_back fb));
     Some (fb\<lparr>fb_back := mem_write start (replicate width 0) (fb_back fb)\<rparr>)
   }"

definition clear_region :: "nat \<Rightarrow> nat \<Rightarrow> nat \<Rightarrow> nat \<Rightarrow> framebuffer \<Rightarrow> framebuffer option" where
  "clear_region x y width height fb = do {
     fb' \<leftarrow> for_each (clear_row x width) [y..<add32 y height] fb;
     Some (fb'\<lparr>fb_dirty := True\<rparr>)
   }"

definition fb_set :: "nat \<Rightarrow> nat \<Rightarrow> u32 \<Rightarrow> framebuffer \<Rightarrow> framebuffer option" where
  "fb_set x y colour fb = do {
     ensure (x < fb_width fb);
     ensure (y < fb_height fb);
     let i = add32 (mul32 y (fb_width fb)) x;
     ensure (i < length (fb_back fb));
     Some (fb\<lparr>fb_back := (fb_back fb)[i := colour], fb_dirty := True\<rparr>)
   }"

definition swap_buffers :: "framebuffer \<Rightarrow> framebuffer" where
  "swap_buffers fb = (if \<not> fb_dirty fb then fb else fb\<lparr>fb_dirty := False, fb_front := fb_back fb\<rparr>)"

section \<open>The font\<close>

record font_glyph =
  g_width :: nat
  g_height :: nat
  g_left :: int
  g_top :: int
  g_bitmap :: "u8 list"

record font =
  f_advance :: nat
  f_ascender :: nat
  f_line_height :: nat
  f_glyph :: "char \<Rightarrow> font_glyph"

section \<open>The terminal\<close>

record term_line =
  l_chars :: string
  l_colours :: "u32 list"
  l_dirty :: bool

definition line_new :: "nat \<Rightarrow> term_line" where
  "line_new n = \<lparr>l_chars = replicate n (CHR 0x00), l_colours = replicate n 0, l_dirty = False\<rparr>"

record terminal =
  t_lines :: "term_line list"
  t_column_count :: nat
  t_row_count :: nat
  t_cursor_x :: nat
  t_cursor_y :: nat
  t_colour :: u32

definition terminal_new :: "font \<Rightarrow> framebuffer \<Rightarrow> terminal" where
  "terminal_new font fb =
     (let columns = fb_width fb div f_advance font; rows = fb_height fb div f_line_height font
      in \<lparr>t_lines = replicate rows (line_new columns), t_column_count = columns, t_row_count = rows,
          t_cursor_x = 0, t_cursor_y = 0, t_colour = 0xffffffff\<rparr>)"

text \<open>
  \<open>memcpy\<close> from one place further on, character by character; and over the colours, whose four bytes each
  are copied one by one as well.
\<close>

definition copy_chars :: "nat \<Rightarrow> nat \<Rightarrow> string \<Rightarrow> string" where
  "copy_chars col n cs = fold (\<lambda>i cs. cs[col + i := cs ! (col + 1 + i)]) [0..<n] cs"

definition get_byte :: "nat \<Rightarrow> u32 \<Rightarrow> u32" where
  "get_byte k w = drop_bit (8 * k) w AND 0xff"

definition put_byte :: "nat \<Rightarrow> u32 \<Rightarrow> u32 \<Rightarrow> u32" where
  "put_byte k b w = (w AND NOT (push_bit (8 * k) 0xff)) OR push_bit (8 * k) b"

definition copy_colours :: "nat \<Rightarrow> nat \<Rightarrow> u32 list \<Rightarrow> u32 list" where
  "copy_colours col n cs =
     fold (\<lambda>j cs. cs[col + j div 4 := put_byte (j mod 4) (get_byte (j mod 4) (cs ! (col + 1 + j div 4))) (cs ! (col + j div 4))])
       [0..<n] cs"

fun shift_up :: "nat \<Rightarrow> nat \<Rightarrow> term_line \<Rightarrow> term_line option" where
  "shift_up 0 col ln = Some ln"
| "shift_up (Suc i) col ln = do {
     let src = add32 col i;
     let dst = add32 col (Suc i);
     ensure (src < length (l_chars ln) \<and> dst < length (l_chars ln));
     ensure (src < length (l_colours ln) \<and> dst < length (l_colours ln));
     shift_up i col (ln\<lparr>l_chars := (l_chars ln)[dst := l_chars ln ! src], l_colours := (l_colours ln)[dst := l_colours ln ! src]\<rparr>)
   }"

definition line_set_char :: "nat \<Rightarrow> char \<Rightarrow> term_line \<Rightarrow> term_line option" where
  "line_set_char col ch ln0 = do {
     let ln = ln0\<lparr>l_dirty := True\<rparr>;
     if ch = CHR 0x08 then do {
       ensure (col < length (l_chars ln) \<and> add32 col 1 < length (l_chars ln));
       ensure (col < length (l_colours ln) \<and> add32 col 1 < length (l_colours ln));
       Some (ln\<lparr>l_chars := copy_chars col (length (l_chars ln) - col - 1) (l_chars ln),
                l_colours := copy_colours col (length (l_colours ln) - col - 1) (l_colours ln)\<rparr>)
     }
     else do {
       ln' \<leftarrow> shift_up (sub32 (length (l_chars ln)) (col + 1)) col ln;
       ensure (col < length (l_chars ln'));
       Some (ln'\<lparr>l_chars := (l_chars ln')[col := ch]\<rparr>)
     }
   }"

definition set_char :: "nat \<Rightarrow> nat \<Rightarrow> char \<Rightarrow> terminal \<Rightarrow> terminal option" where
  "set_char row col ch t = do {
     ensure (row < length (t_lines t));
     ln \<leftarrow> line_set_char col ch (t_lines t ! row);
     Some (t\<lparr>t_lines := (t_lines t)[row := ln]\<rparr>)
   }"

definition term_backspace :: "terminal \<Rightarrow> terminal option" where
  "term_backspace t = do {
     let t1 = (if t_cursor_x t = 0
       then t\<lparr>t_cursor_x := sub32 (t_column_count t) 1, t_cursor_y := (if t_cursor_y t > 0 then t_cursor_y t - 1 else t_cursor_y t)\<rparr>
       else t);
     let t2 = t1\<lparr>t_cursor_x := sub32 (t_cursor_x t1) 1\<rparr>;
     set_char (t_cursor_y t2) (t_cursor_x t2) (CHR 0x08) t2
   }"

definition term_clear :: "terminal \<Rightarrow> terminal" where
  "term_clear t = t\<lparr>t_lines := map (\<lambda>ln. ln\<lparr>l_dirty := True, l_chars := map (\<lambda>_. CHR '' '') (l_chars ln)\<rparr>) (t_lines t),
     t_cursor_x := 0, t_cursor_y := 0\<rparr>"

definition set_dirty_all :: "terminal \<Rightarrow> terminal" where
  "set_dirty_all t = t\<lparr>t_lines := map (\<lambda>ln. ln\<lparr>l_dirty := True\<rparr>) (t_lines t)\<rparr>"

definition term_newline :: "terminal \<Rightarrow> terminal option" where
  "term_newline t =
     (let t1 = t\<lparr>t_cursor_x := 0, t_cursor_y := add32 (t_cursor_y t) 1\<rparr>
      in if t_cursor_y t1 = t_row_count t1
         then do {
           ensure (t_lines t1 \<noteq> []);
           Some (set_dirty_all (t1\<lparr>t_cursor_y := sub32 (t_cursor_y t1) 1, t_lines := tl (t_lines t1) @ [line_new (t_column_count t1)]\<rparr>))
         }
         else Some t1)"

definition move_left :: "terminal \<Rightarrow> terminal" where
  "move_left t = t\<lparr>t_cursor_x := sub32 (t_cursor_x t) 1\<rparr>"

definition move_right :: "terminal \<Rightarrow> terminal" where
  "move_right t = t\<lparr>t_cursor_x := add32 (t_cursor_x t) 1\<rparr>"

definition term_put_char :: "char \<Rightarrow> terminal \<Rightarrow> terminal option" where
  "term_put_char ch t = do {
     t1 \<leftarrow> (if t_cursor_x t = sub32 (t_column_count t) 1 then term_newline t else Some t);
     t2 \<leftarrow> set_char (t_cursor_y t1) (t_cursor_x t1) ch t1;
     ensure (t_cursor_y t2 < length (t_lines t2));
     let ln = t_lines t2 ! t_cursor_y t2;
     ensure (t_cursor_x t2 < length (l_colours ln));
     Some (t2\<lparr>t_lines := (t_lines t2)[t_cursor_y t2 := ln\<lparr>l_colours := (l_colours ln)[t_cursor_x t2 := t_colour t2]\<rparr>],
       t_cursor_x := add32 (t_cursor_x t2) 1\<rparr>)
   }"

definition set_colour :: "u32 \<Rightarrow> u32 \<Rightarrow> u32 \<Rightarrow> terminal \<Rightarrow> terminal" where
  "set_colour r g b t = t\<lparr>t_colour := b OR push_bit 8 g OR push_bit 16 r\<rparr>"

definition set_cursor :: "nat \<Rightarrow> nat \<Rightarrow> terminal \<Rightarrow> terminal" where
  "set_cursor x y t = t\<lparr>t_cursor_x := x, t_cursor_y := y\<rparr>"

section \<open>Drawing\<close>

definition set_line_dirty :: "nat \<Rightarrow> bool \<Rightarrow> terminal \<Rightarrow> terminal option" where
  "set_line_dirty row d t = do {
     ensure (row < length (t_lines t));
     Some (t\<lparr>t_lines := (t_lines t)[row := (t_lines t ! row)\<lparr>l_dirty := d\<rparr>]\<rparr>)
   }"

text \<open>The block of the cursor, in the colour given.\<close>

definition draw_cursor :: "font \<Rightarrow> u32 \<Rightarrow> terminal \<Rightarrow> framebuffer \<Rightarrow> framebuffer option" where
  "draw_cursor font colour t =
     for_each (\<lambda>y. for_each (\<lambda>x. fb_set (add32 (mul32 (t_cursor_x t) (f_advance font)) x)
         (add32 (mul32 (t_cursor_y t) (f_line_height font)) y) colour) [0..<f_advance font])
       [0..<sub32 (f_line_height font) 2]"

definition clear_cursor :: "font \<Rightarrow> terminal \<times> framebuffer \<Rightarrow> (terminal \<times> framebuffer) option" where
  "clear_cursor font = (\<lambda>(t, fb). do {
     t' \<leftarrow> set_line_dirty (t_cursor_y t) True t;
     fb' \<leftarrow> draw_cursor font 0 t' fb;
     Some (t', fb')
   })"

definition blend :: "u32 \<Rightarrow> u8 \<Rightarrow> u32" where
  "blend colour intensity =
     (let part = (\<lambda>k. ((drop_bit k colour AND 0xff) * ucast intensity) div 255)
      in part 0 OR push_bit 8 (part 8) OR push_bit 16 (part 16))"

definition to_u32 :: "int \<Rightarrow> nat" where
  "to_u32 i = nat (i mod 2 ^ 32)"

definition draw_pixel :: "font \<Rightarrow> font_glyph \<Rightarrow> u32 \<Rightarrow> nat \<Rightarrow> nat \<Rightarrow> nat \<Rightarrow> nat \<Rightarrow> framebuffer \<Rightarrow> framebuffer option" where
  "draw_pixel font glyph colour row col y1 x1 fb = do {
     let i = add32 (mul32 y1 (g_width glyph)) x1;
     ensure (i < length (g_bitmap glyph));
     let x2 = to_u32 (int (x1 + col * f_advance font) + g_left glyph);
     let y2 = to_u32 (int (y1 + row * f_line_height font + f_ascender font) - g_top glyph);
     fb_set x2 y2 (blend colour (g_bitmap glyph ! i)) fb
   }"

definition draw_char :: "font \<Rightarrow> term_line \<Rightarrow> nat \<Rightarrow> nat \<Rightarrow> framebuffer \<Rightarrow> framebuffer option" where
  "draw_char font ln row col fb = do {
     ensure (col < length (l_chars ln));
     let ch = l_chars ln ! col;
     if ch = CHR 0x00 \<or> ch = CHR '' '' then Some fb
     else do {
       ensure (col < length (l_colours ln));
       let glyph = f_glyph font ch;
       for_each (\<lambda>y1. for_each (draw_pixel font glyph (l_colours ln ! col) row col y1) [0..<g_width glyph])
         [0..<g_height glyph] fb
     }
   }"

definition draw_line :: "font \<Rightarrow> nat \<Rightarrow> terminal \<times> framebuffer \<Rightarrow> (terminal \<times> framebuffer) option" where
  "draw_line font row = (\<lambda>(t, fb).
     if \<not> l_dirty (t_lines t ! row) then Some (t, fb)
     else do {
       t' \<leftarrow> set_line_dirty row False t;
       let ln = t_lines t' ! row;
       fb' \<leftarrow> for_each (draw_char font ln row) [0..<length (l_chars ln)] fb;
       Some (t', fb')
     })"

definition render :: "font \<Rightarrow> terminal \<times> framebuffer \<Rightarrow> (terminal \<times> framebuffer) option" where
  "render font = (\<lambda>(t, fb). do {
     fb1 \<leftarrow> for_each (\<lambda>row fb. if \<not> l_dirty (t_lines t ! row) then Some fb
         else clear_region 0 (mul32 row (f_line_height font)) (fb_width fb) (f_line_height font) fb)
       [0..<length (t_lines t)] fb;
     t1 \<leftarrow> set_line_dirty (t_cursor_y t) True t;
     fb2 \<leftarrow> draw_cursor font 0xffffffff t1 fb1;
     for_each (draw_line font) [0..<length (t_lines t1)] (t1, fb2)
   })"

section \<open>Escape sequences\<close>

record escape_parser =
  p_current_param :: u32
  p_in_escape :: bool
  p_params :: "u32 list"

record console =
  c_fb :: framebuffer
  c_default :: terminal
  c_alternate :: terminal
  c_use_alternate :: bool
  c_parser :: escape_parser
  c_warnings :: "(string \<times> u32 list) list"

definition parser_new :: escape_parser where
  "parser_new = \<lparr>p_current_param = 0, p_in_escape = False, p_params = []\<rparr>"

definition console_new :: "font \<Rightarrow> framebuffer \<Rightarrow> console" where
  "console_new font fb = \<lparr>c_fb = fb_clear fb, c_default = terminal_new font fb, c_alternate = terminal_new font fb,
     c_use_alternate = False, c_parser = parser_new, c_warnings = []\<rparr>"

text \<open>The terminal the pointer of the server points to.\<close>

definition c_terminal :: "console \<Rightarrow> terminal" where
  "c_terminal c = (if c_use_alternate c then c_alternate c else c_default c)"

definition set_terminal :: "terminal \<Rightarrow> console \<Rightarrow> console" where
  "set_terminal t c = (if c_use_alternate c then c\<lparr>c_alternate := t\<rparr> else c\<lparr>c_default := t\<rparr>)"

definition on_terminal :: "(terminal \<Rightarrow> terminal option) \<Rightarrow> console \<Rightarrow> console option" where
  "on_terminal f c = map_option (\<lambda>t. set_terminal t c) (f (c_terminal c))"

definition warn :: "string \<Rightarrow> u32 list \<Rightarrow> console \<Rightarrow> console" where
  "warn s args c = c\<lparr>c_warnings := c_warnings c @ [(s, args)]\<rparr>"

text \<open>A \<open>char\<close> is signed.\<close>

definition char_int :: "char \<Rightarrow> int" where
  "char_int ch = (let n = of_char ch in if n < 128 then n else n - 256)"

definition private_mode :: "bool \<Rightarrow> console \<Rightarrow> console" where
  "private_mode enable c =
     (let params = p_params (c_parser c)
      in if length params \<noteq> 1 then
           warn (if enable then ''Private mode enable doesn't have code'' else ''Private mode disable doesn't have code'') [] c
         else if params ! 0 \<noteq> 1049 then warn ''Unknown private code {}'' [params ! 0] c
         else let c' = c\<lparr>c_use_alternate := enable\<rparr>
              in set_terminal (if enable then term_clear (c_terminal c') else set_dirty_all (c_terminal c')) c')"

definition select_graphic :: "console \<Rightarrow> console" where
  "select_graphic c0 =
     (let c = (if p_params (c_parser c0) = [] then c0\<lparr>c_parser := (c_parser c0)\<lparr>p_params := [0]\<rparr>\<rparr> else c0);
          params = p_params (c_parser c)
      in if params ! 0 = 38 then
           if length params < 2 then warn ''SGR has no colour type'' [] c
           else if params ! 1 \<noteq> 2 then warn ''Unknown colour type {}'' [params ! 1] c
           else if length params \<noteq> 5 then warn ''Incorrect number of parameters for 24-bit colour set'' [] c
           else set_terminal (set_colour (params ! 2) (params ! 3) (params ! 4) (c_terminal c)) c
         else warn ''Unknown SGR code {}'' [params ! 0] c)"

definition final_char :: "char \<Rightarrow> console \<Rightarrow> console" where
  "final_char ch c =
     (let params = p_params (c_parser c); t = c_terminal c
      in if ch = CHR ''D'' then set_terminal (move_left t) c
         else if ch = CHR ''C'' then set_terminal (move_right t) c
         else if ch = CHR ''H'' then
           if length params \<noteq> 2 then warn ''CUP doesn't have row and column'' [] c
           else set_terminal (set_cursor (unat (params ! 1)) (unat (params ! 0)) t) c
         else if ch = CHR ''J'' then set_terminal (term_clear t) c
         else if ch = CHR ''h'' then private_mode True c
         else if ch = CHR ''l'' then private_mode False c
         else if ch = CHR ''m'' then select_graphic c
         else warn ''Unknown CSI code {:c}'' [of_char ch] c)"

definition parse_escape :: "char \<Rightarrow> console \<Rightarrow> bool \<times> console" where
  "parse_escape ch c =
     (let p = c_parser c
      in if ch = CHR 0x1B then (True, c\<lparr>c_parser := p\<lparr>p_in_escape := True, p_params := []\<rparr>\<rparr>)
         else if \<not> p_in_escape p then (False, c)
         else if ch = CHR ''['' \<or> ch = CHR ''?'' then (True, c)
         else if char_int ch - 48 < 10 then
           (True, c\<lparr>c_parser := p\<lparr>p_current_param := p_current_param p * 10 + (of_char ch - 48)\<rparr>\<rparr>)
         else if ch = CHR '';'' then
           (True, c\<lparr>c_parser := p\<lparr>p_params := p_params p @ [p_current_param p], p_current_param := 0\<rparr>\<rparr>)
         else (True, final_char ch
           (c\<lparr>c_parser := \<lparr>p_current_param = 0, p_in_escape = False, p_params = p_params p @ [p_current_param p]\<rparr>\<rparr>)))"

section \<open>The standard input\<close>

definition console_char :: "char \<Rightarrow> console \<Rightarrow> console option" where
  "console_char ch c =
     (let (handled, c') = parse_escape ch c
      in if handled then Some c'
         else if ch = CHR 0x08 then on_terminal term_backspace c'
         else if ch = CHR 0x0A then on_terminal term_newline c'
         else on_terminal (term_put_char ch) c')"

definition with_framebuffer ::
  "(terminal \<times> framebuffer \<Rightarrow> (terminal \<times> framebuffer) option) \<Rightarrow> console \<Rightarrow> console option" where
  "with_framebuffer f c = map_option (\<lambda>(t, fb). (set_terminal t c)\<lparr>c_fb := fb\<rparr>) (f (c_terminal c, c_fb c))"

definition on_read_ready :: "font \<Rightarrow> string \<Rightarrow> console \<Rightarrow> console option" where
  "on_read_ready font bytes c = do {
     c1 \<leftarrow> with_framebuffer (clear_cursor font) c;
     c2 \<leftarrow> for_each console_char bytes c1;
     with_framebuffer (render font) c2
   }"

text \<open>The timer of the server copies the drawn picture to the screen.\<close>

definition on_vsync :: "console \<Rightarrow> console" where
  "on_vsync c = c\<lparr>c_fb := swap_buffers (c_fb c)\<rparr>"

section \<open>The text of a line\<close>

lemma copy_chars_length [simp]: "length (copy_chars col n cs) = length cs"
proof -
  have "length (fold (\<lambda>i cs. cs[col + i := cs ! (col + 1 + i)]) ks cs) = length cs" for ks
    by (induction ks arbitrary: cs) simp_all
  then show ?thesis
    by (simp add: copy_chars_def)
qed

lemma copy_colours_length [simp]: "length (copy_colours col n cs) = length cs"
proof -
  have "length (fold (\<lambda>j cs. cs[col + j div 4 := put_byte (j mod 4) (get_byte (j mod 4) (cs ! (col + 1 + j div 4))) (cs ! (col + j div 4))])
      js cs) = length cs" for js
    by (induction js arbitrary: cs) simp_all
  then show ?thesis
    by (simp add: copy_colours_def)
qed

lemma copy_chars_eq:
  assumes "length l = col" and "n < length r"
  shows "copy_chars col n (l @ r) = l @ take n (tl r) @ drop n r"
  using assms(2)
proof (induction n)
  case (Suc n)
  have len: "length (take n (tl r)) = n"
    using Suc.prems by simp
  have "copy_chars col (Suc n) (l @ r) = (l @ take n (tl r) @ drop n r)[col + n := (l @ take n (tl r) @ drop n r) ! (col + 1 + n)]"
    using Suc by (simp add: copy_chars_def)
  also have "\<dots> = l @ take n (tl r) @ (drop n r)[0 := drop n r ! 1]"
    using assms(1) len Suc.prems by (simp add: list_update_append nth_append)
  also have "(drop n r)[0 := drop n r ! 1] = r ! Suc n # drop (Suc n) r"
    using Suc.prems by (cases "drop n r") (simp_all add: Cons_nth_drop_Suc [symmetric] drop_Suc nth_tl)
  also have "take n (tl r) @ r ! Suc n # drop (Suc n) r = take (Suc n) (tl r) @ drop (Suc n) r"
    using Suc.prems by (simp add: take_Suc_conv_app_nth nth_tl)
  finally show ?case .
qed (simp add: copy_chars_def)

lemma shift_up_eq:
  assumes "l_chars ln = l @ ys @ z # post" and "length (l_colours ln) = length (l_chars ln)"
    and "length l = col" and "length (l_chars ln) < 2 ^ 32"
  shows "\<exists>cs. shift_up (length ys) col ln = Some (ln\<lparr>l_chars := l @ hd (ys @ [z]) # ys @ post, l_colours := cs\<rparr>) \<and>
    length cs = length (l_chars ln)"
  using assms
proof (induction ys arbitrary: ln z post rule: rev_induct)
  case Nil
  then show ?case
    by (intro exI [of _ "l_colours ln"]) simp
next
  case (snoc b ys)
  let ?src = "col + length ys"
  let ?ln = "ln\<lparr>l_chars := l @ ys @ b # b # post, l_colours := (l_colours ln)[Suc ?src := l_colours ln ! ?src]\<rparr>"
  have "add32 col (length ys) = ?src" "add32 col (Suc (length ys)) = Suc ?src"
    using snoc.prems by (simp_all add: wrap_simps)
  moreover have "(l_chars ln)[Suc ?src := l_chars ln ! ?src] = l @ ys @ b # b # post"
    using snoc.prems(1,3) by (simp add: list_update_append nth_append)
  ultimately have "shift_up (length (ys @ [b])) col ln = shift_up (length ys) col ?ln"
    using snoc.prems by (simp add: Let_def)
  moreover obtain cs where "shift_up (length ys) col ?ln = Some (?ln\<lparr>l_chars := l @ hd (ys @ [b]) # ys @ b # post, l_colours := cs\<rparr>)"
      "length cs = length (l_chars ?ln)"
    using snoc.IH [of ?ln b "b # post"] snoc.prems by auto
  ultimately show ?case
    using snoc.prems(1) by (intro exI [of _ cs]) (cases ys; simp)
qed

text \<open>Inserting a character in front of the rest of the line drops the last one; deleting one repeats it.\<close>

lemma line_insert:
  assumes "l_chars ln = l @ r" and "r \<noteq> []" and "length (l_colours ln) = length (l_chars ln)" and "length (l_chars ln) < 2 ^ 32"
    and "length l = col" and "ch \<noteq> CHR 0x08"
  shows "\<exists>cs. line_set_char col ch ln = Some (ln\<lparr>l_chars := l @ ch # butlast r, l_colours := cs, l_dirty := True\<rparr>) \<and>
    length cs = length (l_chars ln)"
proof -
  obtain ys z where r: "r = ys @ [z]"
    using assms(2) by (cases r rule: rev_cases) auto
  have n: "sub32 (length (l_chars ln)) (col + 1) = length ys"
    using assms r by (simp add: wrap_simps)
  obtain cs where "shift_up (length ys) col (ln\<lparr>l_dirty := True\<rparr>) =
      Some (ln\<lparr>l_dirty := True, l_chars := l @ hd (ys @ [z]) # ys, l_colours := cs\<rparr>)" "length cs = length (l_chars ln)"
    using shift_up_eq [of "ln\<lparr>l_dirty := True\<rparr>" l ys z "[]" col] assms r by auto
  then show ?thesis
    using assms(5,6) n r by (intro exI [of _ cs]) (simp add: line_set_char_def Let_def list_update_append)
qed

lemma line_delete:
  assumes "l_chars ln = l @ c # r" and "r \<noteq> []" and "length (l_colours ln) = length (l_chars ln)" and "length (l_chars ln) < 2 ^ 32"
    and "length l = col"
  shows "\<exists>cs. line_set_char col (CHR 0x08) ln = Some (ln\<lparr>l_chars := l @ r @ [last r], l_colours := cs, l_dirty := True\<rparr>) \<and>
    length cs = length (l_chars ln)"
proof -
  have "add32 col 1 = Suc col" "0 < length r"
    using assms by (simp_all add: wrap_simps)
  moreover have "copy_chars col (length r) (l @ c # r) = l @ r @ drop (length r) (c # r)"
    using copy_chars_eq [OF assms(5), of "length r" "c # r"] by simp
  moreover have "drop (length r) (c # r) = [last r]"
    using assms(2) by (cases r rule: rev_cases) simp_all
  ultimately show ?thesis
    using assms by (intro exI [of _ "copy_colours col (length r) (l_colours ln)"]) (simp add: line_set_char_def Let_def)
qed

section \<open>Well-formed terminals\<close>

definition line_wf :: "nat \<Rightarrow> term_line \<Rightarrow> bool" where
  "line_wf n ln \<longleftrightarrow> length (l_chars ln) = n \<and> length (l_colours ln) = n"

definition term_wf :: "terminal \<Rightarrow> bool" where
  "term_wf t \<longleftrightarrow> 2 \<le> t_column_count t \<and> t_column_count t < 2 ^ 32 \<and> t_row_count t < 2 ^ 32 \<and>
     length (t_lines t) = t_row_count t \<and> list_all (line_wf (t_column_count t)) (t_lines t) \<and>
     t_cursor_x t < t_column_count t \<and> t_cursor_y t < t_row_count t"

definition same_size :: "terminal \<Rightarrow> terminal \<Rightarrow> bool" where
  "same_size t t' \<longleftrightarrow> t_column_count t' = t_column_count t \<and> t_row_count t' = t_row_count t"

lemma same_size_refl [simp]: "same_size t t"
  by (simp add: same_size_def)

lemma same_size_trans: "same_size t t' \<Longrightarrow> same_size t' t'' \<Longrightarrow> same_size t t''"
  by (simp add: same_size_def)

text \<open>The line the cursor is in.\<close>

abbreviation cursor_line :: "terminal \<Rightarrow> term_line" where
  "cursor_line t \<equiv> t_lines t ! t_cursor_y t"

lemma term_wf_line: "term_wf t \<Longrightarrow> y < t_row_count t \<Longrightarrow> line_wf (t_column_count t) (t_lines t ! y)"
  by (simp add: term_wf_def list_all_length)

lemma term_wf_update:
  "term_wf t \<Longrightarrow> line_wf (t_column_count t) ln \<Longrightarrow> x < t_column_count t \<Longrightarrow> y < t_row_count t \<Longrightarrow>
   term_wf (t\<lparr>t_lines := (t_lines t)[row := ln], t_cursor_x := x, t_cursor_y := y\<rparr>)"
  using set_update_subset_insert [of "t_lines t" row ln] by (auto simp: term_wf_def list_all_iff)

lemma term_wf_lines:
  "term_wf t \<Longrightarrow> line_wf (t_column_count t) ln \<Longrightarrow> term_wf (t\<lparr>t_lines := (t_lines t)[row := ln]\<rparr>)"
  using set_update_subset_insert [of "t_lines t" row ln] by (auto simp: term_wf_def list_all_iff)

lemma line_new_wf [simp]: "line_wf n (line_new n)"
  by (simp add: line_wf_def line_new_def)

lemma set_dirty_all_wf [simp]: "term_wf (set_dirty_all t) \<longleftrightarrow> term_wf t"
  by (simp add: set_dirty_all_def term_wf_def list_all_length line_wf_def)

lemma term_clear_wf: "term_wf t \<Longrightarrow> term_wf (term_clear t) \<and> same_size t (term_clear t)"
  by (simp add: term_clear_def term_wf_def list_all_length line_wf_def same_size_def)

lemma set_colour_wf [simp]: "term_wf (set_colour r g b t) \<longleftrightarrow> term_wf t"
  by (simp add: set_colour_def term_wf_def)

lemma terminal_new_wf:
  assumes "2 * f_advance font \<le> fb_width fb" and "f_line_height font \<le> fb_height fb" and "0 < f_advance font"
    and "0 < f_line_height font" and "fb_width fb < 2 ^ 32" and "fb_height fb < 2 ^ 32"
  shows "term_wf (terminal_new font fb)"
proof -
  have "2 \<le> fb_width fb div f_advance font" "1 \<le> fb_height fb div f_line_height font"
    using assms by (simp_all add: less_eq_div_iff_mult_less_eq)
  moreover have "fb_width fb div f_advance font < 2 ^ 32" "fb_height fb div f_line_height font < 2 ^ 32"
    using assms(5,6) div_le_dividend le_less_trans by blast+
  ultimately show ?thesis
    by (simp add: terminal_new_def term_wf_def Let_def list_all_length)
qed

lemma term_newline_wf:
  assumes "term_wf t"
  shows "\<exists>t'. term_newline t = Some t' \<and> term_wf t' \<and> same_size t t' \<and> t_cursor_x t' = 0"
proof -
  have next_row: "add32 (t_cursor_y t) 1 = Suc (t_cursor_y t)"
    using assms by (simp add: term_wf_def wrap_simps)
  show ?thesis
  proof (cases "Suc (t_cursor_y t) = t_row_count t")
    case True
    let ?t = "t\<lparr>t_cursor_x := 0, t_cursor_y := t_cursor_y t, t_lines := tl (t_lines t) @ [line_new (t_column_count t)]\<rparr>"
    have "sub32 (Suc (t_cursor_y t)) 1 = t_cursor_y t" "t_lines t \<noteq> []"
      using assms by (auto simp: term_wf_def wrap_simps)
    then have "term_newline t = Some (set_dirty_all ?t)"
      using next_row True by (simp add: term_newline_def Let_def)
    moreover have "list_all (line_wf (t_column_count t)) (tl (t_lines t))"
      using assms \<open>t_lines t \<noteq> []\<close> by (cases "t_lines t") (simp_all add: term_wf_def)
    then have "term_wf ?t"
      using assms by (auto simp: term_wf_def)
    moreover have "same_size t (set_dirty_all ?t)" "t_cursor_x (set_dirty_all ?t) = 0"
      by (simp_all add: same_size_def set_dirty_all_def)
    ultimately show ?thesis
      by simp
  next
    case False
    then show ?thesis
      using assms next_row by (auto simp: term_newline_def Let_def term_wf_def same_size_def)
  qed
qed

text \<open>
  Typing a character where the line has room inserts it at the cursor; deleting one removes the character in
  front of it. Other lines stay as they are.
\<close>

lemma put_char_row:
  assumes wf: "term_wf t" and line: "l_chars (cursor_line t) = l @ r" "t_cursor_x t = length l" "r \<noteq> []"
    and room: "t_cursor_x t \<noteq> t_column_count t - 1" and ch: "ch \<noteq> CHR 0x08"
  shows "\<exists>t'. term_put_char ch t = Some t' \<and> term_wf t' \<and> same_size t t' \<and> l_chars (cursor_line t') = l @ ch # butlast r \<and>
    t_cursor_x t' = length l + 1 \<and> t_cursor_y t' = t_cursor_y t \<and>
    (\<forall>y. y \<noteq> t_cursor_y t \<longrightarrow> t_lines t' ! y = t_lines t ! y)"
proof -
  let ?y = "t_cursor_y t"
  have y: "?y < length (t_lines t)" and x: "t_cursor_x t < t_column_count t"
    and ln: "line_wf (t_column_count t) (cursor_line t)" and cols: "t_column_count t < 2 ^ 32" "2 \<le> t_column_count t"
    using wf term_wf_line [OF wf, of ?y] by (simp_all add: term_wf_def)
  obtain cs where set: "line_set_char (length l) ch (cursor_line t) =
      Some ((cursor_line t)\<lparr>l_chars := l @ ch # butlast r, l_colours := cs, l_dirty := True\<rparr>)" "length cs = t_column_count t"
    using line_insert [OF line(1,3) _ _ refl ch] ln cols by (auto simp: line_wf_def)
  let ?ln = "(cursor_line t)\<lparr>l_chars := l @ ch # butlast r, l_dirty := True, l_colours := cs[length l := t_colour t]\<rparr>"
  have "sub32 (t_column_count t) 1 = t_column_count t - 1" "add32 (length l) 1 = length l + 1"
    using cols x line(2) by (simp_all add: wrap_simps)
  then have "term_put_char ch t = Some (t\<lparr>t_lines := (t_lines t)[?y := ?ln], t_cursor_x := length l + 1\<rparr>)"
    using room set x y line(2) by (simp add: term_put_char_def set_char_def Let_def)
  moreover have "line_wf (t_column_count t) ?ln"
    using ln set(2) line by (auto simp: line_wf_def)
  then have "term_wf (t\<lparr>t_lines := (t_lines t)[?y := ?ln], t_cursor_x := length l + 1, t_cursor_y := ?y\<rparr>)"
    using wf room x line(2) by (intro term_wf_update) (auto simp: term_wf_def)
  ultimately show ?thesis
    using y by (simp add: same_size_def)
qed

lemma term_put_char_wf:
  assumes wf: "term_wf t" and ch: "ch \<noteq> CHR 0x08"
  shows "\<exists>t'. term_put_char ch t = Some t' \<and> term_wf t' \<and> same_size t t'"
proof -
  have row: "\<exists>t'. term_put_char ch u = Some t' \<and> term_wf t' \<and> same_size u t'"
    if u: "term_wf u" "t_cursor_x u \<noteq> t_column_count u - 1" for u
  proof -
    have "t_cursor_x u < length (l_chars (cursor_line u))"
      using u(1) term_wf_line [OF u(1), of "t_cursor_y u"] by (simp add: term_wf_def line_wf_def)
    then show ?thesis
      using put_char_row [OF u(1) _ _ _ u(2) ch, of "take (t_cursor_x u) (l_chars (cursor_line u))" "drop (t_cursor_x u) (l_chars (cursor_line u))"]
      by auto
  qed
  have one: "sub32 (t_column_count u) 1 = t_column_count u - 1" "2 \<le> t_column_count u" if "term_wf u" for u
    using that by (simp_all add: term_wf_def wrap_simps)
  show ?thesis
  proof (cases "t_cursor_x t = t_column_count t - 1")
    case True
    obtain u where u: "term_newline t = Some u" "term_wf u" "same_size t u" "t_cursor_x u = 0"
      using term_newline_wf [OF wf] by blast
    then have "t_cursor_x u \<noteq> t_column_count u - 1"
      using one [OF u(2)] by simp
    moreover from this have "term_put_char ch t = term_put_char ch u"
      using True u one [OF wf] one [OF u(2)] by (simp add: term_put_char_def)
    ultimately show ?thesis
      using row [OF u(2)] u(3) same_size_trans by (metis (no_types))
  next
    case False
    then show ?thesis
      using row [OF wf] by simp
  qed
qed

lemma set_char_delete:
  assumes wf: "term_wf t" and line: "l_chars (t_lines t ! y) = l @ c # r" "r \<noteq> []" and y: "y < t_row_count t"
  shows "\<exists>ln. set_char y (length l) (CHR 0x08) t = Some (t\<lparr>t_lines := (t_lines t)[y := ln]\<rparr>) \<and>
    line_wf (t_column_count t) ln \<and> l_chars ln = l @ r @ [last r]"
proof -
  have ln: "line_wf (t_column_count t) (t_lines t ! y)" "t_column_count t < 2 ^ 32" "y < length (t_lines t)"
    using wf term_wf_line [OF wf y] y by (simp_all add: term_wf_def)
  obtain cs where "line_set_char (length l) (CHR 0x08) (t_lines t ! y) =
      Some ((t_lines t ! y)\<lparr>l_chars := l @ r @ [last r], l_colours := cs, l_dirty := True\<rparr>)" "length cs = t_column_count t"
    using line_delete [OF line _ _ refl] ln by (auto simp: line_wf_def)
  then show ?thesis
    using ln line
    by (intro exI [of _ "(t_lines t ! y)\<lparr>l_chars := l @ r @ [last r], l_colours := cs, l_dirty := True\<rparr>"])
      (simp add: set_char_def line_wf_def)
qed

lemma backspace_row:
  assumes wf: "term_wf t" and line: "l_chars (cursor_line t) = l @ c # r" "t_cursor_x t = length l + 1"
  shows "\<exists>t'. term_backspace t = Some t' \<and> term_wf t' \<and> same_size t t' \<and> l_chars (cursor_line t') = l @ r @ [last r] \<and>
    t_cursor_x t' = length l \<and> t_cursor_y t' = t_cursor_y t \<and>
    (\<forall>y. y \<noteq> t_cursor_y t \<longrightarrow> t_lines t' ! y = t_lines t ! y)"
proof -
  let ?y = "t_cursor_y t"
  have y: "?y < t_row_count t" "?y < length (t_lines t)" and x: "length l + 1 < t_column_count t"
    and "line_wf (t_column_count t) (cursor_line t)"
    using wf term_wf_line [OF wf, of ?y] line(2) by (simp_all add: term_wf_def)
  then have "r \<noteq> []"
    using line(1) by (auto simp: line_wf_def)
  let ?t = "t\<lparr>t_cursor_x := length l\<rparr>"
  have "term_wf ?t"
    using wf x by (simp add: term_wf_def)
  then obtain ln where ln: "set_char ?y (length l) (CHR 0x08) ?t = Some (?t\<lparr>t_lines := (t_lines ?t)[?y := ln]\<rparr>)"
      "line_wf (t_column_count t) ln" "l_chars ln = l @ r @ [last r]"
    using set_char_delete [of ?t ?y l c r] line(1) \<open>r \<noteq> []\<close> y(1) by auto
  have "sub32 (Suc (length l)) 1 = length l"
    using wf x by (simp add: term_wf_def wrap_simps)
  then have "term_backspace t = Some (?t\<lparr>t_lines := (t_lines t)[?y := ln]\<rparr>)"
    using ln(1) line(2) by (simp add: term_backspace_def Let_def)
  moreover have "term_wf (?t\<lparr>t_lines := (t_lines ?t)[?y := ln]\<rparr>)"
    using \<open>term_wf ?t\<close> ln(2) by (intro term_wf_lines) simp_all
  ultimately show ?thesis
    using ln(3) y by (simp add: same_size_def)
qed

lemma term_backspace_wf:
  assumes wf: "term_wf t"
  shows "\<exists>t'. term_backspace t = Some t' \<and> term_wf t' \<and> same_size t t'"
proof (cases "t_cursor_x t")
  case (Suc x)
  have "x < length (l_chars (cursor_line t))"
    using wf term_wf_line [OF wf, of "t_cursor_y t"] Suc by (simp add: term_wf_def line_wf_def)
  then show ?thesis
    using backspace_row [OF wf id_take_nth_drop] Suc by auto
next
  case 0
  define y where "y = (if t_cursor_y t > 0 then t_cursor_y t - 1 else t_cursor_y t)"
  let ?x = "t_column_count t - 2"
  let ?cs = "l_chars (t_lines t ! y)"
  let ?t = "t\<lparr>t_cursor_y := y, t_cursor_x := ?x\<rparr>"
  have y: "y < t_row_count t" and cols: "2 \<le> t_column_count t" "t_column_count t < 2 ^ 32"
    using wf by (auto simp: term_wf_def y_def)
  then have len: "?x < length ?cs" "length ?cs = t_column_count t"
    using term_wf_line [OF wf y] by (simp_all add: line_wf_def)
  have wf': "term_wf ?t"
    using wf y cols by (auto simp: term_wf_def)
  have "drop (Suc ?x) ?cs \<noteq> []"
    using len cols by simp
  then obtain ln where ln: "set_char y ?x (CHR 0x08) ?t = Some (?t\<lparr>t_lines := (t_lines ?t)[y := ln]\<rparr>)"
      "line_wf (t_column_count t) ln"
    using set_char_delete [OF wf' _ _, of y "take ?x ?cs" "?cs ! ?x" "drop (Suc ?x) ?cs"] id_take_nth_drop [OF len(1)] y len(1)
    by auto
  have "sub32 (t_column_count t) 1 = t_column_count t - 1" "sub32 (t_column_count t - 1) 1 = ?x"
    using cols by (simp_all add: wrap_simps)
  then have "term_backspace t = set_char y ?x (CHR 0x08) ?t"
    using 0 by (cases "t_cursor_y t > 0") (simp_all add: term_backspace_def Let_def y_def)
  moreover have "term_wf (?t\<lparr>t_lines := (t_lines ?t)[y := ln]\<rparr>)"
    using wf' ln(2) by (intro term_wf_lines) simp_all
  ultimately show ?thesis
    using ln(1) by (simp add: same_size_def)
qed

section \<open>Drawing stays inside the frame buffer\<close>

definition fb_ok :: "nat \<Rightarrow> nat \<Rightarrow> framebuffer \<Rightarrow> bool" where
  "fb_ok w h fb \<longleftrightarrow> fb_width fb = w \<and> fb_height fb = h \<and> w * h \<le> length (fb_back fb) \<and> length (fb_back fb) < 2 ^ 32"

text \<open>Every glyph lies inside the cell of its character.\<close>

definition glyph_fits :: "font \<Rightarrow> font_glyph \<Rightarrow> bool" where
  "glyph_fits font g \<longleftrightarrow> g_width g * g_height g \<le> length (g_bitmap g) \<and> length (g_bitmap g) < 2 ^ 32 \<and>
     0 \<le> g_left g \<and> g_left g + int (g_width g) \<le> int (f_advance font) \<and>
     g_top g \<le> int (f_ascender font) \<and> int (f_ascender font) - g_top g + int (g_height g) \<le> int (f_line_height font)"

definition font_fits :: "font \<Rightarrow> bool" where
  "font_fits font \<longleftrightarrow> 0 < f_advance font \<and> 2 \<le> f_line_height font \<and> (\<forall>ch. glyph_fits font (f_glyph font ch))"

text \<open>The cells of the terminal lie inside the frame buffer.\<close>

definition cells_fit :: "font \<Rightarrow> terminal \<Rightarrow> nat \<Rightarrow> nat \<Rightarrow> bool" where
  "cells_fit font t w h \<longleftrightarrow> t_column_count t * f_advance font \<le> w \<and> t_row_count t * f_line_height font \<le> h \<and> w < 2 ^ 32 \<and> h < 2 ^ 32"

lemma cell_bound:
  fixes a n i x :: nat
  assumes "n * a \<le> w" and "i < n" and "x < a"
  shows "i * a + x < w"
proof -
  have "i * a + x < Suc i * a"
    using assms(3) by simp
  also have "\<dots> \<le> n * a"
    using assms(2) by (intro mult_right_mono) simp_all
  finally show ?thesis
    using assms(1) by simp
qed

lemma fb_set_ok:
  assumes "fb_ok w h fb" and "x < w" and "y < h"
  shows "\<exists>fb'. fb_set x y colour fb = Some fb' \<and> fb_ok w h fb'"
proof -
  have i: "y * w + x < length (fb_back fb)" "length (fb_back fb) < 2 ^ 32"
    using cell_bound [of h w "w * h" y x] assms by (simp_all add: fb_ok_def mult.commute)
  then have "add32 (mul32 y w) x = y * w + x"
    by (simp add: wrap_simps)
  then show ?thesis
    using assms i by (simp add: fb_set_def fb_ok_def)
qed

lemma clear_row_ok:
  assumes "fb_ok w h fb" and "y < h"
  shows "\<exists>fb'. clear_row 0 w y fb = Some fb' \<and> fb_ok w h fb'"
proof -
  have "y * w + w \<le> h * w"
    using mult_right_mono [of "Suc y" h w] assms(2) by simp
  then have i: "y * w + w \<le> length (fb_back fb)" "y * w < 2 ^ 32"
    using assms by (auto simp: fb_ok_def mult.commute)
  then have "add32 (mul32 y w) 0 = y * w"
    by (simp add: wrap_simps)
  then show ?thesis
    using assms i by (simp add: clear_row_def fb_ok_def)
qed

lemma clear_region_ok:
  assumes "fb_ok w h fb" and "y + height \<le> h" and "h < 2 ^ 32"
  shows "\<exists>fb'. clear_region 0 y w height fb = Some fb' \<and> fb_ok w h fb'"
proof -
  have "add32 y height = y + height"
    using assms by (simp add: wrap_simps)
  moreover have "\<exists>fb'. for_each (clear_row 0 w) [y..<y + height] fb = Some fb' \<and> fb_ok w h fb'"
    using assms clear_row_ok by (intro for_each_total) auto
  ultimately show ?thesis
    by (auto simp: clear_region_def fb_ok_def)
qed

lemma draw_cursor_ok:
  assumes "fb_ok w h fb" and "cells_fit font t w h" and "font_fits font" and "t_cursor_x t < t_column_count t" "t_cursor_y t < t_row_count t"
  shows "\<exists>fb'. draw_cursor font colour t fb = Some fb' \<and> fb_ok w h fb'"
proof -
  let ?a = "f_advance font" and ?lh = "f_line_height font"
  have x: "t_cursor_x t * ?a + x < w" if "x < ?a" for x
    using cell_bound [of "t_column_count t" ?a w _ x] assms that by (simp add: cells_fit_def)
  have y: "t_cursor_y t * ?lh + y < h" if "y < ?lh" for y
    using cell_bound [of "t_row_count t" ?lh h _ y] assms that by (simp add: cells_fit_def)
  have bounds: "w < 2 ^ 32" "h < 2 ^ 32" "0 < ?a" "2 \<le> ?lh"
    using assms by (simp_all add: cells_fit_def font_fits_def)
  then have "?lh < 2 ^ 32"
    using y [of "?lh - 1"] by simp
  then have rows: "sub32 ?lh 2 = ?lh - 2"
    using bounds by (simp add: wrap_simps)
  have "\<exists>t'. fb_set (add32 (mul32 (t_cursor_x t) ?a) x) (add32 (mul32 (t_cursor_y t) ?lh) y) colour u = Some t' \<and> fb_ok w h t'"
    if "x < ?a" "y < ?lh" "fb_ok w h u" for x y u
  proof -
    have "add32 (mul32 (t_cursor_x t) ?a) x = t_cursor_x t * ?a + x" "add32 (mul32 (t_cursor_y t) ?lh) y = t_cursor_y t * ?lh + y"
      using x [OF that(1)] y [OF that(2)] bounds by (simp_all add: wrap_simps)
    then show ?thesis
      using fb_set_ok [OF that(3) x [OF that(1)] y [OF that(2)]] by simp
  qed
  then show ?thesis
    unfolding draw_cursor_def rows using assms(1) by (intro for_each_total) auto
qed

lemma draw_pixel_ok:
  assumes "fb_ok w h fb" and "cells_fit font t w h" and "glyph_fits font g"
    and "row < t_row_count t" and "col < t_column_count t" and "y1 < g_height g" and "x1 < g_width g"
  shows "\<exists>fb'. draw_pixel font g colour row col y1 x1 fb = Some fb' \<and> fb_ok w h fb'"
proof -
  let ?a = "f_advance font" and ?lh = "f_line_height font"
  let ?x = "nat (int x1 + g_left g)" and ?y = "nat (int y1 + int (f_ascender font) - g_top g)"
  have g: "int ?x = int x1 + g_left g" "int ?y = int y1 + int (f_ascender font) - g_top g" "?x < ?a" "?y < ?lh"
    "w < 2 ^ 32" "h < 2 ^ 32"
    using assms by (auto simp: glyph_fits_def cells_fit_def)
  have x: "col * ?a + ?x < w" and y: "row * ?lh + ?y < h"
    using cell_bound [of "t_column_count t" ?a w col ?x] cell_bound [of "t_row_count t" ?lh h row ?y] assms g(3,4)
    by (simp_all add: cells_fit_def)
  have u32: "to_u32 (int n) = n" if "n < 2 ^ 32" for n
    using that by (simp add: to_u32_def nat_mod_as_int [symmetric] flip: of_nat_mod)
  have "int (x1 + col * ?a) + g_left g = int (col * ?a + ?x)"
    "int (y1 + row * ?lh + f_ascender font) - g_top g = int (row * ?lh + ?y)"
    using g(1,2) by simp_all
  then have "to_u32 (int (x1 + col * ?a) + g_left g) = col * ?a + ?x"
    "to_u32 (int (y1 + row * ?lh + f_ascender font) - g_top g) = row * ?lh + ?y"
    using u32 x y g(5,6) by (metis less_trans)+
  moreover have i: "y1 * g_width g + x1 < length (g_bitmap g)" "length (g_bitmap g) < 2 ^ 32"
    using cell_bound [of "g_height g" "g_width g" "length (g_bitmap g)" y1 x1] assms by (simp_all add: glyph_fits_def mult.commute)
  then have "add32 (mul32 y1 (g_width g)) x1 = y1 * g_width g + x1"
    by (simp add: wrap_simps)
  ultimately show ?thesis
    using fb_set_ok [OF assms(1) x y] i by (simp add: draw_pixel_def Let_def)
qed

lemma draw_char_ok:
  assumes "fb_ok w h fb" and "cells_fit font t w h" and "font_fits font" and "line_wf (t_column_count t) ln"
    and "row < t_row_count t" and "col < t_column_count t"
  shows "\<exists>fb'. draw_char font ln row col fb = Some fb' \<and> fb_ok w h fb'"
proof -
  let ?g = "f_glyph font (l_chars ln ! col)"
  have fits: "glyph_fits font ?g"
    using assms(3) by (simp add: font_fits_def)
  have "\<exists>fb'. for_each (\<lambda>y1. for_each (draw_pixel font ?g (l_colours ln ! col) row col y1) [0..<g_width ?g]) [0..<g_height ?g] fb = Some fb' \<and>
      fb_ok w h fb'"
    using assms(1) draw_pixel_ok [OF _ assms(2) fits assms(5,6)] by (intro for_each_total) auto
  then show ?thesis
    using assms by (simp add: draw_char_def line_wf_def Let_def)
qed

text \<open>What drawing leaves of a terminal: everything but the marks of the lines.\<close>

definition same_text :: "terminal \<Rightarrow> terminal \<Rightarrow> bool" where
  "same_text t t' \<longleftrightarrow> same_size t t' \<and> t_cursor_x t' = t_cursor_x t \<and> t_cursor_y t' = t_cursor_y t \<and> t_colour t' = t_colour t \<and>
     map l_chars (t_lines t') = map l_chars (t_lines t) \<and> map l_colours (t_lines t') = map l_colours (t_lines t)"

lemma same_text_refl [simp]: "same_text t t"
  by (simp add: same_text_def)

lemma same_text_trans: "same_text t t' \<Longrightarrow> same_text t' t'' \<Longrightarrow> same_text t t''"
  by (auto simp: same_text_def intro: same_size_trans)

lemma same_text_wf: "same_text t t' \<Longrightarrow> term_wf t \<Longrightarrow> term_wf t'"
  by (auto simp: same_text_def same_size_def term_wf_def list_all_length line_wf_def dest: map_eq_imp_length_eq)
    (metis length_map nth_map)+

lemma same_text_fit:
  "same_text t t' \<Longrightarrow> term_wf t \<Longrightarrow> cells_fit font t w h \<Longrightarrow>
   term_wf t' \<and> cells_fit font t' w h \<and> t_row_count t' = t_row_count t"
  using same_text_wf by (auto simp: cells_fit_def same_text_def same_size_def)

lemma set_line_dirty_ok:
  "row < length (t_lines t) \<Longrightarrow> \<exists>t'. set_line_dirty row d t = Some t' \<and> same_text t t' \<and>
     map l_dirty (t_lines t') = (map l_dirty (t_lines t))[row := d]"
  using list_update_id [of "map l_chars (t_lines t)" row] list_update_id [of "map l_colours (t_lines t)" row]
  by (simp add: set_line_dirty_def same_text_def same_size_def map_update)

text \<open>The lines below \<open>k\<close> are drawn.\<close>

definition drawn :: "nat \<Rightarrow> terminal \<Rightarrow> bool" where
  "drawn k t \<longleftrightarrow> (\<forall>row < k. \<not> l_dirty (t_lines t ! row))"

lemma draw_line_ok:
  assumes wf: "term_wf t" and fb: "fb_ok w h fb" and fit: "cells_fit font t w h" "font_fits font" and row: "row < t_row_count t" and "drawn row t"
  shows "\<exists>t' fb'. draw_line font row (t, fb) = Some (t', fb') \<and> same_text t t' \<and> fb_ok w h fb' \<and> drawn (Suc row) t'"
proof (cases "l_dirty (t_lines t ! row)")
  case False
  then show ?thesis
    using assms by (simp add: draw_line_def drawn_def less_Suc_eq)
next
  case True
  have len: "row < length (t_lines t)"
    using wf row by (simp add: term_wf_def)
  then obtain t' where t': "set_line_dirty row False t = Some t'" "same_text t t'"
      "map l_dirty (t_lines t') = (map l_dirty (t_lines t))[row := False]"
    using set_line_dirty_ok by blast
  have wf': "term_wf t'" and size: "t_column_count t' = t_column_count t" "t_row_count t' = t_row_count t"
    using same_text_wf [OF t'(2) wf] t'(2) by (simp_all add: same_text_def same_size_def)
  let ?ln = "t_lines t' ! row"
  have ln: "line_wf (t_column_count t) ?ln"
    using term_wf_line [OF wf', of row] row size by simp
  have "\<exists>fb'. for_each (draw_char font ?ln row) [0..<length (l_chars ?ln)] fb = Some fb' \<and> fb_ok w h fb'"
    using fb ln draw_char_ok [OF _ fit ln row] by (intro for_each_total) (auto simp: line_wf_def)
  moreover have "drawn (Suc row) t'"
    unfolding drawn_def
  proof (intro allI impI)
    fix k
    assume "k < Suc row"
    then have "k < length (t_lines t)" "k < length (t_lines t')"
      using len arg_cong [OF t'(3), of length] by simp_all
    then show "\<not> l_dirty (t_lines t' ! k)"
      using \<open>k < Suc row\<close> arg_cong [OF t'(3), of "\<lambda>ds. ds ! k"] assms(6) len
      by (cases "k = row") (auto simp: drawn_def)
  qed
  ultimately show ?thesis
    using True t' by (auto simp: draw_line_def Let_def)
qed

lemma draw_lines_ok:
  assumes wf: "term_wf t" and fb: "fb_ok w h fb" and fit: "cells_fit font t w h" "font_fits font" and "k \<le> t_row_count t"
  shows "\<exists>t' fb'. for_each (draw_line font) [0..<k] (t, fb) = Some (t', fb') \<and> same_text t t' \<and> fb_ok w h fb' \<and> drawn k t'"
  using assms(5)
proof (induction k)
  case 0
  then show ?case
    using fb by (simp add: drawn_def)
next
  case (Suc k)
  then obtain u v where u: "for_each (draw_line font) [0..<k] (t, fb) = Some (u, v)" "same_text t u" "fb_ok w h v" "drawn k u"
    by auto
  then have "term_wf u" "cells_fit font u w h" "k < t_row_count u"
    using same_text_fit wf fit(1) Suc.prems by (metis Suc_le_eq)+
  then obtain u' v' where "draw_line font k (u, v) = Some (u', v')" "same_text u u'" "fb_ok w h v'" "drawn (Suc k) u'"
    using draw_line_ok [OF _ u(3) _ fit(2) _ u(4)] by blast
  then show ?case
    using u same_text_trans by (auto simp: for_each_append)
qed

lemma render_ok:
  assumes wf: "term_wf t" and fb: "fb_ok w h fb" and fit: "cells_fit font t w h" "font_fits font"
  shows "\<exists>t' fb'. render font (t, fb) = Some (t', fb') \<and> same_text t t' \<and> fb_ok w h fb' \<and> drawn (t_row_count t) t'"
proof -
  let ?lh = "f_line_height font" and ?n = "t_row_count t"
  have len: "length (t_lines t) = ?n" "t_cursor_y t < ?n"
    using wf by (simp_all add: term_wf_def)
  have "\<exists>u'. (if \<not> l_dirty (t_lines t ! row) then Some u else clear_region 0 (mul32 row ?lh) (fb_width u) ?lh u) = Some u' \<and> fb_ok w h u'"
    if "row < ?n" "fb_ok w h u" for row u
  proof -
    have "row * ?lh + ?lh \<le> ?n * ?lh"
      using mult_right_mono [of "Suc row" ?n ?lh] that(1) by simp
    then have "row * ?lh + ?lh \<le> h" "h < 2 ^ 32"
      using fit by (auto simp: cells_fit_def)
    then show ?thesis
      using clear_region_ok [of w h u "row * ?lh" ?lh] that(2) by (auto simp: wrap_simps fb_ok_def)
  qed
  then have "\<exists>fb1. for_each (\<lambda>row u. if \<not> l_dirty (t_lines t ! row) then Some u
      else clear_region 0 (mul32 row ?lh) (fb_width u) ?lh u) [0..<?n] fb = Some fb1 \<and> fb_ok w h fb1"
    using fb by (intro for_each_total) auto
  then obtain fb1 where fb1: "for_each (\<lambda>row u. if \<not> l_dirty (t_lines t ! row) then Some u
      else clear_region 0 (mul32 row ?lh) (fb_width u) ?lh u) [0..<?n] fb = Some fb1" "fb_ok w h fb1"
    by blast
  obtain t1 where t1: "set_line_dirty (t_cursor_y t) True t = Some t1" "same_text t t1"
    using set_line_dirty_ok len by metis
  then have t1_same: "term_wf t1" "cells_fit font t1 w h" "t_row_count t1 = ?n"
    using same_text_fit wf fit(1) by blast+
  obtain fb2 where fb2: "draw_cursor font 0xffffffff t1 fb1 = Some fb2" "fb_ok w h fb2"
    using draw_cursor_ok [OF fb1(2) t1_same(2) fit(2)] t1_same(1) by (auto simp: term_wf_def)
  obtain t' fb' where "for_each (draw_line font) [0..<?n] (t1, fb2) = Some (t', fb')" "same_text t1 t'"
      "fb_ok w h fb'" "drawn ?n t'"
    using draw_lines_ok [OF t1_same(1) fb2(2) t1_same(2) fit(2), of ?n] t1_same(3) by auto
  then show ?thesis
    using fb1(1) t1 t1_same fb2(1) len same_text_trans by (auto simp: render_def term_wf_def)
qed

section \<open>The console stays well-formed\<close>

definition console_wf :: "font \<Rightarrow> nat \<Rightarrow> nat \<Rightarrow> console \<Rightarrow> bool" where
  "console_wf font w h c \<longleftrightarrow> term_wf (c_default c) \<and> term_wf (c_alternate c) \<and> cells_fit font (c_default c) w h \<and>
     cells_fit font (c_alternate c) w h \<and> fb_ok w h (c_fb c)"

text \<open>
  Whether a character, read in this state, completes a sequence that moves the cursor off the screen: a
  move to the left in the first column or to the right in the last one, or a position outside.
\<close>

definition leaves_screen :: "char \<Rightarrow> console \<Rightarrow> bool" where
  "leaves_screen ch c \<longleftrightarrow>
     (let p = c_parser c; t = c_terminal c; params = p_params p @ [p_current_param p]
      in p_in_escape p \<and>
         (ch = CHR ''D'' \<and> t_cursor_x t = 0 \<or> ch = CHR ''C'' \<and> t_cursor_x t + 1 = t_column_count t \<or>
          ch = CHR ''H'' \<and> length params = 2 \<and>
            \<not> (unat (params ! 1) < t_column_count t \<and> unat (params ! 0) < t_row_count t)))"

fun stays_on_screen :: "string \<Rightarrow> console \<Rightarrow> bool" where
  "stays_on_screen [] c \<longleftrightarrow> True"
| "stays_on_screen (ch # s) c \<longleftrightarrow> \<not> leaves_screen ch c \<and>
     (case console_char ch c of None \<Rightarrow> True | Some c' \<Rightarrow> stays_on_screen s c')"

lemma console_wf_terminal:
  "console_wf font w h c \<Longrightarrow> term_wf (c_terminal c) \<and> cells_fit font (c_terminal c) w h"
  by (simp add: console_wf_def c_terminal_def)

lemma console_wf_set:
  "console_wf font w h c \<Longrightarrow> term_wf t \<Longrightarrow> same_size (c_terminal c) t \<Longrightarrow> console_wf font w h (set_terminal t c)"
  by (auto simp: console_wf_def set_terminal_def c_terminal_def same_size_def cells_fit_def)

lemma console_wf_parser [simp]: "console_wf font w h (c\<lparr>c_parser := p\<rparr>) \<longleftrightarrow> console_wf font w h c"
  by (simp add: console_wf_def)

lemma c_terminal_parser [simp]: "c_terminal (c\<lparr>c_parser := p\<rparr>) = c_terminal c"
  by (simp add: c_terminal_def)

lemma console_wf_warn [simp]: "console_wf font w h (warn s args c) \<longleftrightarrow> console_wf font w h c"
  by (simp add: console_wf_def warn_def)

lemma private_mode_wf:
  assumes "console_wf font w h c"
  shows "console_wf font w h (private_mode enable c)"
proof -
  let ?c = "c\<lparr>c_use_alternate := enable\<rparr>"
  have wf: "console_wf font w h ?c"
    using assms by (simp add: console_wf_def)
  note t = console_wf_terminal [OF this, THEN conjunct1]
  have "same_size (c_terminal ?c) (set_dirty_all (c_terminal ?c))"
    by (simp add: set_dirty_all_def same_size_def)
  then have "console_wf font w h (set_terminal (set_dirty_all (c_terminal ?c)) ?c)"
    using t wf by (intro console_wf_set) simp_all
  moreover have "console_wf font w h (set_terminal (term_clear (c_terminal ?c)) ?c)"
    using term_clear_wf [OF t] wf by (intro console_wf_set) simp_all
  ultimately show ?thesis
    using assms by (cases enable) (simp_all add: private_mode_def Let_def)
qed

lemma select_graphic_wf:
  assumes "console_wf font w h c"
  shows "console_wf font w h (select_graphic c)"
proof -
  have "console_wf font w h (set_terminal (set_colour r g b (c_terminal c')) c')" if "console_wf font w h c'" for r g b c'
    using console_wf_terminal [OF that] that by (intro console_wf_set) (simp_all add: same_size_def set_colour_def term_wf_def)
  then show ?thesis
    using assms by (simp add: select_graphic_def Let_def)
qed

lemma final_char_wf:
  assumes wf: "console_wf font w h c" and "p_in_escape (c_parser c0)" and "c_terminal c0 = c_terminal c"
    and "p_params (c_parser c) = p_params (c_parser c0) @ [p_current_param (c_parser c0)]" and "\<not> leaves_screen ch c0"
  shows "console_wf font w h (final_char ch c)"
proof -
  let ?t = "c_terminal c"
  have t: "term_wf ?t"
    using console_wf_terminal [OF wf] by simp
  have move: "console_wf font w h (set_terminal (?t\<lparr>t_cursor_x := x, t_cursor_y := y\<rparr>) c)"
    if "x < t_column_count ?t" "y < t_row_count ?t" for x y
    using that t wf by (intro console_wf_set) (simp_all add: term_wf_def same_size_def)
  consider "ch = CHR ''D''" | "ch = CHR ''C''" | "ch = CHR ''H''" | "ch = CHR ''J''" | "ch \<notin> {CHR ''D'', CHR ''C'', CHR ''H'', CHR ''J''}"
    by blast
  then show ?thesis
  proof cases
    case 1
    then have "0 < t_cursor_x ?t"
      using assms by (simp add: leaves_screen_def Let_def)
    then have "sub32 (t_cursor_x ?t) 1 = t_cursor_x ?t - 1" "t_cursor_x ?t - 1 < t_column_count ?t" "t_cursor_y ?t < t_row_count ?t"
      using t by (auto simp: term_wf_def wrap_simps)
    then show ?thesis
      using 1 move [of "t_cursor_x ?t - 1" "t_cursor_y ?t"] by (simp add: final_char_def Let_def move_left_def)
  next
    case 2
    then have "t_cursor_x ?t + 1 \<noteq> t_column_count ?t"
      using assms by (simp add: leaves_screen_def Let_def)
    then have "add32 (t_cursor_x ?t) 1 = t_cursor_x ?t + 1" "t_cursor_x ?t + 1 < t_column_count ?t" "t_cursor_y ?t < t_row_count ?t"
      using t by (auto simp: term_wf_def wrap_simps)
    then show ?thesis
      using 2 move [of "t_cursor_x ?t + 1" "t_cursor_y ?t"] by (simp add: final_char_def Let_def move_right_def)
  next
    case 3
    let ?ps = "p_params (c_parser c)"
    have "length ?ps = 2 \<Longrightarrow> unat (?ps ! 1) < t_column_count ?t \<and> unat (?ps ! 0) < t_row_count ?t"
      using assms(2-5) 3 by (simp add: leaves_screen_def Let_def)
    then show ?thesis
      using wf 3 move by (simp add: final_char_def Let_def set_cursor_def)
  next
    case 4
    then show ?thesis
      using term_clear_wf [OF t] wf console_wf_set by (simp add: final_char_def Let_def)
  next
    case 5
    then show ?thesis
      using wf private_mode_wf select_graphic_wf by (simp add: final_char_def Let_def)
  qed
qed

lemma parse_escape_wf:
  assumes "console_wf font w h c" and "\<not> leaves_screen ch c"
  shows "console_wf font w h (snd (parse_escape ch c))"
proof -
  let ?p = "c_parser c"
  let ?c = "c\<lparr>c_parser := \<lparr>p_current_param = 0, p_in_escape = False, p_params = p_params ?p @ [p_current_param ?p]\<rparr>\<rparr>"
  have "p_in_escape ?p \<Longrightarrow> console_wf font w h (final_char ch ?c)"
    using assms by (intro final_char_wf [of font w h _ c]) simp_all
  then show ?thesis
    using assms(1) by (simp add: parse_escape_def Let_def)
qed

lemma on_terminal_wf:
  assumes "console_wf font w h c" and "\<And>t. term_wf t \<Longrightarrow> \<exists>t'. f t = Some t' \<and> term_wf t' \<and> same_size t t'"
  shows "\<exists>c'. on_terminal f c = Some c' \<and> console_wf font w h c'"
  using assms(2) [of "c_terminal c"] console_wf_terminal [OF assms(1)] console_wf_set [OF assms(1)] by (auto simp: on_terminal_def)

lemma console_char_wf:
  assumes "console_wf font w h c" and "\<not> leaves_screen ch c"
  shows "\<exists>c'. console_char ch c = Some c' \<and> console_wf font w h c'"
proof -
  obtain handled c' where p: "parse_escape ch c = (handled, c')"
    by (cases "parse_escape ch c") auto
  then have wf: "console_wf font w h c'"
    using parse_escape_wf [OF assms] by simp
  show ?thesis
    using p wf on_terminal_wf [OF wf term_backspace_wf] on_terminal_wf [OF wf, of "term_put_char ch"] term_put_char_wf
      on_terminal_wf [OF wf, of term_newline] term_newline_wf
    by (simp add: console_char_def) blast
qed

lemma console_chars_wf:
  "console_wf font w h c \<Longrightarrow> stays_on_screen s c \<Longrightarrow> \<exists>c'. for_each console_char s c = Some c' \<and> console_wf font w h c'"
proof (induction s arbitrary: c)
  case (Cons ch s)
  then obtain c' where "console_char ch c = Some c'" "console_wf font w h c'"
    using console_char_wf [of font w h c ch] by auto
  then show ?case
    using Cons by simp
qed simp

text \<open>Every line of the terminal that is shown was drawn.\<close>

definition console_drawn :: "console \<Rightarrow> bool" where
  "console_drawn c \<longleftrightarrow> list_all (\<lambda>ln. \<not> l_dirty ln) (t_lines (c_terminal c))"

lemma with_render_wf:
  assumes wf: "console_wf font w h c" and font: "font_fits font"
  shows "\<exists>c'. with_framebuffer (render font) c = Some c' \<and> console_wf font w h c' \<and> console_drawn c'"
proof -
  note t = console_wf_terminal [OF wf]
  obtain t' fb' where r: "render font (c_terminal c, c_fb c) = Some (t', fb')" "same_text (c_terminal c) t'" "fb_ok w h fb'"
      "drawn (t_row_count (c_terminal c)) t'"
    using render_ok [of "c_terminal c" w h "c_fb c" font] t font wf by (auto simp: console_wf_def)
  have t': "term_wf t'" "same_size (c_terminal c) t'"
    using r(2) t same_text_wf by (auto simp: same_text_def)
  have "console_wf font w h ((set_terminal t' c)\<lparr>c_fb := fb'\<rparr>)"
    using console_wf_set [OF wf t'] r(3) by (simp add: console_wf_def)
  moreover have "console_drawn ((set_terminal t' c)\<lparr>c_fb := fb'\<rparr>)"
    using r(4) t' by (auto simp: console_drawn_def c_terminal_def set_terminal_def list_all_length drawn_def term_wf_def same_size_def)
  ultimately show ?thesis
    using r(1) by (simp add: with_framebuffer_def)
qed

lemma with_clear_cursor_wf:
  assumes wf: "console_wf font w h c" and font: "font_fits font"
  shows "\<exists>c'. with_framebuffer (clear_cursor font) c = Some c' \<and> console_wf font w h c' \<and> same_text (c_terminal c) (c_terminal c') \<and>
    c_parser c' = c_parser c \<and> c_use_alternate c' = c_use_alternate c"
proof -
  let ?t = "c_terminal c"
  note t = console_wf_terminal [OF wf]
  have "t_cursor_y ?t < length (t_lines ?t)"
    using t by (simp add: term_wf_def)
  then obtain t' where t': "set_line_dirty (t_cursor_y ?t) True ?t = Some t'" "same_text ?t t'"
    using set_line_dirty_ok by metis
  then have t'_ok: "term_wf t'" "cells_fit font t' w h" "same_size ?t t'"
    using same_text_fit t by (auto simp: same_text_def)
  then obtain fb' where fb': "draw_cursor font 0 t' (c_fb c) = Some fb'" "fb_ok w h fb'"
    using draw_cursor_ok [of w h "c_fb c" font t' 0] wf font by (auto simp: console_wf_def term_wf_def)
  then have "with_framebuffer (clear_cursor font) c = Some ((set_terminal t' c)\<lparr>c_fb := fb'\<rparr>)"
    using t'(1) by (simp add: with_framebuffer_def clear_cursor_def)
  moreover have "console_wf font w h ((set_terminal t' c)\<lparr>c_fb := fb'\<rparr>)"
    using console_wf_set [OF wf t'_ok(1,3)] fb'(2) by (simp add: console_wf_def)
  ultimately show ?thesis
    using t'(2) by (cases "c_use_alternate c") (simp_all add: c_terminal_def set_terminal_def)
qed

text \<open>Text without escape sequences keeps the cursor on the screen.\<close>

lemma set_terminal_parser [simp]: "c_parser (set_terminal t c) = c_parser c"
  by (simp add: set_terminal_def)

lemma console_char_plain:
  "\<not> p_in_escape (c_parser c) \<Longrightarrow> ch \<noteq> CHR 0x1B \<Longrightarrow>
   console_char ch c = on_terminal (if ch = CHR 0x08 then term_backspace else if ch = CHR 0x0A then term_newline else term_put_char ch) c"
  by (simp add: console_char_def parse_escape_def)

lemma on_terminal_parser: "on_terminal f c = Some c' \<Longrightarrow> c_parser c' = c_parser c"
  by (auto simp: on_terminal_def)

lemma stays_plain: "\<not> p_in_escape (c_parser c) \<Longrightarrow> CHR 0x1B \<notin> set s \<Longrightarrow> stays_on_screen s c"
proof (induction s arbitrary: c)
  case (Cons ch s)
  have "stays_on_screen s c'" if "console_char ch c = Some c'" for c'
  proof -
    have "c_parser c' = c_parser c"
      using that Cons.prems by (auto simp: console_char_plain dest: on_terminal_parser)
    then show ?thesis
      using Cons by simp
  qed
  then show ?case
    using Cons.prems by (simp add: leaves_screen_def Let_def split: option.split)
qed simp

text \<open>Whether the bytes of one read keep the cursor on the screen.\<close>

definition input_stays :: "font \<Rightarrow> string \<Rightarrow> console \<Rightarrow> bool" where
  "input_stays font bytes c =
     (case with_framebuffer (clear_cursor font) c of None \<Rightarrow> True | Some c1 \<Rightarrow> stays_on_screen bytes c1)"


text \<open>A font of two by two pixels, and a console of four columns and two rows.\<close>

definition font_example :: font where
  "font_example = \<lparr>f_advance = 2, f_ascender = 2, f_line_height = 2,
     f_glyph = \<lambda>_. \<lparr>g_width = 2, g_height = 2, g_left = 0, g_top = 2, g_bitmap = [255, 0, 0, 255]\<rparr>\<rparr>"

definition console_example :: console where
  "console_example = console_new font_example (framebuffer_new 8 4 (replicate 32 0) (replicate 32 0))"

lemma console_example_wf: "console_wf font_example 8 4 console_example" "font_fits font_example"
proof -
  let ?fb = "framebuffer_new 8 4 (replicate 32 0) (replicate 32 0)"
  have "term_wf (terminal_new font_example ?fb)"
    by (rule terminal_new_wf) (simp_all add: font_example_def framebuffer_new_def)
  moreover have "cells_fit font_example (terminal_new font_example ?fb) 8 4" "fb_ok 8 4 (fb_clear ?fb)"
    by (simp_all add: cells_fit_def terminal_new_def font_example_def framebuffer_new_def fb_ok_def fb_clear_def Let_def)
  ultimately show "console_wf font_example 8 4 console_example"
    by (simp add: console_wf_def console_example_def console_new_def)
  show "font_fits font_example"
    by (simp add: font_fits_def glyph_fits_def font_example_def)
qed


end
