(* ===== verification/Run_Queue.thy ===== *)
theory Run_Queue
  imports Ring_Buffer
begin

text \<open>
  What the processors share: the spin lock of \<^verbatim>\<open>src/kernel/spin_lock.cc\<close> as a relation between states of all
  processors, and the queue of threads of \<^verbatim>\<open>src/kernel/proc/scheduler.cc\<close>, a ring of 1024 slots with 32-bit
  tickets, once as the operations of a single processor and once as the interleaved atomic steps of several. An operation
  that spins for ever is \<open>None\<close>. Threads are named by their addresses.
\<close>

section \<open>The spin lock\<close>

text \<open>Where a processor is in the code of the lock.\<close>

datatype lock_pc = Outside | Exchanging | Relaxing | Inside

record lock_state =
  lk_value :: u32
  lk_pc :: "nat \<Rightarrow> lock_pc"

definition lock_id :: "nat \<Rightarrow> u32" where
  "lock_id cpu = of_nat cpu + 1"

definition is_locked :: "lock_state \<Rightarrow> bool" where
  "is_locked s \<longleftrightarrow> lk_value s \<noteq> 0"

definition is_locked_by :: "nat \<Rightarrow> lock_state \<Rightarrow> bool" where
  "is_locked_by cpu s \<longleftrightarrow> lk_value s = lock_id cpu"

text \<open>
  One atomic step of processor \<open>cpu\<close>: entering the function, the compare and exchange with its two outcomes, the
  load in the inner loop, and the release. A release whose assertion fails is no step.
\<close>

inductive lock_step :: "nat \<Rightarrow> lock_state \<Rightarrow> lock_state \<Rightarrow> bool" where
  call: "lk_pc s cpu = Outside \<Longrightarrow> lock_step cpu s (s\<lparr>lk_pc := (lk_pc s)(cpu := Exchanging)\<rparr>)"
| acquire: "lk_pc s cpu = Exchanging \<Longrightarrow> lk_value s = 0 \<Longrightarrow>
    lock_step cpu s (s\<lparr>lk_value := lock_id cpu, lk_pc := (lk_pc s)(cpu := Inside)\<rparr>)"
| busy: "lk_pc s cpu = Exchanging \<Longrightarrow> is_locked s \<Longrightarrow> lock_step cpu s (s\<lparr>lk_pc := (lk_pc s)(cpu := Relaxing)\<rparr>)"
| relax: "lk_pc s cpu = Relaxing \<Longrightarrow> is_locked s \<Longrightarrow> lock_step cpu s s"
| retry: "lk_pc s cpu = Relaxing \<Longrightarrow> \<not> is_locked s \<Longrightarrow> lock_step cpu s (s\<lparr>lk_pc := (lk_pc s)(cpu := Exchanging)\<rparr>)"
| release: "lk_pc s cpu = Inside \<Longrightarrow> is_locked_by cpu s \<Longrightarrow>
    lock_step cpu s (s\<lparr>lk_value := 0, lk_pc := (lk_pc s)(cpu := Outside)\<rparr>)"

inductive lock_reachable :: "nat \<Rightarrow> lock_state \<Rightarrow> bool" for n where
  start: "lock_reachable n \<lparr>lk_value = 0, lk_pc = (\<lambda>_. Outside)\<rparr>"
| step: "lock_reachable n s \<Longrightarrow> cpu < n \<Longrightarrow> lock_step cpu s s' \<Longrightarrow> lock_reachable n s'"

definition lock_inv :: "nat \<Rightarrow> lock_state \<Rightarrow> bool" where
  "lock_inv n s \<longleftrightarrow> (\<forall>cpu. lk_pc s cpu = Inside \<longrightarrow> cpu < n \<and> is_locked_by cpu s)"

lemma unat_lock_id: "cpu < n \<Longrightarrow> n < 2 ^ 32 \<Longrightarrow> unat (lock_id cpu) = cpu + 1"
  by (rule of_nat_inverse) (simp_all add: lock_id_def)

lemma lock_id_inj:
  assumes "a < n" and "b < n" and "n < 2 ^ 32" and "lock_id a = lock_id b"
  shows "a = b"
proof -
  have "a + 1 = unat (lock_id a)"
    by (rule unat_lock_id [symmetric, OF assms(1,3)])
  also have "\<dots> = b + 1"
    unfolding assms(4) by (rule unat_lock_id [OF assms(2,3)])
  finally show ?thesis
    by simp
qed

lemma lock_id_neq_0:
  assumes "a < n" and "n < 2 ^ 32"
  shows "lock_id a \<noteq> 0"
proof
  assume "lock_id a = 0"
  with unat_lock_id [OF assms] show False
    by simp
qed

lemma is_locked_by_pc [simp]: "is_locked_by cpu (s\<lparr>lk_pc := f\<rparr>) \<longleftrightarrow> is_locked_by cpu s"
  by (simp add: is_locked_by_def)

lemma lock_inv_unique:
  assumes "lock_inv n s" and "n < 2 ^ 32" and "lk_pc s a = Inside" and "lk_pc s b = Inside"
  shows "b = a"
proof (rule lock_id_inj)
  have "is_locked_by a s" "is_locked_by b s"
    using assms by (simp_all add: lock_inv_def)
  then show "lock_id b = lock_id a"
    by (simp add: is_locked_by_def)
qed (use assms in \<open>simp_all add: lock_inv_def\<close>)

lemma lock_inv_pc: "lock_inv n s \<Longrightarrow> pc \<noteq> Inside \<Longrightarrow> lock_inv n (s\<lparr>lk_pc := (lk_pc s)(cpu := pc)\<rparr>)"
  by (simp add: lock_inv_def)

lemma lock_step_inv:
  assumes "lock_step cpu s s'" and "lock_inv n s" and "cpu < n" and "n < 2 ^ 32"
  shows "lock_inv n s'"
  using assms(1)
proof cases
  case acquire
  have "lk_pc s c \<noteq> Inside" for c
    using acquire(3) assms(2,4) lock_id_neq_0 [of c n] by (auto simp: lock_inv_def is_locked_by_def)
  then show ?thesis
    using acquire(1) assms(3) by (simp add: lock_inv_def is_locked_by_def)
next
  case release
  have "lk_pc s' c \<noteq> Inside" for c
  proof (cases "c = cpu")
    case False
    then have "lk_pc s c \<noteq> Inside"
      using lock_inv_unique [OF assms(2,4) release(2)] by blast
    then show ?thesis
      using False release(1) by simp
  qed (simp add: release(1))
  then show ?thesis
    by (simp add: lock_inv_def)
qed (simp_all add: assms(2) lock_inv_pc)

text \<open>
  C21. The spin lock excludes: with any number of processors whose identifiers fit in the lock word and any
  interleaving of their atomic steps, at most one is inside, the word holds its identifier, and so the
  assertion of the release never fails.
\<close>

theorem spin_lock_excludes:
  assumes "lock_reachable n s" and "n < 2 ^ 32" and "lk_pc s a = Inside"
  shows "is_locked_by a s \<and> (\<forall>b. lk_pc s b = Inside \<longrightarrow> b = a) \<and> (\<exists>s'. lock_step a s s' \<and> \<not> is_locked s')"
proof -
  have inv: "lock_inv n s"
    using assms(1)
  proof induction
    case start
    then show ?case
      by (simp add: lock_inv_def)
  next
    case (step s cpu s')
    then show ?case
      using lock_step_inv assms(2) by blast
  qed
  then have held: "is_locked_by a s"
    using assms(3) by (simp add: lock_inv_def)
  then have "\<exists>s'. lock_step a s s' \<and> \<not> is_locked s'"
    using lock_step.release [OF assms(3)] by (force simp: is_locked_def)
  then show ?thesis
    using held lock_inv_unique [OF inv assms(2,3)] by blast
qed
theorem spin_lock_excludes_witness:
  "\<exists>s. lock_reachable 2 s \<and> lk_pc s 0 = Inside \<and> lk_pc s 1 = Relaxing \<and> is_locked_by 0 s \<and>
     (\<exists>s'. lock_step 0 s s' \<and> \<not> is_locked s')"
proof -
  let ?s1 = "\<lparr>lk_value = 0, lk_pc = (\<lambda>_. Outside)(0 := Exchanging)\<rparr>"
  let ?s2 = "\<lparr>lk_value = 1, lk_pc = (\<lambda>_. Outside)(0 := Inside)\<rparr>"
  let ?s3 = "\<lparr>lk_value = 1, lk_pc = (\<lambda>_. Outside)(0 := Inside, 1 := Exchanging)\<rparr>"
  let ?s4 = "\<lparr>lk_value = 1, lk_pc = (\<lambda>_. Outside)(0 := Inside, 1 := Relaxing)\<rparr>"
  have "lock_reachable 2 ?s1"
    using lock_reachable.step [OF lock_reachable.start, of 0 2] lock_step.call [of "\<lparr>lk_value = 0, lk_pc = (\<lambda>_. Outside)\<rparr>" 0] by simp
  then have "lock_reachable 2 ?s2"
    using lock_reachable.step [of 2 ?s1 0 ?s2] lock_step.acquire [of ?s1 0] by (simp add: lock_id_def)
  then have "lock_reachable 2 ?s3"
    using lock_reachable.step [of 2 ?s2 1 ?s3] lock_step.call [of ?s2 1] by simp
  then have "lock_reachable 2 ?s4"
    using lock_reachable.step [of 2 ?s3 1 ?s4] lock_step.busy [of ?s3 1] by (simp add: is_locked_def)
  then show ?thesis
    using spin_lock_excludes [of 2 ?s4 0] by (intro exI [of _ ?s4]) simp
qed

section \<open>The queue of threads on one processor\<close>

definition k_slot_count :: nat where
  "k_slot_count = 1024"

record priority_queue =
  pq_slots :: "nat option list"
  pq_head :: u32
  pq_tail :: u32

definition pq_new :: priority_queue where
  "pq_new = \<lparr>pq_slots = replicate k_slot_count None, pq_head = 0, pq_tail = 0\<rparr>"

definition pq_slot :: "u32 \<Rightarrow> nat" where
  "pq_slot ticket = unat ticket mod k_slot_count"

definition pq_enqueue :: "nat \<Rightarrow> priority_queue \<Rightarrow> priority_queue option" where
  "pq_enqueue thread q = do {
     let i = pq_slot (pq_head q);
     ensure (pq_slots q ! i = None);
     Some (q\<lparr>pq_head := pq_head q + 1, pq_slots := (pq_slots q)[i := Some thread]\<rparr>)
   }"

definition pq_dequeue :: "priority_queue \<Rightarrow> (nat option \<times> priority_queue) option" where
  "pq_dequeue q =
     (if sint (pq_head q - pq_tail q) \<le> 0 then Some (None, q)
      else let i = pq_slot (pq_tail q)
           in case pq_slots q ! i of
                None \<Rightarrow> None
              | Some thread \<Rightarrow> Some (Some thread, q\<lparr>pq_tail := pq_tail q + 1, pq_slots := (pq_slots q)[i := None]\<rparr>))"

text \<open>The threads in a queue, first in first out.\<close>

definition pq_rep :: "nat list \<Rightarrow> priority_queue \<Rightarrow> bool" where
  "pq_rep xs q \<longleftrightarrow> length xs \<le> k_slot_count \<and> length (pq_slots q) = k_slot_count \<and>
     pq_head q = pq_tail q + of_nat (length xs) \<and>
     (\<forall>i < k_slot_count. pq_slots q ! ((unat (pq_tail q) + i) mod k_slot_count) = (if i < length xs then Some (xs ! i) else None))"

lemma pq_slot_add: "pq_slot (t + of_nat n) = (unat t + n) mod k_slot_count"
proof -
  have "unat (t + of_nat n) = (unat t + n) mod 2 ^ 32"
    by (simp add: unat_word_ariths unat_of_nat mod_add_right_eq)
  then show ?thesis
    by (simp add: pq_slot_def k_slot_count_def mod_mod_cancel)
qed

lemma pq_new_rep: "pq_rep [] pq_new"
  by (simp add: pq_rep_def pq_new_def k_slot_count_def)

lemma pq_enqueue_rep:
  assumes "pq_rep xs q" and "length xs < k_slot_count"
  shows "\<exists>q'. pq_enqueue t q = Some q' \<and> pq_rep (xs @ [t]) q'"
proof -
  let ?n = "length xs" and ?t = "unat (pq_tail q)"
  let ?i = "(?t + ?n) mod k_slot_count"
  let ?q = "q\<lparr>pq_head := pq_head q + 1, pq_slots := (pq_slots q)[?i := Some t]\<rparr>"
  have i: "pq_slot (pq_head q) = ?i"
    using assms(1) by (simp add: pq_rep_def pq_slot_add)
  have "pq_slots q ! ?i = None"
    using assms by (simp add: pq_rep_def)
  then have "pq_enqueue t q = Some ?q"
    by (simp add: pq_enqueue_def i)
  moreover have "pq_slots ?q ! ((?t + j) mod k_slot_count) = (if j < length (xs @ [t]) then Some ((xs @ [t]) ! j) else None)"
    if "j < k_slot_count" for j
  proof (cases "j = ?n")
    case True
    then show ?thesis
      using assms(1) by (simp add: pq_rep_def k_slot_count_def)
  next
    case False
    then have "(?t + j) mod k_slot_count \<noteq> ?i"
      using that assms(2) mod_ring_distinct [of j ?n k_slot_count ?t] mod_ring_distinct [of ?n j k_slot_count ?t] by force
    then show ?thesis
      using assms(1) that False by (auto simp: pq_rep_def nth_append)
  qed
  then have "pq_rep (xs @ [t]) ?q"
    using assms by (simp add: pq_rep_def)
  ultimately show ?thesis
    by blast
qed

lemma pq_enqueue_full:
  assumes "pq_rep xs q" and "length xs = k_slot_count"
  shows "pq_enqueue t q = None"
proof -
  have "pq_slot (pq_head q) = unat (pq_tail q) mod k_slot_count"
    using assms by (simp add: pq_rep_def pq_slot_add)
  moreover have "pq_slots q ! ((unat (pq_tail q) + 0) mod k_slot_count) = Some (xs ! 0)"
    using assms unfolding pq_rep_def by (metis k_slot_count_def less_numeral_extra(1) zero_less_numeral)
  ultimately show ?thesis
    by (simp add: pq_enqueue_def)
qed

lemma sint_small: "n \<le> k_slot_count \<Longrightarrow> sint (of_nat n :: u32) = int n"
  by (simp add: k_slot_count_def signed_of_nat signed_take_bit_int_eq_self)

lemma pq_dequeue_empty: "pq_rep [] q \<Longrightarrow> pq_dequeue q = Some (None, q)"
  by (simp add: pq_rep_def pq_dequeue_def)

lemma pq_dequeue_rep:
  assumes "pq_rep (t # xs) q"
  shows "\<exists>q'. pq_dequeue q = Some (Some t, q') \<and> pq_rep xs q'"
proof -
  let ?n = "length xs" and ?t = "unat (pq_tail q)"
  let ?i = "?t mod k_slot_count"
  let ?q = "q\<lparr>pq_tail := pq_tail q + 1, pq_slots := (pq_slots q)[?i := None]\<rparr>"
  have len: "Suc ?n \<le> k_slot_count" "length (pq_slots q) = k_slot_count"
    and slots: "\<And>j. j < k_slot_count \<Longrightarrow> pq_slots q ! ((?t + j) mod k_slot_count) = (if j < Suc ?n then Some ((t # xs) ! j) else None)"
    using assms by (simp_all add: pq_rep_def)
  have "pq_head q - pq_tail q = of_nat (Suc ?n)"
    using assms by (simp add: pq_rep_def)
  then have "sint (pq_head q - pq_tail q) = int (Suc ?n)"
    using sint_small [OF len(1)] by simp
  moreover have "pq_slots q ! ?i = Some t"
    using slots [of 0] by (simp add: k_slot_count_def)
  ultimately have "pq_dequeue q = Some (Some t, ?q)"
    by (simp add: pq_dequeue_def pq_slot_def)
  moreover have "pq_slots ?q ! ((unat (pq_tail ?q) + j) mod k_slot_count) = (if j < ?n then Some (xs ! j) else None)"
    if j: "j < k_slot_count" for j
  proof -
    have "(unat (pq_tail ?q) + j) mod k_slot_count = (pq_slot (pq_tail q + of_nat 1) + j) mod k_slot_count"
      by (simp add: pq_slot_def mod_add_left_eq)
    also have "\<dots> = (?t + Suc j) mod k_slot_count"
      by (simp only: pq_slot_add mod_add_left_eq) simp
    finally have place: "(unat (pq_tail ?q) + j) mod k_slot_count = (?t + Suc j) mod k_slot_count" .
    show ?thesis
    proof (cases "Suc j < k_slot_count")
      case True
      then have "(?t + Suc j) mod k_slot_count \<noteq> ?i"
        using mod_ring_distinct [of 0 "Suc j" k_slot_count ?t] by force
      then show ?thesis
        using slots [OF True] unfolding place by simp
    next
      case False
      then have "Suc j = k_slot_count" "\<not> j < ?n"
        using j len(1) by simp_all
      then have "(?t + Suc j) mod k_slot_count = ?i"
        by (simp only: mod_add_self2)
      then show ?thesis
        using len(2) \<open>\<not> j < ?n\<close> unfolding place by (simp add: k_slot_count_def)
    qed
  qed
  then have "pq_rep xs ?q"
    using assms by (simp add: pq_rep_def)
  ultimately show ?thesis
    by blast
qed

section \<open>The contract of the queue\<close>

text \<open>Programs of a client, over any queue and over lists; \<open>None\<close> is a client that spins.\<close>

datatype queue_op = Enqueue nat | Dequeue

fun queue_run :: "(nat \<Rightarrow> 'q \<Rightarrow> 'q option) \<Rightarrow> ('q \<Rightarrow> (nat option \<times> 'q) option) \<Rightarrow> queue_op list \<Rightarrow> 'q \<Rightarrow> (nat option list \<times> 'q) option" where
  "queue_run enq deq [] q = Some ([], q)"
| "queue_run enq deq (Enqueue t # ops) q = do { q' \<leftarrow> enq t q; queue_run enq deq ops q' }"
| "queue_run enq deq (Dequeue # ops) q = do {
     (r, q') \<leftarrow> deq q;
     (rs, q'') \<leftarrow> queue_run enq deq ops q';
     Some (r # rs, q'')
   }"

definition list_enqueue :: "nat \<Rightarrow> nat \<Rightarrow> nat list \<Rightarrow> nat list option" where
  "list_enqueue cap t xs = (if length xs < cap then Some (xs @ [t]) else None)"

fun list_dequeue :: "nat list \<Rightarrow> (nat option \<times> nat list) option" where
  "list_dequeue [] = Some (None, [])"
| "list_dequeue (x # xs) = Some (Some x, xs)"

locale bounded_fifo =
  fixes rep :: "nat list \<Rightarrow> 'q \<Rightarrow> bool" and enq :: "nat \<Rightarrow> 'q \<Rightarrow> 'q option" and deq :: "'q \<Rightarrow> (nat option \<times> 'q) option" and cap :: nat
  assumes room: "rep xs q \<Longrightarrow> length xs < cap \<Longrightarrow> \<exists>q'. enq t q = Some q' \<and> rep (xs @ [t]) q'"
    and full: "rep xs q \<Longrightarrow> \<not> length xs < cap \<Longrightarrow> enq t q = None"
    and deq_nil: "rep [] q \<Longrightarrow> deq q = Some (None, q)"
    and deq_cons: "rep (x # xs) q \<Longrightarrow> \<exists>q'. deq q = Some (Some x, q') \<and> rep xs q'"
begin

lemma run_refines:
  "rep xs q \<Longrightarrow>
   (case queue_run (list_enqueue cap) list_dequeue ops xs of
      None \<Rightarrow> queue_run enq deq ops q = None
    | Some (rs, ys) \<Rightarrow> \<exists>q'. queue_run enq deq ops q = Some (rs, q') \<and> rep ys q')"
proof (induction ops arbitrary: xs q)
  case (Cons op ops)
  show ?case
  proof (cases op)
    case (Enqueue t)
    show ?thesis
    proof (cases "length xs < cap")
      case True
      then obtain q' where q': "enq t q = Some q'" "rep (xs @ [t]) q'"
        using room [OF Cons.prems] by blast
      moreover have "list_enqueue cap t xs = Some (xs @ [t])"
        using True by (simp add: list_enqueue_def)
      ultimately show ?thesis
        using Cons.IH [OF q'(2)] by (auto simp: Enqueue split: option.splits)
    next
      case False
      then show ?thesis
        using full [OF Cons.prems] by (simp add: Enqueue list_enqueue_def)
    qed
  next
    case Dequeue
    show ?thesis
    proof (cases xs)
      case Nil
      then show ?thesis
        using Cons.IH [OF Cons.prems] deq_nil [of q] Cons.prems Dequeue
        by (auto split: option.splits Option.bind_splits)
    next
      case (Cons x ys)
      then obtain q' where q': "deq q = Some (Some x, q')" "rep ys q'"
        using deq_cons Cons.prems by metis
      then show ?thesis
        using Cons.IH [OF q'(2)] Dequeue \<open>xs = x # ys\<close> by (auto split: option.splits Option.bind_splits)
    qed
  qed
qed simp

end

interpretation run_queue: bounded_fifo pq_rep pq_enqueue pq_dequeue k_slot_count
proof unfold_locales
  show "pq_enqueue t q = None" if "pq_rep xs q" "\<not> length xs < k_slot_count" for xs q t
  proof (rule pq_enqueue_full [OF that(1)])
    show "length xs = k_slot_count"
      using that by (simp add: pq_rep_def)
  qed
qed (auto intro: pq_enqueue_rep pq_dequeue_empty pq_dequeue_rep)

text \<open>
  C22. On one processor the queue of threads is first in, first out: a program of enqueues and dequeues returns what it
  returns on a list, also across the wrap-around of the 32-bit tickets, and spins for ever exactly when it
  enqueues into a queue that holds 1024 threads.
\<close>

theorem run_queue_fifo:
  assumes "pq_rep xs q"
  shows "case queue_run (list_enqueue k_slot_count) list_dequeue ops xs of
      None \<Rightarrow> queue_run pq_enqueue pq_dequeue ops q = None
    | Some (rs, ys) \<Rightarrow> \<exists>q'. queue_run pq_enqueue pq_dequeue ops q = Some (rs, q') \<and> pq_rep ys q'"
  using assms by (rule run_queue.run_refines)

theorem run_queue_fifo_witness:
  "\<exists>q q'. pq_head q = 0xffffffff \<and> pq_rep [] q \<and>
     queue_run pq_enqueue pq_dequeue [Enqueue 7, Enqueue 8, Dequeue, Dequeue, Dequeue] q = Some ([Some 7, Some 8, None], q') \<and> pq_rep [] q'"
proof -
  let ?q = "pq_new\<lparr>pq_head := 0xffffffff, pq_tail := 0xffffffff\<rparr>"
  have "pq_rep [] ?q"
    by (simp add: pq_rep_def pq_new_def k_slot_count_def)
  from run_queue_fifo [OF this, of "[Enqueue 7, Enqueue 8, Dequeue, Dequeue, Dequeue]"]
  obtain q' where "queue_run pq_enqueue pq_dequeue [Enqueue 7, Enqueue 8, Dequeue, Dequeue, Dequeue] ?q = Some ([Some 7, Some 8, None], q')"
      "pq_rep [] q'"
    by (auto simp: list_enqueue_def k_slot_count_def)
  then show ?thesis
    using \<open>pq_rep [] ?q\<close> by (intro exI [of _ ?q] exI [of _ q']) simp
qed

section \<open>The queue shared by processors\<close>

text \<open>
  The atomic steps of \<open>enqueue\<close> and \<open>dequeue\<close> as processors take them in any order. A processor that holds a thread
  takes a ticket and waits until the slot of the ticket is empty; one that looks for a thread reads the tail,
  compares it with the head, tries to advance it, and then waits until its slot is filled. A processor that was told
  that the queue is empty starts again.
\<close>

datatype queue_pc = Holding nat | Storing u32 nat | Looking | Comparing u32 | Advancing u32 | Taking u32

record queue_state =
  qs_queue :: priority_queue
  qs_pc :: "nat \<Rightarrow> queue_pc"

inductive queue_step :: "nat \<Rightarrow> queue_state \<Rightarrow> queue_state \<Rightarrow> bool" where
  take_head: "qs_pc s cpu = Holding t \<Longrightarrow>
    queue_step cpu s (s\<lparr>qs_queue := q\<lparr>pq_head := pq_head q + 1\<rparr>, qs_pc := (qs_pc s)(cpu := Storing (pq_head q) t)\<rparr>)"
    if "q = qs_queue s"
| store: "qs_pc s cpu = Storing ticket t \<Longrightarrow> pq_slots q ! pq_slot ticket = None \<Longrightarrow>
    queue_step cpu s (s\<lparr>qs_queue := q\<lparr>pq_slots := (pq_slots q)[pq_slot ticket := Some t]\<rparr>, qs_pc := (qs_pc s)(cpu := Looking)\<rparr>)"
    if "q = qs_queue s"
| spin_store: "qs_pc s cpu = Storing ticket t \<Longrightarrow> pq_slots (qs_queue s) ! pq_slot ticket \<noteq> None \<Longrightarrow> queue_step cpu s s"
| load_tail: "qs_pc s cpu = Looking \<Longrightarrow>
    queue_step cpu s (s\<lparr>qs_pc := (qs_pc s)(cpu := Comparing (pq_tail (qs_queue s)))\<rparr>)"
| empty: "qs_pc s cpu = Comparing ticket \<Longrightarrow> sint (pq_head (qs_queue s) - ticket) \<le> 0 \<Longrightarrow>
    queue_step cpu s (s\<lparr>qs_pc := (qs_pc s)(cpu := Looking)\<rparr>)"
| not_empty: "qs_pc s cpu = Comparing ticket \<Longrightarrow> 0 < sint (pq_head (qs_queue s) - ticket) \<Longrightarrow>
    queue_step cpu s (s\<lparr>qs_pc := (qs_pc s)(cpu := Advancing ticket)\<rparr>)"
| advance: "qs_pc s cpu = Advancing ticket \<Longrightarrow> pq_tail q = ticket \<Longrightarrow>
    queue_step cpu s (s\<lparr>qs_queue := q\<lparr>pq_tail := ticket + 1\<rparr>, qs_pc := (qs_pc s)(cpu := Taking ticket)\<rparr>)"
    if "q = qs_queue s"
| lost: "qs_pc s cpu = Advancing ticket \<Longrightarrow> pq_tail (qs_queue s) \<noteq> ticket \<Longrightarrow>
    queue_step cpu s (s\<lparr>qs_pc := (qs_pc s)(cpu := Comparing (pq_tail (qs_queue s)))\<rparr>)"
| take: "qs_pc s cpu = Taking ticket \<Longrightarrow> pq_slots q ! pq_slot ticket = Some t \<Longrightarrow>
    queue_step cpu s (s\<lparr>qs_queue := q\<lparr>pq_slots := (pq_slots q)[pq_slot ticket := None]\<rparr>, qs_pc := (qs_pc s)(cpu := Holding t)\<rparr>)"
    if "q = qs_queue s"
| spin_take: "qs_pc s cpu = Taking ticket \<Longrightarrow> pq_slots (qs_queue s) ! pq_slot ticket = None \<Longrightarrow> queue_step cpu s s"

inductive queue_steps :: "queue_state \<Rightarrow> queue_state \<Rightarrow> bool" where
  refl: "queue_steps s s"
| step: "queue_steps s s' \<Longrightarrow> queue_step cpu s' s'' \<Longrightarrow> queue_steps s s''"

text \<open>Where a thread can be: in a slot, or with a processor that holds or stores it.\<close>

datatype place = Slot nat | Cpu nat

definition pc_thread :: "queue_pc \<Rightarrow> nat option" where
  "pc_thread pc = (case pc of Holding t \<Rightarrow> Some t | Storing _ t \<Rightarrow> Some t | _ \<Rightarrow> None)"

definition contents_at :: "queue_state \<Rightarrow> place \<Rightarrow> nat option" where
  "contents_at s p = (case p of
      Slot i \<Rightarrow> if i < k_slot_count then pq_slots (qs_queue s) ! i else None
    | Cpu c \<Rightarrow> pc_thread (qs_pc s c))"

text \<open>No thread is in two places.\<close>

definition once_only :: "queue_state \<Rightarrow> bool" where
  "once_only s \<longleftrightarrow> length (pq_slots (qs_queue s)) = k_slot_count \<and>
     (\<forall>p p' t. contents_at s p = Some t \<longrightarrow> contents_at s p' = Some t \<longrightarrow> p = p')"

definition moved :: "place \<Rightarrow> place \<Rightarrow> (place \<Rightarrow> nat option) \<Rightarrow> place \<Rightarrow> nat option" where
  "moved p p' f = f(p := None, p' := f p)"

lemma moved_inj:
  assumes "\<forall>a b t. f a = Some t \<longrightarrow> f b = Some t \<longrightarrow> a = b" and "p \<noteq> p'"
  shows "\<forall>a b t. moved p p' f a = Some t \<longrightarrow> moved p p' f b = Some t \<longrightarrow> a = b"
  using assms by (auto simp: moved_def)

lemma moved_ran: "f p' = None \<Longrightarrow> p \<noteq> p' \<Longrightarrow> ran (moved p p' f) = ran f"
  unfolding ran_def moved_def by (auto simp: fun_upd_apply) (metis option.distinct(1))+

lemma pq_slot_less: "pq_slot ticket < k_slot_count"
  by (simp add: pq_slot_def k_slot_count_def)

lemma queue_step_moves:
  assumes "queue_step cpu s s'" and "length (pq_slots (qs_queue s)) = k_slot_count"
  shows "length (pq_slots (qs_queue s')) = k_slot_count \<and>
    (contents_at s' = contents_at s \<or>
     (\<exists>p p'. p \<noteq> p' \<and> contents_at s p' = None \<and> contents_at s' = moved p p' (contents_at s)))"
  using assms(1)
proof cases
  case (store q ticket t)
  then have "contents_at s' = moved (Cpu cpu) (Slot (pq_slot ticket)) (contents_at s)"
    using assms(2) pq_slot_less [of ticket]
    by (auto simp: fun_eq_iff contents_at_def moved_def pc_thread_def nth_list_update split: place.split)
  moreover have "contents_at s (Slot (pq_slot ticket)) = None" "length (pq_slots (qs_queue s')) = k_slot_count"
    using store assms(2) by (simp_all add: contents_at_def)
  ultimately show ?thesis
    by blast
next
  case (take q ticket t)
  then have "contents_at s' = moved (Slot (pq_slot ticket)) (Cpu cpu) (contents_at s)"
    using assms(2) pq_slot_less [of ticket]
    by (auto simp: fun_eq_iff contents_at_def moved_def pc_thread_def nth_list_update split: place.split)
  moreover have "contents_at s (Cpu cpu) = None" "length (pq_slots (qs_queue s')) = k_slot_count"
    using take assms(2) by (simp_all add: contents_at_def pc_thread_def)
  ultimately show ?thesis
    by blast
qed (use assms(2) in \<open>auto simp: fun_eq_iff contents_at_def pc_thread_def split: place.split queue_pc.splits\<close>)



end
