(* ===== verification/Scheduler.thy ===== *)
theory Scheduler
  imports Run_Queue "HOL-Library.Multiset"
begin

text \<open>
  Threads and the scheduler: \<^verbatim>\<open>src/kernel/proc/scheduler.cc\<close>, \<^verbatim>\<open>thread.cc\<close>, \<^verbatim>\<open>thread_blocker.cc\<close> and the life of
  a process in \<^verbatim>\<open>process.cc\<close>, on one processor. Threads are objects with addresses, linked in a ring; processes are
  named by their identifiers. What a blocked thread waits for is asked of the files and sockets through a view of the
  kernel that is an argument. Register contents and stacks are not part of the state.
\<close>

section \<open>Threads\<close>

datatype thread_priority = IdlePriority | NormalPriority

datatype thread_state = Alive | Blocked | Dead

definition priority_index :: "thread_priority \<Rightarrow> nat" where
  "priority_index p = (case p of IdlePriority \<Rightarrow> 0 | NormalPriority \<Rightarrow> 1)"

text \<open>One entry of a poll: the descriptor, and whether reading and writing is of interest.\<close>

record poll_fd =
  pf_fd :: nat
  pf_read :: bool
  pf_write :: bool

datatype blocker =
    AcceptBlocker nat
  | ConnectBlocker nat
  | PollBlocker "poll_fd list" nat "nat option"
  | ReadBlocker nat nat
  | WaitBlocker "nat option"
  | WriteBlocker nat nat

text \<open>
  The state of files and sockets as the blockers see it: the time since boot, and for an address of a server socket, a
  socket or a file what its virtual functions return. A file handle is the file and the offset behind a
  descriptor of a process.
\<close>

record kernel_view =
  kv_ns_since_boot :: nat
  kv_accept_would_block :: "nat \<Rightarrow> bool"
  kv_connected :: "nat \<Rightarrow> bool"
  kv_valid :: "nat \<Rightarrow> bool"
  kv_read_would_block :: "nat \<Rightarrow> nat \<Rightarrow> bool"
  kv_write_would_block :: "nat \<Rightarrow> nat \<Rightarrow> bool"
  kv_file_handle :: "nat \<Rightarrow> nat \<Rightarrow> (nat \<times> nat) option"

definition poll_blocker :: "kernel_view \<Rightarrow> poll_fd list \<Rightarrow> nat \<Rightarrow> int \<Rightarrow> blocker" where
  "poll_blocker kv fds process timeout =
     PollBlocker fds process (if timeout > 0 then Some (add64 (kv_ns_since_boot kv) (nat timeout)) else None)"

fun poll_ready :: "kernel_view \<Rightarrow> nat \<Rightarrow> poll_fd list \<Rightarrow> bool option" where
  "poll_ready kv process [] = Some False"
| "poll_ready kv process (p # ps) = do {
     (f, offset) \<leftarrow> kv_file_handle kv process (pf_fd p);
     if pf_read p \<and> \<not> kv_read_would_block kv f offset then Some True
     else if pf_write p \<and> \<not> kv_write_would_block kv f offset then Some True
     else poll_ready kv process ps
   }"

text \<open>\<open>counts\<close> gives the number of threads of a process.\<close>

definition should_unblock :: "kernel_view \<Rightarrow> (nat \<Rightarrow> nat) \<Rightarrow> blocker \<Rightarrow> bool option" where
  "should_unblock kv counts b =
     (case b of
        AcceptBlocker server \<Rightarrow> Some (\<not> kv_accept_would_block kv server)
      | ConnectBlocker sock \<Rightarrow> Some (kv_connected kv sock)
      | PollBlocker fds process deadline \<Rightarrow>
          if (case deadline of None \<Rightarrow> False | Some d \<Rightarrow> kv_ns_since_boot kv > d) then Some True else poll_ready kv process fds
      | ReadBlocker f offset \<Rightarrow> Some (\<not> kv_valid kv f \<or> \<not> kv_read_would_block kv f offset)
      | WaitBlocker process \<Rightarrow> Some (case process of None \<Rightarrow> True | Some p \<Rightarrow> counts p = 0)
      | WriteBlocker f offset \<Rightarrow> Some (\<not> kv_valid kv f \<or> \<not> kv_write_would_block kv f offset))"

record thread =
  th_process :: nat
  th_state :: thread_state
  th_priority :: thread_priority
  th_blocker :: "blocker option"
  th_prev :: "nat option"
  th_next :: "nat option"

definition try_unblock :: "kernel_view \<Rightarrow> (nat \<Rightarrow> nat) \<Rightarrow> thread \<Rightarrow> thread option" where
  "try_unblock kv counts th =
     (if th_state th \<noteq> Blocked then Some th
      else do {
        b \<leftarrow> th_blocker th;
        u \<leftarrow> should_unblock kv counts b;
        Some (if u then th\<lparr>th_blocker := None, th_state := Alive\<rparr> else th)
      })"

section \<open>The scheduler\<close>

record sched =
  s_thread :: "nat \<rightharpoonup> thread"
  s_base_thread :: nat
  s_blocked_queue :: priority_queue
  s_queues :: "priority_queue list"
  s_current :: nat
  s_thread_count :: "nat \<Rightarrow> nat"
  s_pid_counter :: nat
  s_timer :: nat
  s_space :: nat

definition time_slice_for :: "thread \<Rightarrow> nat" where
  "time_slice_for th = priority_index (th_priority th) + 1"

text \<open>A thread at a fresh address, of a new process.\<close>

definition create_thread :: "nat \<Rightarrow> thread_priority \<Rightarrow> nat \<Rightarrow> sched \<Rightarrow> sched option" where
  "create_thread process priority t s = do {
     ensure (s_thread s t = None);
     Some (s\<lparr>s_thread := (s_thread s)(t \<mapsto> \<lparr>th_process = process, th_state = Alive, th_priority = priority, th_blocker = None,
               th_prev = None, th_next = None\<rparr>),
             s_thread_count := (s_thread_count s)(process := s_thread_count s process + 1)\<rparr>)
   }"

definition create_user :: "thread_priority \<Rightarrow> nat \<Rightarrow> sched \<Rightarrow> sched option" where
  "create_user priority t s = create_thread (s_pid_counter s) priority t (s\<lparr>s_pid_counter := s_pid_counter s + 1\<rparr>)"

definition enqueue_ready :: "nat \<Rightarrow> sched \<Rightarrow> sched option" where
  "enqueue_ready t s = do {
     th \<leftarrow> s_thread s t;
     let k = priority_index (th_priority th);
     q \<leftarrow> pq_enqueue t (s_queues s ! k);
     Some (s\<lparr>s_queues := (s_queues s)[k := q]\<rparr>)
   }"

partial_function (option) requeue_blocked :: "sched \<Rightarrow> sched option" where
  "requeue_blocked s = do {
     (r, q) \<leftarrow> pq_dequeue (s_blocked_queue s);
     (case r of
        None \<Rightarrow> Some (s\<lparr>s_blocked_queue := q\<rparr>)
      | Some t \<Rightarrow> do {
          s' \<leftarrow> enqueue_ready t (s\<lparr>s_blocked_queue := q\<rparr>);
          requeue_blocked s'
        })
   }"

partial_function (option) scan_queue :: "kernel_view \<Rightarrow> nat \<Rightarrow> sched \<Rightarrow> (nat option \<times> sched) option" where
  "scan_queue kv k s = do {
     (r, q) \<leftarrow> pq_dequeue (s_queues s ! k);
     (case r of
        None \<Rightarrow> Some (None, s\<lparr>s_queues := (s_queues s)[k := q]\<rparr>)
      | Some t \<Rightarrow> do {
          th \<leftarrow> s_thread s t;
          th' \<leftarrow> try_unblock kv (s_thread_count s) th;
          let s' = s\<lparr>s_queues := (s_queues s)[k := q], s_thread := (s_thread s)(t \<mapsto> th')\<rparr>;
          (if th_state th' = Alive then Some (Some t, s')
           else do {
             q' \<leftarrow> pq_enqueue t (s_blocked_queue s');
             scan_queue kv k (s'\<lparr>s_blocked_queue := q'\<rparr>)
           })
        })
   }"

definition pick_next :: "kernel_view \<Rightarrow> sched \<Rightarrow> (nat \<times> sched) option" where
  "pick_next kv s = do {
     s1 \<leftarrow> requeue_blocked s;
     (r1, s2) \<leftarrow> scan_queue kv 1 s1;
     (case r1 of
        Some t \<Rightarrow> Some (t, s2)
      | None \<Rightarrow> do {
          (r0, s3) \<leftarrow> scan_queue kv 0 s2;
          (case r0 of Some t \<Rightarrow> Some (t, s3) | None \<Rightarrow> None)
        })
   }"

text \<open>Initialisation makes the idle thread at address \<open>t\<close> and its process.\<close>

definition sched_initialise :: "nat \<Rightarrow> sched" where
  "sched_initialise t =
     \<lparr>s_thread = [t \<mapsto> \<lparr>th_process = 0, th_state = Alive, th_priority = IdlePriority, th_blocker = None,
        th_prev = Some t, th_next = Some t\<rparr>],
      s_base_thread = t, s_blocked_queue = pq_new, s_queues = [pq_new, pq_new], s_current = t,
      s_thread_count = (\<lambda>_. 0)(0 := 1), s_pid_counter = 1, s_timer = 0, s_space = 0\<rparr>"

definition set_next :: "nat \<Rightarrow> nat \<Rightarrow> sched \<Rightarrow> sched option" where
  "set_next a b s = do { th \<leftarrow> s_thread s a; Some (s\<lparr>s_thread := (s_thread s)(a \<mapsto> th\<lparr>th_next := Some b\<rparr>)\<rparr>) }"

definition set_prev :: "nat \<Rightarrow> nat \<Rightarrow> sched \<Rightarrow> sched option" where
  "set_prev a b s = do { th \<leftarrow> s_thread s a; Some (s\<lparr>s_thread := (s_thread s)(a \<mapsto> th\<lparr>th_prev := Some b\<rparr>)\<rparr>) }"

definition insert_thread :: "nat \<Rightarrow> sched \<Rightarrow> sched option" where
  "insert_thread t s = do {
     base \<leftarrow> s_thread s (s_base_thread s);
     last_thread \<leftarrow> th_prev base;
     s1 \<leftarrow> set_prev t last_thread s;
     s2 \<leftarrow> set_next t (s_base_thread s) s1;
     s3 \<leftarrow> set_next last_thread t s2;
     s4 \<leftarrow> set_prev (s_base_thread s) t s3;
     th \<leftarrow> s_thread s4 t;
     if th_priority th \<noteq> IdlePriority then enqueue_ready t s4 else Some s4
   }"

definition unlink_thread :: "thread \<Rightarrow> sched \<Rightarrow> sched option" where
  "unlink_thread th s =
     (case th_prev th of
        None \<Rightarrow> Some s
      | Some p \<Rightarrow> do { n \<leftarrow> th_next th; s' \<leftarrow> set_next p n s; set_prev n p s' })"

definition destroy_thread :: "nat \<Rightarrow> sched \<Rightarrow> sched option" where
  "destroy_thread t s = do {
     th \<leftarrow> s_thread s t;
     s' \<leftarrow> unlink_thread th (s\<lparr>s_thread_count := (s_thread_count s)(th_process th := s_thread_count s (th_process th) - 1)\<rparr>);
     Some (s'\<lparr>s_thread := (s_thread s')(t := None)\<rparr>)
   }"

partial_function (option) from_pid_loop :: "nat \<Rightarrow> nat \<Rightarrow> sched \<Rightarrow> nat option option" where
  "from_pid_loop pid t s = do {
     th \<leftarrow> s_thread s t;
     (if th_process th = pid then Some (Some (th_process th))
      else do {
        n \<leftarrow> th_next th;
        (if n = s_base_thread s then Some None else from_pid_loop pid n s)
      })
   }"

definition from_pid :: "nat \<Rightarrow> sched \<Rightarrow> nat option option" where
  "from_pid pid s = from_pid_loop pid (s_base_thread s) s"

definition wait_blocker :: "nat \<Rightarrow> sched \<Rightarrow> blocker option" where
  "wait_blocker pid s = map_option WaitBlocker (from_pid pid s)"

definition switch_next :: "kernel_view \<Rightarrow> sched \<Rightarrow> sched option" where
  "switch_next kv s = do {
     current \<leftarrow> s_thread s (s_current s);
     s1 \<leftarrow> (if th_state current \<noteq> Dead then enqueue_ready (s_current s) s else Some s);
     (t, s2) \<leftarrow> pick_next kv s1;
     th \<leftarrow> s_thread s2 t;
     let s3 = s2\<lparr>s_space := th_process th\<rparr>;
     s4 \<leftarrow> (if th_state current = Dead then destroy_thread (s_current s) s3 else Some s3);
     Some (s4\<lparr>s_timer := time_slice_for th, s_current := t\<rparr>)
   }"

definition update_current :: "(thread \<Rightarrow> thread) \<Rightarrow> sched \<Rightarrow> sched option" where
  "update_current f s = do { th \<leftarrow> s_thread s (s_current s); Some (s\<lparr>s_thread := (s_thread s)(s_current s \<mapsto> f th)\<rparr>) }"

definition kill :: "thread \<Rightarrow> thread" where
  "kill th = th\<lparr>th_state := Dead\<rparr>"

definition yield_and_kill :: "kernel_view \<Rightarrow> sched \<Rightarrow> sched option" where
  "yield_and_kill kv s = do { s' \<leftarrow> update_current kill s; switch_next kv s' }"

definition thread_block :: "blocker \<Rightarrow> kernel_view \<Rightarrow> sched \<Rightarrow> sched option" where
  "thread_block b kv s = do {
     th \<leftarrow> s_thread s (s_current s);
     ensure (th_state th \<noteq> Blocked);
     s' \<leftarrow> update_current (\<lambda>th. th\<lparr>th_blocker := Some b, th_state := Blocked\<rparr>) s;
     switch_next kv s'
   }"

section \<open>The queues as lists\<close>

definition queued :: "nat list \<Rightarrow> nat list \<Rightarrow> nat list \<Rightarrow> sched \<Rightarrow> bool" where
  "queued B Q0 Q1 s \<longleftrightarrow> pq_rep B (s_blocked_queue s) \<and> length (s_queues s) = 2 \<and> pq_rep Q0 (s_queues s ! 0) \<and> pq_rep Q1 (s_queues s ! 1)"

definition has_priority :: "sched \<Rightarrow> thread_priority \<Rightarrow> nat \<Rightarrow> bool" where
  "has_priority s p t \<longleftrightarrow> (case s_thread s t of None \<Rightarrow> False | Some th \<Rightarrow> th_priority th = p)"

text \<open>What a queue operation may change.\<close>

definition core :: "sched \<Rightarrow> sched" where
  "core s = s\<lparr>s_blocked_queue := pq_new, s_queues := []\<rparr>"

definition only_queues :: "sched \<Rightarrow> sched \<Rightarrow> bool" where
  "only_queues s s' \<longleftrightarrow> core s' = core s"

lemma only_queues_trans: "only_queues s s' \<Longrightarrow> only_queues s' s'' \<Longrightarrow> only_queues s s''"
  by (simp add: only_queues_def core_def)

lemma core_simps [simp]:
  "s_thread (core s) = s_thread s" "s_current (core s) = s_current s" "s_thread_count (core s) = s_thread_count s"
  "s_base_thread (core s) = s_base_thread s"
  by (simp_all add: core_def)

lemma only_queues_simps:
  "only_queues s s' \<Longrightarrow> s_thread s' = s_thread s" "only_queues s s' \<Longrightarrow> s_current s' = s_current s"
  "only_queues s s' \<Longrightarrow> s_thread_count s' = s_thread_count s" "only_queues s s' \<Longrightarrow> s_base_thread s' = s_base_thread s"
  unfolding only_queues_def by (drule arg_cong [of _ _ s_thread] arg_cong [of _ _ s_current] arg_cong [of _ _ s_thread_count] arg_cong [of _ _ s_base_thread], simp)+

lemma only_queues_priority: "only_queues s s' \<Longrightarrow> has_priority s' = has_priority s"
  by (simp add: fun_eq_iff has_priority_def only_queues_simps)

lemma pq_enqueue_Some: "pq_rep xs q \<Longrightarrow> pq_enqueue t q = Some q' \<Longrightarrow> pq_rep (xs @ [t]) q'"
  using run_queue.room [of xs q t] run_queue.full [of xs q t] by (cases "length xs < k_slot_count") auto

lemma enqueue_ready_spec:
  assumes "queued B Q0 Q1 s" and "enqueue_ready t s = Some s'"
  shows "only_queues s s' \<and> queued B (Q0 @ filter (has_priority s IdlePriority) [t]) (Q1 @ filter (has_priority s NormalPriority) [t]) s'"
proof -
  obtain th q where th: "s_thread s t = Some th" "pq_enqueue t (s_queues s ! priority_index (th_priority th)) = Some q"
      "s' = s\<lparr>s_queues := (s_queues s)[priority_index (th_priority th) := q]\<rparr>"
    using assms(2) by (auto simp: enqueue_ready_def Let_def split: Option.bind_splits)
  then have "only_queues s s'"
    by (simp add: only_queues_def core_def)
  moreover have "queued B (Q0 @ filter (has_priority s IdlePriority) [t]) (Q1 @ filter (has_priority s NormalPriority) [t]) s'"
    using assms(1) th pq_enqueue_Some
    by (cases "th_priority th") (auto simp: queued_def has_priority_def priority_index_def)
  ultimately show ?thesis
    by simp
qed

lemma enqueue_ready_room:
  assumes "queued B Q0 Q1 s" and "length Q0 < k_slot_count" and "length Q1 < k_slot_count" and "s_thread s t \<noteq> None"
  shows "enqueue_ready t s \<noteq> None"
proof -
  obtain th where th: "s_thread s t = Some th"
    using assms(4) by auto
  have "pq_enqueue t (s_queues s ! priority_index (th_priority th)) \<noteq> None"
    using assms(1-3) run_queue.room by (cases "th_priority th") (fastforce simp: queued_def priority_index_def)+
  then show ?thesis
    using th by (auto simp: enqueue_ready_def Let_def)
qed

lemma requeue_blocked_spec:
  assumes "queued B Q0 Q1 s" and "\<forall>t\<in>set B. s_thread s t \<noteq> None"
  shows "(\<forall>s'. requeue_blocked s = Some s' \<longrightarrow> only_queues s s' \<and>
      queued [] (Q0 @ filter (has_priority s IdlePriority) B) (Q1 @ filter (has_priority s NormalPriority) B) s') \<and>
    (length B + length Q0 + length Q1 \<le> k_slot_count \<longrightarrow> requeue_blocked s \<noteq> None)"
  using assms
proof (induction B arbitrary: Q0 Q1 s)
  case Nil
  then have "requeue_blocked s = Some s"
    using run_queue.deq_nil by (subst requeue_blocked.simps) (auto simp: queued_def)
  then show ?case
    using Nil by (simp add: only_queues_def core_def)
next
  case (Cons t B)
  obtain q where q: "pq_dequeue (s_blocked_queue s) = Some (Some t, q)" "pq_rep B q"
    using run_queue.deq_cons Cons.prems(1) unfolding queued_def by blast
  let ?s = "s\<lparr>s_blocked_queue := q\<rparr>"
  have s: "queued B Q0 Q1 ?s" "only_queues s ?s"
    using Cons.prems(1) q(2) by (auto simp: queued_def only_queues_def core_def)
  have unfold_loop: "requeue_blocked s = enqueue_ready t ?s \<bind> requeue_blocked"
    using q(1) by (subst requeue_blocked.simps) simp
  show ?case
  proof (cases "enqueue_ready t ?s")
    case None
    then have "k_slot_count \<le> length Q0 \<or> k_slot_count \<le> length Q1"
      using enqueue_ready_room [OF s(1)] Cons.prems(2) by fastforce
    then show ?thesis
      using unfold_loop None by auto
  next
    case (Some s1)
    have s1: "only_queues s s1"
        "queued B (Q0 @ filter (has_priority s IdlePriority) [t]) (Q1 @ filter (has_priority s NormalPriority) [t]) s1"
      using enqueue_ready_spec [OF s(1) Some] only_queues_trans [OF s(2)] only_queues_priority [OF s(2)] by auto
    have "length (filter (has_priority s IdlePriority) [t]) + length (filter (has_priority s NormalPriority) [t]) \<le> 1"
      by (auto simp: has_priority_def split: option.splits)
    then show ?thesis
      using Cons.IH [OF s1(2)] Cons.prems(2) unfold_loop Some only_queues_trans [OF s1(1)] only_queues_priority [OF s1(1)] only_queues_simps [OF s1(1)]
      by auto
  qed
qed

text \<open>A thread is ready when it is alive or what it is blocked on has happened.\<close>

definition ready :: "kernel_view \<Rightarrow> sched \<Rightarrow> nat \<Rightarrow> bool" where
  "ready kv s t \<longleftrightarrow> (case s_thread s t of None \<Rightarrow> False
     | Some th \<Rightarrow> (case try_unblock kv (s_thread_count s) th of None \<Rightarrow> False | Some th' \<Rightarrow> th_state th' = Alive))"

text \<open>Asking the blocker of a thread does not fail.\<close>

definition answers :: "kernel_view \<Rightarrow> sched \<Rightarrow> nat \<Rightarrow> bool" where
  "answers kv s t \<longleftrightarrow> (case s_thread s t of None \<Rightarrow> False | Some th \<Rightarrow> try_unblock kv (s_thread_count s) th \<noteq> None)"

text \<open>After a pick the thread is alive and the others are as they were.\<close>

definition woken :: "nat \<Rightarrow> sched \<Rightarrow> sched \<Rightarrow> bool" where
  "woken t s s' \<longleftrightarrow> (\<exists>th th'. s_thread s t = Some th \<and> th_state th' = Alive \<and> th_priority th' = th_priority th \<and>
     th_process th' = th_process th \<and> th_prev th' = th_prev th \<and> th_next th' = th_next th \<and>
     core s' = (core s)\<lparr>s_thread := (s_thread s)(t \<mapsto> th')\<rparr>)"

lemma try_unblock_not_alive:
  "try_unblock kv counts th = Some th' \<Longrightarrow> th_state th' \<noteq> Alive \<Longrightarrow> th' = th"
  by (auto simp: try_unblock_def split: if_splits Option.bind_splits)

lemma try_unblock_alive:
  "try_unblock kv counts th = Some th' \<Longrightarrow> th_priority th' = th_priority th \<and> th_process th' = th_process th \<and>
   th_prev th' = th_prev th \<and> th_next th' = th_next th"
  by (auto simp: try_unblock_def split: if_splits Option.bind_splits)

lemma only_queues_ready: "only_queues s s' \<Longrightarrow> ready kv s' = ready kv s \<and> answers kv s' = answers kv s"
  by (simp add: fun_eq_iff ready_def answers_def only_queues_simps cong: option.case_cong)

lemma woken_only_queues: "only_queues s s' \<Longrightarrow> woken t s' s'' \<Longrightarrow> woken t s s''"
  by (simp add: woken_def only_queues_simps) (simp add: only_queues_def)

text \<open>The lists after the scan of a queue: nothing was ready, or the first ready thread was picked.\<close>

definition scanned :: "nat \<Rightarrow> nat list \<Rightarrow> nat list \<Rightarrow> nat list \<Rightarrow> sched \<Rightarrow> bool" where
  "scanned k B xs Q s \<longleftrightarrow> pq_rep B (s_blocked_queue s) \<and> length (s_queues s) = 2 \<and> pq_rep xs (s_queues s ! k) \<and> pq_rep Q (s_queues s ! (1 - k))"

lemma scan_queue_spec:
  assumes "scanned k B xs Q s" and "k < 2"
  shows "(\<forall>r s'. scan_queue kv k s = Some (r, s') \<longrightarrow>
      (case dropWhile (\<lambda>t. \<not> ready kv s t) xs of
         [] \<Rightarrow> r = None \<and> only_queues s s' \<and> scanned k (B @ xs) [] Q s'
       | t # ys \<Rightarrow> r = Some t \<and> woken t s s' \<and> scanned k (B @ takeWhile (\<lambda>t. \<not> ready kv s t) xs) ys Q s')) \<and>
    ((\<forall>t\<in>set xs. answers kv s t) \<and> length B + length xs \<le> k_slot_count \<longrightarrow> scan_queue kv k s \<noteq> None)"
  using assms(1)
proof (induction xs arbitrary: B s)
  case Nil
  have "pq_dequeue (s_queues s ! k) = Some (None, s_queues s ! k)"
    using Nil run_queue.deq_nil by (auto simp: scanned_def)
  then have "scan_queue kv k s = Some (None, s)"
    by (subst scan_queue.simps) simp
  then show ?case
    using Nil by (simp add: only_queues_def core_def)
next
  case (Cons t xs)
  obtain q where q: "pq_dequeue (s_queues s ! k) = Some (Some t, q)" "pq_rep xs q"
    using run_queue.deq_cons Cons.prems unfolding scanned_def by blast
  let ?s = "\<lambda>th'. s\<lparr>s_queues := (s_queues s)[k := q], s_thread := (s_thread s)(t \<mapsto> th')\<rparr>"
  consider (none) "\<not> answers kv s t"
    | (alive) th th' where "s_thread s t = Some th" "try_unblock kv (s_thread_count s) th = Some th'" "th_state th' = Alive"
    | (wait) th where "s_thread s t = Some th" "try_unblock kv (s_thread_count s) th = Some th" "th_state th \<noteq> Alive"
  proof (cases "answers kv s t")
    case True
    then obtain th th' where "s_thread s t = Some th" "try_unblock kv (s_thread_count s) th = Some th'"
      by (auto simp: answers_def split: option.splits)
    then show ?thesis
      using that(2,3) try_unblock_not_alive by metis
  qed (rule that(1))
  then show ?case
  proof cases
    case none
    then have "scan_queue kv k s = None"
      using q(1) by (subst scan_queue.simps) (auto simp: answers_def split: option.splits Option.bind_split)
    then show ?thesis
      using none by simp
  next
    case alive
    then have "scan_queue kv k s = Some (Some t, ?s th')"
      using q(1) by (subst scan_queue.simps) (simp add: Let_def)
    moreover have "ready kv s t"
      using alive by (simp add: ready_def)
    moreover have "woken t s (?s th')"
      using alive try_unblock_alive [OF alive(2)] by (auto simp: woken_def core_def)
    moreover have "scanned k B xs Q (?s th')"
      using Cons.prems q(2) assms(2) by (auto simp: scanned_def nth_list_update less_2_cases_iff)
    ultimately show ?thesis
      by simp
  next
    case wait
    have thread: "(s_thread s)(t \<mapsto> th) = s_thread s"
      using wait(1) by (simp add: fun_upd_idem)
    have not_ready: "\<not> ready kv s t"
      using wait by (simp add: ready_def)
    have loop: "scan_queue kv k s = pq_enqueue t (s_blocked_queue s) \<bind> (\<lambda>q'. scan_queue kv k (s\<lparr>s_queues := (s_queues s)[k := q], s_blocked_queue := q'\<rparr>))"
      using q(1) wait thread by (subst scan_queue.simps) (simp add: Let_def)
    show ?thesis
    proof (cases "pq_enqueue t (s_blocked_queue s)")
      case None
      then have "\<not> length B < k_slot_count"
        using run_queue.room [of B "s_blocked_queue s" t] Cons.prems by (auto simp: scanned_def)
      then show ?thesis
        using loop None by simp
    next
      case (Some q')
      let ?s' = "s\<lparr>s_queues := (s_queues s)[k := q], s_blocked_queue := q'\<rparr>"
      have s': "scanned k (B @ [t]) xs Q ?s'"
        using Cons.prems q(2) assms(2) pq_enqueue_Some Some by (auto simp: scanned_def nth_list_update less_2_cases_iff)
      have same: "only_queues s ?s'"
        by (simp add: only_queues_def core_def)
      have "woken u s s''" if "woken u ?s' s''" for u s''
        using woken_only_queues [OF same that] .
      moreover have "only_queues s s''" if "only_queues ?s' s''" for s''
        using only_queues_trans [OF same that] .
      ultimately show ?thesis
        using Cons.IH [OF s'] loop Some not_ready only_queues_ready [OF same, of kv] by (auto split: list.splits)
    qed
  qed
qed

section \<open>Picking the next thread\<close>

text \<open>The lists the scan goes over: the queue of a priority, with the blocked threads of that priority behind.\<close>

definition candidates :: "thread_priority \<Rightarrow> nat list \<Rightarrow> nat list \<Rightarrow> sched \<Rightarrow> nat list" where
  "candidates p Q B s = Q @ filter (has_priority s p) B"

definition first_ready :: "kernel_view \<Rightarrow> sched \<Rightarrow> nat list \<Rightarrow> nat option" where
  "first_ready kv s xs = find (ready kv s) xs"

text \<open>A pick: the first ready thread of the normal priority, otherwise of the idle one.\<close>

definition picked :: "kernel_view \<Rightarrow> nat list \<Rightarrow> nat list \<Rightarrow> nat list \<Rightarrow> sched \<Rightarrow> nat \<Rightarrow> sched \<Rightarrow> bool" where
  "picked kv B Q0 Q1 s t s' \<longleftrightarrow> woken t s s' \<and>
     (let N = candidates NormalPriority Q1 B s; I = candidates IdlePriority Q0 B s; skip = takeWhile (\<lambda>t. \<not> ready kv s t); rest = dropWhile (\<lambda>t. \<not> ready kv s t)
      in if rest N \<noteq> [] then t = hd (rest N) \<and> queued (skip N) I (tl (rest N)) s'
         else rest I \<noteq> [] \<and> t = hd (rest I) \<and> queued (N @ skip I) (tl (rest I)) [] s')"

lemma answers_thread: "answers kv s t \<Longrightarrow> s_thread s t \<noteq> None"
  by (auto simp: answers_def split: option.splits)

lemma length_candidates:
  "length (candidates NormalPriority Q1 B s) + length (candidates IdlePriority Q0 B s) \<le> length B + length Q0 + length Q1"
proof -
  have "length (filter (has_priority s NormalPriority) B) + length (filter (has_priority s IdlePriority) B) \<le> length B"
    by (induction B) (auto simp: has_priority_def split: option.splits)
  then show ?thesis
    by (simp add: candidates_def)
qed

lemma queued_scanned: "queued B Q0 Q1 s \<longleftrightarrow> scanned 1 B Q1 Q0 s" "queued B Q0 Q1 s \<longleftrightarrow> scanned 0 B Q0 Q1 s"
  by (auto simp: queued_def scanned_def)

lemma pick_next_spec:
  assumes q: "queued B Q0 Q1 s" and B: "\<forall>t\<in>set B. s_thread s t \<noteq> None"
  shows "(\<forall>t s'. pick_next kv s = Some (t, s') \<longrightarrow> picked kv B Q0 Q1 s t s') \<and>
    ((\<forall>t\<in>set (B @ Q0 @ Q1). answers kv s t) \<and> length B + length Q0 + length Q1 \<le> k_slot_count \<and>
     (\<exists>t\<in>set (B @ Q0 @ Q1). ready kv s t) \<longrightarrow> pick_next kv s \<noteq> None)"
proof (cases "requeue_blocked s")
  case None
  then show ?thesis
    using requeue_blocked_spec [OF q B] by (simp add: pick_next_def)
next
  case (Some s1)
  let ?N = "candidates NormalPriority Q1 B s" and ?I = "candidates IdlePriority Q0 B s"
  let ?skip = "takeWhile (\<lambda>t. \<not> ready kv s t)" and ?rest = "dropWhile (\<lambda>t. \<not> ready kv s t)"
  have s1: "only_queues s s1" "queued [] ?I ?N s1"
    using requeue_blocked_spec [OF q B] Some by (auto simp: candidates_def)
  note same = only_queues_ready [OF s1(1), of kv]
  have sets: "set ?N \<union> set ?I \<subseteq> set (B @ Q0 @ Q1)"
    by (auto simp: candidates_def)
  have all: "t \<in> set ?N \<union> set ?I" if mem: "t \<in> set (B @ Q0 @ Q1)" and rdy: "ready kv s t" for t
  proof -
    obtain th where "s_thread s t = Some th"
      using rdy by (auto simp: ready_def split: option.splits)
    then show ?thesis
      using mem by (cases "th_priority th") (auto simp: candidates_def has_priority_def)
  qed
  note len = length_candidates [of Q1 B s Q0]
  note scan1 = scan_queue_spec [OF iffD1 [OF queued_scanned(1) s1(2)], of kv, simplified]
  show ?thesis
  proof (cases "?rest ?N")
    case (Cons t ys)
    have "pick_next kv s = (case scan_queue kv 1 s1 of None \<Rightarrow> None | Some (_, s2) \<Rightarrow> Some (t, s2))"
      using scan1 Cons Some same by (auto simp: pick_next_def split: option.split)
    moreover have "picked kv B Q0 Q1 s t s2" if "scan_queue kv 1 s1 = Some (r, s2)" for r s2
      using that scan1 Cons same woken_only_queues [OF s1(1)] by (auto simp: picked_def Let_def queued_scanned(1) simp del: dropWhile_eq_Nil_conv)
    ultimately show ?thesis
      using scan1 same sets len by (auto split: option.splits)
  next
    case Nil
    show ?thesis
    proof (cases "scan_queue kv 1 s1")
      case None
      then show ?thesis
        using scan1 same sets len Some by (auto simp: pick_next_def)
    next
      case (Some r)
      obtain s2 where s2: "scan_queue kv 1 s1 = Some (None, s2)" "only_queues s1 s2" "scanned 1 ?N [] ?I s2"
        using Some scan1 Nil same by (cases r) auto
      have s2_same: "only_queues s s2" "ready kv s2 = ready kv s" "answers kv s2 = answers kv s"
        using only_queues_trans [OF s1(1) s2(2)] only_queues_ready by blast+
      have "scanned 0 ?N ?I [] s2"
        using s2(3) by (auto simp: scanned_def)
      note scan0 = scan_queue_spec [OF this, of kv, simplified s2_same]
      have pick: "pick_next kv s = (case scan_queue kv 0 s2 of None \<Rightarrow> None | Some (None, s3) \<Rightarrow> None | Some (Some t, s3) \<Rightarrow> Some (t, s3))"
        using \<open>requeue_blocked s = Some s1\<close> s2(1) by (simp add: pick_next_def split: option.split)
      show ?thesis
      proof (cases "?rest ?I")
        case Nil
        have "r = None" if "scan_queue kv 0 s2 = Some (r, s3)" for r s3
          using that scan0 Nil by auto
        then have "pick_next kv s = None"
          using pick by (auto split: option.split)
        moreover have "\<not> ready kv s t" if "t \<in> set (B @ Q0 @ Q1)" for t
          using that all \<open>?rest ?N = []\<close> Nil by auto
        ultimately show ?thesis
          by simp
      next
        case (Cons t ys)
        have "picked kv B Q0 Q1 s t s3" if "scan_queue kv 0 s2 = Some (r, s3)" for r s3
          using that scan0 \<open>?rest ?N = []\<close> Cons woken_only_queues [OF s2_same(1)] by (auto simp: picked_def Let_def queued_scanned(2) simp del: dropWhile_eq_Nil_conv)
        moreover have "r = Some t" if "scan_queue kv 0 s2 = Some (r, s3)" for r s3
          using that scan0 Cons by auto
        ultimately have "\<forall>u s'. pick_next kv s = Some (u, s') \<longrightarrow> picked kv B Q0 Q1 s u s'"
            "pick_next kv s = None \<longleftrightarrow> scan_queue kv 0 s2 = None"
          using pick by (cases "scan_queue kv 0 s2"; force)+
        moreover have "scan_queue kv 0 s2 \<noteq> None" if "\<forall>t\<in>set (B @ Q0 @ Q1). answers kv s t" "length B + length Q0 + length Q1 \<le> k_slot_count"
          using that scan0 sets len by auto
        ultimately show ?thesis
          by blast
      qed
    qed
  qed
qed

lemma find_first: "find P xs = (case dropWhile (\<lambda>x. \<not> P x) xs of [] \<Rightarrow> None | x # _ \<Rightarrow> Some x)"
  by (induction xs) simp_all

lemma find_append: "find P (xs @ ys) = (case find P xs of None \<Rightarrow> find P ys | Some x \<Rightarrow> Some x)"
  by (induction xs) simp_all

lemma mset_rest: "dropWhile P xs \<noteq> [] \<Longrightarrow> mset (hd (dropWhile P xs) # takeWhile P xs @ tl (dropWhile P xs)) = mset xs"
  by (metis append_Cons list.collapse mset_append mset.simps(2) takeWhile_dropWhile_id union_mset_add_mset_right)

lemma mset_candidates:
  assumes "\<forall>t\<in>set B. s_thread s t \<noteq> None"
  shows "mset (candidates NormalPriority Q1 B s @ candidates IdlePriority Q0 B s) = mset (B @ Q0 @ Q1)"
proof -
  have "has_priority s IdlePriority t \<longleftrightarrow> \<not> has_priority s NormalPriority t" if "t \<in> set B" for t
    using assms that thread_priority.exhaust by (auto simp: has_priority_def split: option.splits)
  then have "filter (has_priority s IdlePriority) B = filter (\<lambda>t. \<not> has_priority s NormalPriority t) B"
    by (auto intro: filter_cong)
  moreover have "mset (filter (has_priority s NormalPriority) B) + mset (filter (\<lambda>t. \<not> has_priority s NormalPriority t) B) = mset B"
    by (simp flip: multiset_partition)
  ultimately show ?thesis
    by (simp add: candidates_def)
qed

lemma picked_mset:
  assumes "picked kv B Q0 Q1 s t s'" and "\<forall>t\<in>set B. s_thread s t \<noteq> None"
  shows "first_ready kv s (candidates NormalPriority Q1 B s @ candidates IdlePriority Q0 B s) = Some t \<and>
    (\<exists>B' Q0' Q1'. queued B' Q0' Q1' s' \<and> mset (t # B' @ Q0' @ Q1') = mset (B @ Q0 @ Q1))"
proof -
  let ?N = "candidates NormalPriority Q1 B s" and ?I = "candidates IdlePriority Q0 B s"
  let ?skip = "takeWhile (\<lambda>t. \<not> ready kv s t)" and ?rest = "dropWhile (\<lambda>t. \<not> ready kv s t)"
  show ?thesis
  proof (cases "?rest ?N")
    case (Cons u ys)
    then have "t = u" "queued (?skip ?N) ?I ys s'"
      using assms(1) by (simp_all add: picked_def Let_def del: dropWhile_eq_Nil_conv)
    moreover have "mset (u # ?skip ?N @ ?I @ ys) = mset (B @ Q0 @ Q1)"
    proof -
      have "mset (u # ?skip ?N @ ?I @ ys) = mset (u # ?skip ?N @ ys) + mset ?I"
        by simp
      also have "\<dots> = mset ?N + mset ?I"
        using mset_rest [of "\<lambda>t. \<not> ready kv s t" ?N] Cons by simp
      also have "\<dots> = mset (B @ Q0 @ Q1)"
        using mset_candidates [OF assms(2), of Q1 Q0] by simp
      finally show ?thesis .
    qed
    ultimately show ?thesis
      using Cons unfolding first_ready_def find_append unfolding find_first by auto
  next
    case Nil
    then obtain ys where I: "?rest ?I = t # ys" "queued (?N @ ?skip ?I) ys [] s'"
      using assms(1) by (cases "?rest ?I") (simp_all add: picked_def Let_def del: dropWhile_eq_Nil_conv)
    have "mset (t # (?N @ ?skip ?I) @ ys @ []) = mset (B @ Q0 @ Q1)"
    proof -
      have "mset (t # (?N @ ?skip ?I) @ ys @ []) = mset ?N + mset (t # ?skip ?I @ ys)"
        by simp
      also have "\<dots> = mset ?N + mset ?I"
        using mset_rest [of "\<lambda>t. \<not> ready kv s t" ?I] I(1) by simp
      also have "\<dots> = mset (B @ Q0 @ Q1)"
        using mset_candidates [OF assms(2), of Q1 Q0] by simp
      finally show ?thesis .
    qed
    then have "\<exists>B' Q0' Q1'. queued B' Q0' Q1' s' \<and> mset (t # B' @ Q0' @ Q1') = mset (B @ Q0 @ Q1)"
      using I(2) by blast
    then show ?thesis
      using I(1) Nil unfolding first_ready_def find_append unfolding find_first by (simp del: dropWhile_eq_Nil_conv)
  qed
qed


text \<open>The idle thread, a blocked thread that can go on, and one that cannot.\<close>

definition view_example :: kernel_view where
  "view_example = \<lparr>kv_ns_since_boot = 0, kv_accept_would_block = (\<lambda>_. False), kv_connected = (\<lambda>sock. sock = 4), kv_valid = (\<lambda>_. True),
     kv_read_would_block = (\<lambda>_ _. True), kv_write_would_block = (\<lambda>_ _. True), kv_file_handle = (\<lambda>_ _. None)\<rparr>"

definition thread_example :: "thread_priority \<Rightarrow> blocker option \<Rightarrow> thread" where
  "thread_example p b = \<lparr>th_process = 1, th_state = (if b = None then Alive else Blocked), th_priority = p, th_blocker = b, th_prev = None, th_next = None\<rparr>"

definition queue_example :: "nat \<Rightarrow> priority_queue" where
  "queue_example t = the (pq_enqueue t pq_new)"

definition sched_example :: sched where
  "sched_example = (sched_initialise 10)
     \<lparr>s_thread := [10 \<mapsto> thread_example IdlePriority None, 11 \<mapsto> thread_example NormalPriority (Some (ConnectBlocker 3)),
        12 \<mapsto> thread_example NormalPriority (Some (ConnectBlocker 4))],
      s_queues := [queue_example 10, queue_example 11], s_blocked_queue := queue_example 12\<rparr>"

lemma queue_example_rep: "pq_rep [t] (queue_example t)"
  using run_queue.room [OF pq_new_rep, of t] by (auto simp: queue_example_def k_slot_count_def)

lemma sched_example_queued: "queued [12] [10] [11] sched_example"
  by (simp add: queued_def sched_example_def queue_example_rep)


section \<open>No thread starves\<close>

text \<open>What the scheduler can see happen, between and at the switches.\<close>

datatype sched_event = Tick kernel_view | Block blocker kernel_view | Exit kernel_view | Spawn thread_priority nat

fun sched_step :: "sched_event \<Rightarrow> sched \<Rightarrow> sched option" where
  "sched_step (Tick kv) s = switch_next kv s"
| "sched_step (Block b kv) s = thread_block b kv s"
| "sched_step (Exit kv) s = yield_and_kill kv s"
| "sched_step (Spawn p t) s = do { s' \<leftarrow> create_user p t s; insert_thread t s' }"

fun is_switch :: "sched_event \<Rightarrow> bool" where
  "is_switch (Spawn p t) \<longleftrightarrow> False"
| "is_switch _ \<longleftrightarrow> True"

text \<open>State and priority of the threads, without the links of the ring.\<close>

definition thread_view :: "sched \<Rightarrow> nat \<Rightarrow> (thread_state \<times> thread_priority) option" where
  "thread_view s t = map_option (\<lambda>th. (th_state th, th_priority th)) (s_thread s t)"

definition sched_ok :: "nat list \<Rightarrow> nat list \<Rightarrow> nat list \<Rightarrow> sched \<Rightarrow> bool" where
  "sched_ok B Q0 Q1 s \<longleftrightarrow> queued B Q0 Q1 s \<and> (\<forall>t\<in>set (s_current s # B @ Q0 @ Q1). thread_view s t \<noteq> None) \<and>
     distinct (s_current s # B @ Q0 @ Q1)"

text \<open>A thread that is alive and behind \<open>k\<close> others in the queue of the normal priority.\<close>

definition waiting :: "nat \<Rightarrow> nat \<Rightarrow> sched \<Rightarrow> bool" where
  "waiting t k s \<longleftrightarrow> (\<exists>B Q0 Q1. sched_ok B Q0 Q1 s \<and> k < length Q1 \<and> Q1 ! k = t \<and> thread_view s t = Some (Alive, NormalPriority))"

lemma set_link_view:
  "set_next a b s = Some s' \<Longrightarrow> thread_view s' = thread_view s \<and> s_current s' = s_current s \<and>
     s_blocked_queue s' = s_blocked_queue s \<and> s_queues s' = s_queues s"
  "set_prev a b s = Some s' \<Longrightarrow> thread_view s' = thread_view s \<and> s_current s' = s_current s \<and>
     s_blocked_queue s' = s_blocked_queue s \<and> s_queues s' = s_queues s"
  by (auto simp: set_next_def set_prev_def thread_view_def fun_eq_iff split: Option.bind_splits)

lemma unlink_thread_view:
  "unlink_thread th s = Some s' \<Longrightarrow> thread_view s' = thread_view s \<and> s_current s' = s_current s \<and>
     s_blocked_queue s' = s_blocked_queue s \<and> s_queues s' = s_queues s"
  using set_link_view by (auto simp: unlink_thread_def split: option.splits Option.bind_splits)

lemma destroy_thread_view:
  assumes "destroy_thread c s = Some s'"
  shows "thread_view s' = (thread_view s)(c := None) \<and> s_current s' = s_current s \<and>
    s_blocked_queue s' = s_blocked_queue s \<and> s_queues s' = s_queues s"
proof -
  obtain th s2 where s': "s' = s2\<lparr>s_thread := (s_thread s2)(c := None)\<rparr>"
    and s2: "unlink_thread th (s\<lparr>s_thread_count := (s_thread_count s)(th_process th := s_thread_count s (th_process th) - 1)\<rparr>) = Some s2"
    using assms unfolding destroy_thread_def by (auto split: Option.bind_splits)
  show ?thesis
    using unlink_thread_view [OF s2] s' by (auto simp: thread_view_def fun_eq_iff)
qed

lemma queued_cong:
  "s_blocked_queue s' = s_blocked_queue s \<Longrightarrow> s_queues s' = s_queues s \<Longrightarrow> queued B Q0 Q1 s' \<longleftrightarrow> queued B Q0 Q1 s"
  by (simp add: queued_def)

lemma only_queues_view: "only_queues s s' \<Longrightarrow> thread_view s' = thread_view s"
  by (simp add: thread_view_def fun_eq_iff only_queues_simps)

lemma has_priority_view: "has_priority s p t \<longleftrightarrow> map_option snd (thread_view s t) = Some p"
  by (auto simp: has_priority_def thread_view_def split: option.splits)

lemma ready_alive: "thread_view s t = Some (Alive, p) \<Longrightarrow> ready kv s t"
  by (auto simp: ready_def thread_view_def try_unblock_def)

lemma woken_view:
  assumes "woken t s s'"
  shows "s_current s' = s_current s \<and> (\<forall>u. u \<noteq> t \<longrightarrow> thread_view s' u = thread_view s u) \<and> thread_view s' t \<noteq> None"
proof -
  obtain th' where "core s' = (core s)\<lparr>s_thread := (s_thread s)(t \<mapsto> th')\<rparr>"
    using assms by (auto simp: woken_def)
  then have "s_thread s' = (s_thread s)(t \<mapsto> th')" "s_current s' = s_current s"
    using core_simps(1,2) by (metis sched.select_convs(1,5) sched.surjective sched.update_convs(1))+
  then show ?thesis
    by (simp add: thread_view_def)
qed

lemma switch_next_cases:
  assumes "switch_next kv s = Some s'"
  obtains cur s1 t s2 s4 p n where "s_thread s (s_current s) = Some cur"
    and "(if th_state cur \<noteq> Dead then enqueue_ready (s_current s) s else Some s) = Some s1" and "pick_next kv s1 = Some (t, s2)"
    and "(if th_state cur = Dead then destroy_thread (s_current s) (s2\<lparr>s_space := p\<rparr>) else Some (s2\<lparr>s_space := p\<rparr>)) = Some s4"
    and "s' = s4\<lparr>s_timer := n, s_current := t\<rparr>"
  using assms unfolding switch_next_def Let_def by (auto split: Option.bind_splits)

lemma sched_ok_requeue:
  assumes ok: "sched_ok B Q0 Q1 s" and cur: "s_thread s (s_current s) = Some cur"
    and s1: "(if th_state cur \<noteq> Dead then enqueue_ready (s_current s) s else Some s) = Some s1"
  obtains Q0' Q1' where "queued B Q0' Q1' s1" and "only_queues s s1" and "distinct (B @ Q0' @ Q1')"
    and "\<forall>t\<in>set (B @ Q0' @ Q1'). thread_view s t \<noteq> None" and "take (length Q1) Q1' = Q1"
    and "th_state cur = Dead \<longrightarrow> s_current s \<notin> set (B @ Q0' @ Q1')"
proof (cases "th_state cur = Dead")
  case True
  then show ?thesis
    using that [of Q0 Q1] ok s1 by (auto simp: sched_ok_def only_queues_def)
next
  case False
  let ?c = "s_current s"
  let ?I = "filter (has_priority s IdlePriority) [?c]" and ?N = "filter (has_priority s NormalPriority) [?c]"
  have "only_queues s s1" "queued B (Q0 @ ?I) (Q1 @ ?N) s1"
    using enqueue_ready_spec [of B Q0 Q1 s ?c s1] ok s1 False by (auto simp: sched_ok_def)
  moreover have "distinct (B @ (Q0 @ ?I) @ (Q1 @ ?N))" "\<forall>t\<in>set (B @ (Q0 @ ?I) @ (Q1 @ ?N)). thread_view s t \<noteq> None"
    using ok by (auto simp: sched_ok_def has_priority_view)
  ultimately show ?thesis
    using that [of "Q0 @ ?I" "Q1 @ ?N"] False by simp
qed

text \<open>The pick removes everything up to the picked thread from the queue.\<close>

lemma picked_advances:
  assumes "picked kv B Q0 Q1 s u s'" and "k < length Q1" and "Q1 ! k = t" and "ready kv s t" and "u \<noteq> t"
  shows "\<exists>B' Q0' Q1' j. queued B' Q0' Q1' s' \<and> j < k \<and> j < length Q1' \<and> Q1' ! j = t"
proof -
  let ?N = "candidates NormalPriority Q1 B s"
  let ?p = "\<lambda>t. \<not> ready kv s t"
  have N: "k < length ?N" "?N ! k = t"
    using assms(2,3) by (simp_all add: candidates_def nth_append)
  have skip: "length (takeWhile ?p ?N) \<le> k"
    using assms(4) N by (metis not_le nth_mem set_takeWhileD takeWhile_nth)
  have "dropWhile ?p ?N \<noteq> []"
    using N assms(4) by (metis dropWhile_eq_Nil_conv nth_mem)
  then obtain ys where rest: "dropWhile ?p ?N = u # ys" "queued (takeWhile ?p ?N) (candidates IdlePriority Q0 B s) ys s'"
    using assms(1) by (cases "dropWhile ?p ?N") (auto simp: picked_def Let_def simp del: dropWhile_eq_Nil_conv)
  let ?j = "k - length (takeWhile ?p ?N)"
  have split: "?N = takeWhile ?p ?N @ u # ys"
    using takeWhile_dropWhile_id [of ?p ?N] rest(1) by simp
  have "(u # ys) ! ?j = t" "?j < Suc (length ys)"
    using N skip split by (metis leD nth_append, metis Suc_eq_plus1 add_less_cancel_left le_add_diff_inverse length_Cons length_append)
  then obtain j where "?j = Suc j" "ys ! j = t" "j < length ys"
    using assms(5) by (cases ?j) auto
  then show ?thesis
    using rest(2) by (intro exI [of _ "takeWhile ?p ?N"] exI [of _ "candidates IdlePriority Q0 B s"] exI [of _ ys] exI [of _ j]) simp
qed

lemma pq_rep_unique:
  assumes "pq_rep xs q" and "pq_rep ys q"
  shows "xs = ys"
proof -
  have le: "length xs \<le> k_slot_count" "length ys \<le> k_slot_count"
    using assms by (simp_all add: pq_rep_def)
  have "(of_nat (length xs) :: u32) = of_nat (length ys)"
    using assms by (simp add: pq_rep_def)
  then have "int (length xs) = int (length ys)"
    unfolding sint_small [OF le(1), symmetric] sint_small [OF le(2), symmetric] by simp
  then have len: "length xs = length ys"
    by simp
  have slot: "pq_slots q ! ((unat (pq_tail q) + i) mod k_slot_count) = Some (zs ! i)" if "pq_rep zs q" "i < length zs" for zs i
    using that by (simp add: pq_rep_def)
  have "xs ! i = ys ! i" if "i < length xs" for i
    using slot [OF assms(1) that] slot [OF assms(2), of i] that len by simp
  then show ?thesis
    using len by (simp add: nth_equalityI)
qed

lemma queued_unique: "queued B Q0 Q1 s \<Longrightarrow> queued B' Q0' Q1' s \<Longrightarrow> B' = B \<and> Q0' = Q0 \<and> Q1' = Q1"
  using pq_rep_unique by (auto simp: queued_def)

lemma switch_waiting:
  assumes "waiting t k s" and "switch_next kv s = Some s'"
  shows "s_current s' = t \<or> (\<exists>j<k. waiting t j s')"
proof -
  obtain B Q0 Q1 where ok: "sched_ok B Q0 Q1 s" and k: "k < length Q1" "Q1 ! k = t" and t: "thread_view s t = Some (Alive, NormalPriority)"
    using assms(1) by (auto simp: waiting_def)
  obtain cur s1 u s2 s4 p n where cur: "s_thread s (s_current s) = Some cur"
    and s1: "(if th_state cur \<noteq> Dead then enqueue_ready (s_current s) s else Some s) = Some s1" and pick: "pick_next kv s1 = Some (u, s2)"
    and s4: "(if th_state cur = Dead then destroy_thread (s_current s) (s2\<lparr>s_space := p\<rparr>) else Some (s2\<lparr>s_space := p\<rparr>)) = Some s4"
    and s': "s' = s4\<lparr>s_timer := n, s_current := u\<rparr>"
    using assms(2) by (rule switch_next_cases)
  obtain Q0' Q1' where q1: "queued B Q0' Q1' s1" "only_queues s s1" "distinct (B @ Q0' @ Q1')"
      "\<forall>t\<in>set (B @ Q0' @ Q1'). thread_view s t \<noteq> None" "take (length Q1) Q1' = Q1"
      "th_state cur = Dead \<longrightarrow> s_current s \<notin> set (B @ Q0' @ Q1')"
    using ok cur s1 by (rule sched_ok_requeue)
  have view1: "thread_view s1 = thread_view s"
    using only_queues_view [OF q1(2)] .
  have B: "\<forall>t\<in>set B. s_thread s1 t \<noteq> None"
    using q1(4) unfolding view1 [symmetric] by (auto simp: thread_view_def)
  have picked: "picked kv B Q0' Q1' s1 u s2"
    using pick_next_spec [OF q1(1) B] pick by blast
  note wv = woken_view [of u s1 s2]
  have k': "k < length Q1'" "Q1' ! k = t"
    using k q1(5) by (metis length_take min_less_iff_conj, metis nth_take)
  show ?thesis
  proof (cases "u = t")
    case True
    then show ?thesis
      using s' by simp
  next
    case False
    obtain B2 Q02 Q12 j where q2: "queued B2 Q02 Q12 s2" "j < k" "j < length Q12" "Q12 ! j = t"
      using picked_advances [OF picked k'] ready_alive t view1 False by metis
    have mset: "mset (u # B2 @ Q02 @ Q12) = mset (B @ Q0' @ Q1')"
      using picked_mset [OF picked B] queued_unique [OF q2(1)] by blast
    have dist: "distinct (u # B2 @ Q02 @ Q12)"
      using mset_eq_imp_distinct_iff [OF mset] q1(3) by simp
    have sets: "set (u # B2 @ Q02 @ Q12) = set (B @ Q0' @ Q1')"
      using mset_eq_setD [OF mset] by simp
    have s4_ok: "queued B2 Q02 Q12 s4" "\<forall>x. x \<noteq> s_current s \<or> th_state cur \<noteq> Dead \<longrightarrow> thread_view s4 x = thread_view s2 x"
      using s4 destroy_thread_view [of "s_current s" "s2\<lparr>s_space := p\<rparr>" s4] q2(1)
      by (auto simp: queued_def thread_view_def fun_eq_iff split: if_splits)
    have view: "thread_view s4 x = thread_view s2 x" if "x \<in> set (u # B2 @ Q02 @ Q12)" for x
    proof -
      have "x \<noteq> s_current s \<or> th_state cur \<noteq> Dead"
        using that q1(6) unfolding sets by blast
      then show ?thesis
        using s4_ok(2) by simp
    qed
    have views: "thread_view s4 x \<noteq> None" if "x \<in> set (u # B2 @ Q02 @ Q12)" for x
    proof (cases "x = u")
      case True
      then show ?thesis
        using view [OF that] wv picked by (simp add: picked_def)
    next
      case False
      then have "thread_view s4 x = thread_view s x"
        using view [OF that] wv picked view1 by (simp add: picked_def)
      then show ?thesis
        using that q1(4) unfolding sets by simp
    qed
    have "t \<in> set Q12"
      using q2(3,4) nth_mem by blast
    then have "thread_view s4 t = Some (Alive, NormalPriority)"
      using view [of t] wv picked t view1 False unfolding picked_def by simp
    moreover have "thread_view s' = thread_view s4"
      by (simp add: s' thread_view_def fun_eq_iff)
    moreover have "sched_ok B2 Q02 Q12 s'"
      using s4_ok(1) dist views s' by (auto simp: sched_ok_def queued_def thread_view_def)
    ultimately show ?thesis
      using q2 by (auto simp: waiting_def)
  qed
qed

lemma sched_ok_views:
  assumes "sched_ok B Q0 Q1 s" and "queued B Q0 Q1 s'" and "s_current s' = s_current s" and "\<forall>t. thread_view s t \<noteq> None \<longrightarrow> thread_view s' t \<noteq> None"
  shows "sched_ok B Q0 Q1 s'"
  using assms by (simp add: sched_ok_def)

lemma update_current_waiting:
  assumes "waiting t k s" and "update_current f s = Some s'"
  shows "waiting t k s'"
proof -
  obtain B Q0 Q1 where ok: "sched_ok B Q0 Q1 s" and k: "k < length Q1" "Q1 ! k = t" and t: "thread_view s t = Some (Alive, NormalPriority)"
    using assms(1) by (auto simp: waiting_def)
  have "t \<noteq> s_current s"
    using ok k nth_mem [OF k(1)] by (auto simp: sched_ok_def)
  moreover obtain th where s': "s' = s\<lparr>s_thread := (s_thread s)(s_current s \<mapsto> f th)\<rparr>"
    using assms(2) by (auto simp: update_current_def split: Option.bind_splits)
  ultimately have "thread_view s' t = Some (Alive, NormalPriority)"
    using t by (simp add: thread_view_def)
  moreover have "sched_ok B Q0 Q1 s'"
    using ok s' by (intro sched_ok_views [OF ok]) (auto simp: sched_ok_def queued_def thread_view_def)
  ultimately show ?thesis
    using k by (auto simp: waiting_def)
qed

lemma insert_links:
  assumes "insert_thread t s = Some s'"
  shows "\<exists>s1. thread_view s1 = thread_view s \<and> s_current s1 = s_current s \<and> s_blocked_queue s1 = s_blocked_queue s \<and>
    s_queues s1 = s_queues s \<and> (s' = s1 \<or> enqueue_ready t s1 = Some s')"
proof -
  obtain a b s1 s2 s3 s4 and th :: thread where steps: "set_prev t a s = Some s1" "set_next t b s1 = Some s2" "set_next a t s2 = Some s3"
      "set_prev b t s3 = Some s4"
    and "(if th_priority th \<noteq> IdlePriority then enqueue_ready t s4 else Some s4) = Some s'"
    using assms unfolding insert_thread_def bind_eq_Some_conv by (elim exE conjE) (rule that, assumption+)
  then show ?thesis
    using set_link_view(2) [OF steps(1)] set_link_view(1) [OF steps(2)] set_link_view(1) [OF steps(3)] set_link_view(2) [OF steps(4)]
    by (intro exI [of _ s4]) (auto split: if_splits)
qed

lemma spawn_waiting:
  assumes "waiting t k s" and "sched_step (Spawn p u) s = Some s'"
  shows "waiting t k s'"
proof -
  obtain B Q0 Q1 where ok: "sched_ok B Q0 Q1 s" and k: "k < length Q1" "Q1 ! k = t" and t: "thread_view s t = Some (Alive, NormalPriority)"
    using assms(1) by (auto simp: waiting_def)
  obtain s0 where s0: "create_user p u s = Some s0" "insert_thread u s0 = Some s'"
    using assms(2) by (auto split: Option.bind_splits)
  have new: "thread_view s u = None" "thread_view s0 = (thread_view s)(u \<mapsto> (Alive, p))" "s_current s0 = s_current s"
      "s_blocked_queue s0 = s_blocked_queue s" "s_queues s0 = s_queues s"
    using s0(1) by (auto simp: create_user_def create_thread_def thread_view_def fun_eq_iff)
  obtain s1 where s1: "thread_view s1 = thread_view s0" "s_current s1 = s_current s0" "s_blocked_queue s1 = s_blocked_queue s0"
      "s_queues s1 = s_queues s0" "s' = s1 \<or> enqueue_ready u s1 = Some s'"
    using insert_links [OF s0(2)] by blast
  have q1: "queued B Q0 Q1 s1"
    using ok new s1 by (simp add: sched_ok_def queued_def)
  have fresh: "u \<notin> set (s_current s # B @ Q0 @ Q1)"
    using ok new(1) unfolding sched_ok_def by metis
  have t1: "thread_view s1 t = Some (Alive, NormalPriority)"
    using t new s1(1) by auto
  have ok1: "sched_ok B Q0 Q1 s1"
    using new s1 by (intro sched_ok_views [OF ok q1]) auto
  show ?thesis
  proof (cases "s' = s1")
    case True
    then show ?thesis
      using ok1 k t1 by (auto simp: waiting_def)
  next
    case False
    then have enq: "enqueue_ready u s1 = Some s'"
      using s1(5) by simp
    let ?I = "filter (has_priority s1 IdlePriority) [u]" and ?N = "filter (has_priority s1 NormalPriority) [u]"
    note spec = enqueue_ready_spec [OF q1 enq]
    have view: "thread_view s' = thread_view s1" "s_current s' = s_current s1"
      using only_queues_view only_queues_simps(2) spec by blast+
    have "distinct (s_current s # B @ (Q0 @ ?I) @ (Q1 @ ?N))"
      using ok fresh by (auto simp: sched_ok_def has_priority_view)
    then have "sched_ok B (Q0 @ ?I) (Q1 @ ?N) s'"
      using ok1 spec view new s1 by (auto simp: sched_ok_def)
    then show ?thesis
      unfolding waiting_def using k t1 view
      by (intro exI [of _ B] exI [of _ "Q0 @ ?I"] exI [of _ "Q1 @ ?N"]) (simp add: nth_append)
  qed
qed

lemma sched_step_waiting:
  assumes "waiting t k s" and "sched_step e s = Some s'"
  shows "if is_switch e then s_current s' = t \<or> (\<exists>j<k. waiting t j s') else waiting t k s'"
proof (cases e)
  case (Tick kv)
  then show ?thesis
    using switch_waiting assms by simp
next
  case (Block b kv)
  then obtain s1 where s1: "update_current (\<lambda>th. th\<lparr>th_blocker := Some b, th_state := Blocked\<rparr>) s = Some s1" "switch_next kv s1 = Some s'"
    using assms(2) by (auto simp: thread_block_def split: Option.bind_splits)
  show ?thesis
    using switch_waiting [OF update_current_waiting [OF assms(1) s1(1)] s1(2)] Block by simp
next
  case (Exit kv)
  then obtain s1 where s1: "update_current kill s = Some s1" "switch_next kv s1 = Some s'"
    using assms(2) by (auto simp: yield_and_kill_def split: Option.bind_splits)
  show ?thesis
    using switch_waiting [OF update_current_waiting [OF assms(1) s1(1)] s1(2)] Exit by simp
next
  case (Spawn p u)
  then show ?thesis
    using spawn_waiting [OF assms(1)] assms(2) by simp
qed

text \<open>
  C3. No thread starves. A thread of normal priority that is alive and waits behind \<open>k\<close> others is run within
  \<open>k + 1\<close> switches, whatever the other threads do meanwhile: block, wake up, exit, or start new threads.
\<close>

theorem no_starvation:
  assumes "waiting t k s" and "for_each sched_step events s = Some s'" and "k < length (filter is_switch events)"
  shows "\<exists>before after s1. events = before @ after \<and> for_each sched_step before s = Some s1 \<and> s_current s1 = t"
  using assms
proof (induction events arbitrary: k s)
  case (Cons e events)
  obtain s1 where s1: "sched_step e s = Some s1" "for_each sched_step events s1 = Some s'"
    using Cons.prems(2) by (auto split: Option.bind_splits)
  note next_state = sched_step_waiting [OF Cons.prems(1) s1(1)]
  show ?case
  proof (cases "s_current s1 = t")
    case True
    then show ?thesis
      using s1(1) by (intro exI [of _ "[e]"] exI [of _ events] exI [of _ s1]) simp
  next
    case False
    then obtain j where "waiting t j s1" "j < length (filter is_switch events)"
      using next_state Cons.prems(3) by (cases "is_switch e") auto
    then obtain before after s2 where "events = before @ after" "for_each sched_step before s1 = Some s2" "s_current s2 = t"
      using Cons.IH [of j s1] s1(2) by blast
    then show ?thesis
      using s1(1) by (intro exI [of _ "e # before"] exI [of _ after] exI [of _ s2]) simp
  qed
qed simp

text \<open>With room in the queues, a switch away from a thread that is alive succeeds.\<close>

lemma switch_next_alive:
  assumes ok: "sched_ok B Q0 Q1 s" and alive: "thread_view s (s_current s) = Some (Alive, p)"
    and answers: "\<forall>t\<in>set (s_current s # B @ Q0 @ Q1). answers kv s t" and room: "length B + length Q0 + length Q1 < k_slot_count"
  shows "\<exists>s'. switch_next kv s = Some s'"
proof -
  let ?c = "s_current s"
  let ?I = "filter (has_priority s IdlePriority) [?c]" and ?N = "filter (has_priority s NormalPriority) [?c]"
  obtain cur where cur: "s_thread s ?c = Some cur" "th_state cur = Alive"
    using alive by (auto simp: thread_view_def)
  have q: "queued B Q0 Q1 s"
    using ok by (simp add: sched_ok_def)
  obtain s1 where s1: "enqueue_ready ?c s = Some s1"
    using enqueue_ready_room [OF q, of ?c] room cur(1) by auto
  have spec: "only_queues s s1" "queued B (Q0 @ ?I) (Q1 @ ?N) s1"
    using enqueue_ready_spec [OF q s1] by auto
  note same = only_queues_ready [OF spec(1), of kv]
  have "length B + length (Q0 @ ?I) + length (Q1 @ ?N) \<le> k_slot_count"
    using room by (auto simp: has_priority_def split: option.splits)
  moreover have "\<forall>t\<in>set (B @ (Q0 @ ?I) @ (Q1 @ ?N)). answers kv s1 t"
    using answers same by auto
  moreover have "\<exists>t\<in>set (B @ (Q0 @ ?I) @ (Q1 @ ?N)). ready kv s1 t"
    using ready_alive [OF alive, of kv] same cur thread_priority.exhaust by (auto simp: has_priority_def)
  moreover have B: "\<forall>t\<in>set B. s_thread s1 t \<noteq> None"
    using answers answers_thread [of kv s] only_queues_simps(1) [OF spec(1)] by auto
  ultimately obtain t s2 where pick: "pick_next kv s1 = Some (t, s2)"
    using pick_next_spec [OF spec(2) B, of kv] by auto
  then have "woken t s1 s2"
    using pick_next_spec [OF spec(2) B, of kv] by (auto simp: picked_def)
  then obtain th where "s_thread s2 t = Some th"
    using woken_view by (fastforce simp: thread_view_def)
  then show ?thesis
    using cur s1 pick by (simp add: switch_next_def Let_def)
qed

theorem no_starvation_witness:
  "\<exists>before after s1. [Tick view_example] = before @ after \<and>
     for_each sched_step before (sched_example\<lparr>s_queues := [pq_new, queue_example 11],
       s_thread := (s_thread sched_example)(11 \<mapsto> thread_example NormalPriority None)\<rparr>) = Some s1 \<and> s_current s1 = 11"
proof -
  let ?s = "sched_example\<lparr>s_queues := [pq_new, queue_example 11],
       s_thread := (s_thread sched_example)(11 \<mapsto> thread_example NormalPriority None)\<rparr>"
  have "s_current ?s = 10"
    by (simp add: sched_example_def sched_initialise_def)
  have queued: "queued [12] [] [11] ?s"
    using sched_example_queued by (simp add: queued_def queue_example_rep pq_new_rep)
  then have ok: "sched_ok [12] [] [11] ?s"
    using \<open>s_current ?s = 10\<close> by (simp add: sched_ok_def thread_view_def sched_example_def)
  then have "waiting 11 0 ?s"
    unfolding waiting_def
    by (intro exI [of _ "[12]"] exI [of _ "[]"] exI [of _ "[11]"]) (simp add: thread_view_def thread_example_def)
  moreover have "\<exists>s'. switch_next view_example ?s = Some s'"
  proof (rule switch_next_alive [OF ok])
    show "thread_view ?s (s_current ?s) = Some (Alive, IdlePriority)"
      using \<open>s_current ?s = 10\<close> by (simp add: thread_view_def sched_example_def thread_example_def)
    show "\<forall>t\<in>set (s_current ?s # [12] @ [] @ [11]). answers view_example ?s t"
      using \<open>s_current ?s = 10\<close> by (simp add: answers_def try_unblock_def should_unblock_def sched_example_def thread_example_def)
  qed (simp add: k_slot_count_def)
  then obtain s' where "for_each sched_step [Tick view_example] ?s = Some s'"
    by auto
  ultimately show ?thesis
    using no_starvation by fastforce
qed

end
