(* ===== verification/Thread_Ring.thy ===== *)
theory Thread_Ring imports Scheduler
begin

text \<open>The ring of all threads of src/kernel/proc/scheduler.cc: every thread is linked with its
neighbours in both directions, \<^verbatim>\<open>Scheduler::insert_thread\<close> puts a thread before the base thread,
\<^verbatim>\<open>Thread::~Thread\<close> takes it out, and \<^verbatim>\<open>Process::from_pid\<close> walks the ring once.\<close>

definition next_of :: "sched \<Rightarrow> nat \<Rightarrow> nat option" where
  "next_of s t = s_thread s t \<bind> th_next"

definition prev_of :: "sched \<Rightarrow> nat \<Rightarrow> nat option" where
  "prev_of s t = s_thread s t \<bind> th_prev"

definition process_of :: "sched \<Rightarrow> nat \<Rightarrow> nat option" where
  "process_of s t = map_option th_process (s_thread s t)"

fun chain :: "(nat \<Rightarrow> nat option) \<Rightarrow> (nat \<Rightarrow> nat option) \<Rightarrow> nat list \<Rightarrow> bool" where
  "chain nxt prv (a # b # xs) \<longleftrightarrow> nxt a = Some b \<and> prv b = Some a \<and> chain nxt prv (b # xs)"
| "chain nxt prv _ \<longleftrightarrow> True"

text \<open>The threads of the list, in order, linked in both directions, the last one with the base thread.\<close>

definition ring :: "nat list \<Rightarrow> sched \<Rightarrow> bool" where
  "ring xs s \<longleftrightarrow> xs \<noteq> [] \<and> hd xs = s_base_thread s \<and> distinct xs \<and> (\<forall>t\<in>set xs. process_of s t \<noteq> None) \<and>
     chain (next_of s) (prev_of s) (xs @ [hd xs])"

lemma chain_append: "chain nxt prv (xs @ a # ys) \<longleftrightarrow> chain nxt prv (xs @ [a]) \<and> chain nxt prv (a # ys)"
  by (induction xs rule: induct_list012) auto

lemma chain_cong:
  "chain nxt prv xs \<Longrightarrow> (\<And>a. a \<in> set (butlast xs) \<Longrightarrow> nxt' a = nxt a) \<Longrightarrow> (\<And>b. b \<in> set (tl xs) \<Longrightarrow> prv' b = prv b) \<Longrightarrow>
   chain nxt' prv' xs"
  by (induction nxt prv xs rule: chain.induct) auto

lemma set_next_links:
  "set_next a b s = Some s' \<Longrightarrow> next_of s' = (next_of s)(a \<mapsto> b) \<and> prev_of s' = prev_of s \<and> process_of s' = process_of s \<and>
     s_base_thread s' = s_base_thread s"
  by (auto simp: set_next_def next_of_def prev_of_def process_of_def fun_eq_iff split: Option.bind_splits if_splits)

lemma set_prev_links:
  "set_prev a b s = Some s' \<Longrightarrow> prev_of s' = (prev_of s)(a \<mapsto> b) \<and> next_of s' = next_of s \<and> process_of s' = process_of s \<and>
     s_base_thread s' = s_base_thread s"
  by (auto simp: set_prev_def next_of_def prev_of_def process_of_def fun_eq_iff split: Option.bind_splits if_splits)

lemma enqueue_ready_links:
  "enqueue_ready t s = Some s' \<Longrightarrow> next_of s' = next_of s \<and> prev_of s' = prev_of s \<and> process_of s' = process_of s \<and>
     s_base_thread s' = s_base_thread s"
  by (auto simp: enqueue_ready_def Let_def next_of_def prev_of_def process_of_def fun_eq_iff split: Option.bind_splits if_splits)

lemma insert_thread_links:
  assumes "insert_thread t s = Some s'"
  shows "\<exists>l. prev_of s (s_base_thread s) = Some l \<and> next_of s' = (next_of s)(t \<mapsto> s_base_thread s, l \<mapsto> t) \<and>
    prev_of s' = (prev_of s)(t \<mapsto> l, s_base_thread s \<mapsto> t) \<and> process_of s' = process_of s \<and> s_base_thread s' = s_base_thread s"
proof -
  obtain l base s1 s2 s3 s4 and th :: thread where base: "s_thread s (s_base_thread s) = Some base" "th_prev base = Some l"
    and steps: "set_prev t l s = Some s1" "set_next t (s_base_thread s) s1 = Some s2" "set_next l t s2 = Some s3"
      "set_prev (s_base_thread s) t s3 = Some s4"
    and s': "(if th_priority th \<noteq> IdlePriority then enqueue_ready t s4 else Some s4) = Some s'"
    using assms unfolding insert_thread_def bind_eq_Some_conv by (elim exE conjE) (rule that, assumption+)
  have "next_of s' = next_of s4 \<and> prev_of s' = prev_of s4 \<and> process_of s' = process_of s4 \<and> s_base_thread s' = s_base_thread s4"
    using s' enqueue_ready_links by (auto split: if_splits)
  then show ?thesis
    using base set_prev_links [OF steps(1)] set_next_links [OF steps(2)] set_next_links [OF steps(3)] set_prev_links [OF steps(4)]
    by (simp add: prev_of_def)
qed

lemma insert_thread_ring:
  assumes r: "ring xs s" and t: "t \<notin> set xs" "process_of s t \<noteq> None" and ins: "insert_thread t s = Some s'"
  shows "ring (xs @ [t]) s' \<and> process_of s' = process_of s"
proof -
  obtain ys l where xs: "xs = ys @ [l]"
    using r by (cases xs rule: rev_cases) (auto simp: ring_def)
  let ?b = "s_base_thread s"
  have hd: "hd xs = ?b"
    using r by (simp add: ring_def)
  have ch: "chain (next_of s) (prev_of s) (ys @ [l, ?b])"
    using r by (simp add: ring_def xs hd [unfolded xs])
  then have "prev_of s ?b = Some l"
    unfolding chain_append [of _ _ ys l "[?b]"] by simp
  then have links: "next_of s' = (next_of s)(t \<mapsto> ?b, l \<mapsto> t)" "prev_of s' = (prev_of s)(t \<mapsto> l, ?b \<mapsto> t)"
      "process_of s' = process_of s" "s_base_thread s' = ?b"
    using insert_thread_links [OF ins] by auto
  have d: "distinct (ys @ [l])" "t \<notin> set (ys @ [l])"
    using r t xs by (auto simp: ring_def)
  have b: "?b \<notin> set (tl (ys @ [l]))"
    using d(1) hd unfolding xs by (cases "ys @ [l]") auto
  have "chain (next_of s') (prev_of s') (ys @ [l])"
  proof (rule chain_cong)
    show "chain (next_of s) (prev_of s) (ys @ [l])"
      using ch by (simp only: chain_append [of _ _ ys l "[?b]"])
    show "next_of s' a = next_of s a" if "a \<in> set (butlast (ys @ [l]))" for a
      using that d by (auto simp: links(1))
    show "prev_of s' c = prev_of s c" if "c \<in> set (tl (ys @ [l]))" for c
      using that b d(2) list.set_sel(2) [of "ys @ [l]" c] by (auto simp: links(2))
  qed
  moreover have "t \<noteq> ?b"
    using hd r t by (metis hd_in_set ring_def)
  then have "chain (next_of s') (prev_of s') [l, t, ?b]"
    using d(2) by (simp add: links(1,2))
  ultimately have "chain (next_of s') (prev_of s') (ys @ l # [t, ?b])"
    by (simp only: chain_append [of _ _ ys l "[t, ?b]"])
  moreover have "hd (ys @ [l, t]) = ?b"
    using hd by (cases ys) (simp_all add: xs)
  ultimately show ?thesis
    using r t links(3,4) by (simp add: ring_def xs)
qed

lemma destroy_thread_links:
  assumes "destroy_thread t s = Some s'" and "prev_of s t = Some p" and "p \<noteq> t"
  shows "\<exists>n. next_of s t = Some n \<and> next_of s' = ((next_of s)(p \<mapsto> n))(t := None) \<and>
    prev_of s' = ((prev_of s)(n \<mapsto> p))(t := None) \<and> process_of s' = (process_of s)(t := None) \<and> s_base_thread s' = s_base_thread s"
proof -
  obtain th s1 where th: "s_thread s t = Some th" and unl: "unlink_thread th (s\<lparr>s_thread_count :=
      (s_thread_count s)(th_process th := s_thread_count s (th_process th) - 1)\<rparr>) = Some s1"
    and s': "s' = s1\<lparr>s_thread := (s_thread s1)(t := None)\<rparr>"
    using assms(1) by (auto simp: destroy_thread_def split: Option.bind_splits)
  let ?s = "s\<lparr>s_thread_count := (s_thread_count s)(th_process th := s_thread_count s (th_process th) - 1)\<rparr>"
  have same: "next_of ?s = next_of s" "prev_of ?s = prev_of s" "process_of ?s = process_of s"
    by (simp_all add: next_of_def prev_of_def process_of_def fun_eq_iff)
  have "th_prev th = Some p"
    using assms(2) th by (simp add: prev_of_def)
  then obtain n s0 where n: "th_next th = Some n" and st: "set_next p n ?s = Some s0" "set_prev n p s0 = Some s1"
    using unl by (auto simp: unlink_thread_def split: Option.bind_splits)
  have gone: "next_of s' = (next_of s1)(t := None)" "prev_of s' = (prev_of s1)(t := None)" "process_of s' = (process_of s1)(t := None)"
      "s_base_thread s' = s_base_thread s1"
    by (simp_all add: s' next_of_def prev_of_def process_of_def fun_eq_iff)
  show ?thesis
    using n th set_next_links [OF st(1)] set_prev_links [OF st(2)] unfolding gone same by (simp add: next_of_def)
qed

lemma ring_split:
  assumes "ring (ys @ t # zs) s" "ys \<noteq> []"
  shows "prev_of s t = Some (last ys)" "next_of s t = Some (hd (zs @ [s_base_thread s]))"
    "chain (next_of s) (prev_of s) ys" "chain (next_of s) (prev_of s) (zs @ [s_base_thread s])"
proof -
  obtain ws p where ys: "ys = ws @ [p]"
    using assms(2) by (cases ys rule: rev_cases) auto
  obtain n vs where vs: "zs @ [s_base_thread s] = n # vs"
    by (cases zs) auto
  have "(ys @ t # zs) @ [hd (ys @ t # zs)] = ws @ p # t # n # vs"
    using assms ys vs by (simp add: ring_def)
  then have "chain (next_of s) (prev_of s) (ws @ p # t # n # vs)"
    using assms(1) unfolding ring_def by metis
  then have "chain (next_of s) (prev_of s) (ws @ [p])" "chain (next_of s) (prev_of s) (p # t # n # vs)"
    unfolding chain_append [of _ _ ws p "t # n # vs"] by blast+
  then show "prev_of s t = Some (last ys)" "next_of s t = Some (hd (zs @ [s_base_thread s]))"
    "chain (next_of s) (prev_of s) ys" "chain (next_of s) (prev_of s) (zs @ [s_base_thread s])"
    by (simp_all add: ys vs)
qed

lemma chain_join:
  "chain nxt prv xs \<Longrightarrow> chain nxt prv (y # ys) \<Longrightarrow> xs \<noteq> [] \<Longrightarrow> nxt (last xs) = Some y \<Longrightarrow> prv y = Some (last xs) \<Longrightarrow>
   chain nxt prv (xs @ y # ys)"
  by (induction xs rule: induct_list012) auto

lemma destroy_thread_ring:
  assumes r: "ring (ys @ t # zs) s" and ys: "ys \<noteq> []" and des: "destroy_thread t s = Some s'"
  shows "ring (ys @ zs) s' \<and> process_of s' = (process_of s)(t := None)"
proof -
  let ?b = "s_base_thread s" and ?p = "last ys"
  define n vs where nv: "n = hd (zs @ [?b])" "vs = tl (zs @ [?b])"
  have d: "distinct (ys @ t # zs)" and hd: "hd ys = ?b"
    using r ys by (auto simp: ring_def)
  have zs: "zs @ [?b] = n # vs"
    by (simp add: nv)
  have p: "?p \<in> set ys" "?b \<in> set ys" "?p \<noteq> t" "?b \<noteq> t"
    using ys hd d last_in_set [OF ys] hd_in_set [OF ys] by auto
  have links: "next_of s' = ((next_of s)(?p \<mapsto> n))(t := None)" "prev_of s' = ((prev_of s)(n \<mapsto> ?p))(t := None)"
      "process_of s' = (process_of s)(t := None)" "s_base_thread s' = ?b"
    using destroy_thread_links [OF des ring_split(1) [OF r ys] p(3)] ring_split(2) [OF r ys] by (auto simp: nv)
  have bt: "?b \<notin> set (tl ys)"
    using d hd ys by (cases ys) auto
  have lb: "?p \<notin> set (butlast ys)"
    using d ys by (cases ys rule: rev_cases) auto
  have nz: "n \<in> set (zs @ [?b])" "set vs \<subseteq> set (zs @ [?b])"
    unfolding zs by auto
  have dz: "distinct (n # vs)"
    unfolding zs [symmetric] using d p(2) by auto
  have n: "n \<noteq> t" "n \<notin> set vs" "n \<notin> set (tl ys)" "t \<notin> set vs"
    using nz dz p d bt list.set_sel(2) [OF ys, of n] by auto
  have "chain (next_of s') (prev_of s') ys"
  proof (rule chain_cong [OF ring_split(3) [OF r ys]])
    show "next_of s' a = next_of s a" if "a \<in> set (butlast ys)" for a
      using that d lb in_set_butlastD [OF that] by (auto simp: links(1))
    show "prev_of s' c = prev_of s c" if "c \<in> set (tl ys)" for c
      using that d n list.set_sel(2) [OF ys that] by (auto simp: links(2))
  qed
  moreover have "chain (next_of s') (prev_of s') (n # vs)"
    unfolding zs [symmetric]
  proof (rule chain_cong [OF ring_split(4) [OF r ys]])
    show "next_of s' a = next_of s a" if "a \<in> set (butlast (zs @ [?b]))" for a
      using that d p by (auto simp: links(1))
    show "prev_of s' c = prev_of s c" if "c \<in> set (tl (zs @ [?b]))" for c
      using that n by (auto simp: links(2) zs)
  qed
  ultimately have "chain (next_of s') (prev_of s') (ys @ n # vs)"
    using ys p n by (intro chain_join) (simp_all add: links(1,2))
  then have "chain (next_of s') (prev_of s') ((ys @ zs) @ [?b])"
    by (simp add: zs)
  then show ?thesis
    using r ys hd links(3,4) d by (auto simp: ring_def)
qed

lemma create_user_ring:
  assumes r: "ring xs s" and c: "create_user prio t s = Some s'"
  shows "ring xs s'" "t \<notin> set xs" "process_of s' = (process_of s)(t \<mapsto> s_pid_counter s)"
proof -
  have fresh: "s_thread s t = None"
    using c by (auto simp: create_user_def create_thread_def split: Option.bind_splits)
  then show t: "t \<notin> set xs"
    using r by (auto simp: ring_def process_of_def)
  have base: "s_base_thread s' = s_base_thread s"
    using c by (auto simp: create_user_def create_thread_def split: Option.bind_splits)
  have links: "next_of s' = next_of s" "prev_of s' = prev_of s"
    using c fresh by (auto simp: create_user_def create_thread_def next_of_def prev_of_def fun_eq_iff
        split: Option.bind_splits if_splits)
  show pr: "process_of s' = (process_of s)(t \<mapsto> s_pid_counter s)"
    using c by (auto simp: create_user_def create_thread_def process_of_def fun_eq_iff split: Option.bind_splits)
  show "ring xs s'"
    using r unfolding ring_def links base pr by auto
qed

lemma from_pid_loop_ring:
  "chain (next_of s) (prev_of s) ((t # zs) @ [s_base_thread s]) \<Longrightarrow> s_base_thread s \<notin> set zs \<Longrightarrow>
   \<forall>u\<in>set (t # zs). process_of s u \<noteq> None \<Longrightarrow>
   from_pid_loop pid t s = Some (if \<exists>u\<in>set (t # zs). process_of s u = Some pid then Some pid else None)"
proof (induction zs arbitrary: t)
  case Nil
  then obtain th where "s_thread s t = Some th"
    by (auto simp: process_of_def)
  then show ?case
    using Nil by (subst from_pid_loop.simps) (auto simp: process_of_def next_of_def)
next
  case (Cons n zs)
  obtain th where th: "s_thread s t = Some th"
    using Cons.prems(3) by (auto simp: process_of_def)
  have nx: "th_next th = Some n"
    using Cons.prems(1) th by (simp add: next_of_def)
  have "from_pid_loop pid n s = Some (if \<exists>u\<in>set (n # zs). process_of s u = Some pid then Some pid else None)"
    using Cons.prems by (intro Cons.IH) auto
  moreover have "n \<noteq> s_base_thread s"
    using Cons.prems(2) by auto
  moreover have "process_of s t = Some (th_process th)"
    by (simp add: process_of_def th)
  ultimately show ?case
    by (subst from_pid_loop.simps) (simp add: th nx)
qed

lemma from_pid_ring:
  assumes "ring xs s"
  shows "from_pid pid s = Some (if \<exists>t\<in>set xs. process_of s t = Some pid then Some pid else None)"
proof -
  obtain zs where xs: "xs = s_base_thread s # zs"
    using assms by (cases xs) (auto simp: ring_def)
  then show ?thesis
    using assms unfolding from_pid_def xs by (intro from_pid_loop_ring) (auto simp: ring_def)
qed

datatype ring_op = Create thread_priority nat | Destroy nat

fun ring_op_step :: "ring_op \<Rightarrow> sched \<Rightarrow> sched option" where
  "ring_op_step (Create prio t) s = create_user prio t s \<bind> insert_thread t"
| "ring_op_step (Destroy t) s = destroy_thread t s"

text \<open>The list that the ring stands for: the base thread stays, new threads come last.\<close>

fun live_threads :: "ring_op list \<Rightarrow> nat list \<Rightarrow> nat list" where
  "live_threads [] xs = xs"
| "live_threads (Create prio t # ops) xs = live_threads ops (xs @ [t])"
| "live_threads (Destroy t # ops) xs = live_threads ops (remove1 t xs)"

fun valid_ops :: "ring_op list \<Rightarrow> nat list \<Rightarrow> bool" where
  "valid_ops [] xs \<longleftrightarrow> True"
| "valid_ops (Create prio t # ops) xs \<longleftrightarrow> valid_ops ops (xs @ [t])"
| "valid_ops (Destroy t # ops) xs \<longleftrightarrow> t \<in> set (tl xs) \<and> valid_ops ops (remove1 t xs)"

lemma destroy_thread_remove1:
  assumes r: "ring xs s" and t: "t \<in> set (tl xs)" and des: "destroy_thread t s = Some s'"
  shows "ring (remove1 t xs) s'"
proof -
  obtain ys zs where tl: "tl xs = ys @ t # zs" "t \<notin> set ys"
    using split_list_first [OF t] by auto
  have xs: "xs = (hd xs # ys) @ t # zs" and "hd xs \<noteq> t"
    using r t tl by (cases xs; auto simp: ring_def)+
  moreover have "remove1 t ((h # ys) @ t # zs) = (h # ys) @ zs" if "h \<noteq> t" for h
    using tl(2) that by (simp add: remove1_append)
  ultimately have "remove1 t xs = (hd xs # ys) @ zs"
    by metis
  then show ?thesis
    using destroy_thread_ring [of "hd xs # ys" t zs s s'] r xs des by auto
qed

lemma ring_ops_ring:
  "ring xs s \<Longrightarrow> valid_ops ops xs \<Longrightarrow> for_each ring_op_step ops s = Some s' \<Longrightarrow> ring (live_threads ops xs) s'"
proof (induction ops arbitrary: xs s)
  case (Cons op ops)
  obtain s1 where s1: "ring_op_step op s = Some s1" "for_each ring_op_step ops s1 = Some s'"
    using Cons.prems(3) by (auto split: Option.bind_splits)
  show ?case
  proof (cases op)
    case (Create prio t)
    then obtain s0 where s0: "create_user prio t s = Some s0" "insert_thread t s0 = Some s1"
      using s1(1) by (auto split: Option.bind_splits)
    have "ring (xs @ [t]) s1"
      using insert_thread_ring [OF create_user_ring(1,2) [OF Cons.prems(1) s0(1)] _ s0(2)]
        create_user_ring(3) [OF Cons.prems(1) s0(1)] by simp
    then show ?thesis
      using Cons.IH [OF _ _ s1(2)] Cons.prems(2) Create by simp
  next
    case (Destroy t)
    then have "ring (remove1 t xs) s1"
      using destroy_thread_remove1 [OF Cons.prems(1)] Cons.prems(2) s1(1) by simp
    then show ?thesis
      using Cons.IH [OF _ _ s1(2)] Cons.prems(2) Destroy by simp
  qed
qed simp

lemma initial_ring: "ring [t] (sched_initialise t)"
  by (simp add: ring_def sched_initialise_def process_of_def next_of_def prev_of_def)

text \<open>
  C20. After any creation and destruction of threads, the threads that were not destroyed form one ring in
  the order of their creation, linked in both directions from the idle thread, and the walk of the ring that
  looks for a process ends, whatever number it is asked for, and finds it exactly when a thread of that process
  is in the ring.
\<close>

theorem thread_ring_from_pid:
  assumes "valid_ops ops [idle]" and "for_each ring_op_step ops (sched_initialise idle) = Some s"
  shows "ring (live_threads ops [idle]) s \<and>
    from_pid pid s = Some (if \<exists>t\<in>set (live_threads ops [idle]). process_of s t = Some pid then Some pid else None)"
  using ring_ops_ring [OF initial_ring assms] from_pid_ring by blast

theorem thread_ring_from_pid_witness:
  "\<exists>s. for_each ring_op_step [Create IdlePriority 1, Create IdlePriority 2, Destroy 1] (sched_initialise 0) = Some s \<and>
     from_pid 2 s = Some (Some 2) \<and> from_pid 1 s = Some None"
proof -
  let ?ops = "[Create IdlePriority 1, Create IdlePriority 2, Destroy 1]"
  let ?p = "\<lambda>s. map_option (\<lambda>s. (process_of s 0, process_of s 1, process_of s 2)) s"
  have "?p (for_each ring_op_step ?ops (sched_initialise 0)) = Some (Some 0, None, Some 2)"
    by code_simp
  then obtain s where s: "for_each ring_op_step ?ops (sched_initialise 0) = Some s"
    and p: "process_of s 0 = Some 0" "process_of s 2 = Some 2"
    by auto
  have v: "valid_ops ?ops [0]" and l: "live_threads ?ops [0] = [0, 2]"
    by simp_all
  show ?thesis
    using s thread_ring_from_pid [OF v s, of 2] thread_ring_from_pid [OF v s, of 1] unfolding l by (auto simp: p)
qed

end
