(* ===== verification/Syscalls.thy ===== *)
theory Syscalls
  imports Fs Scheduler
begin

text \<open>
  The system calls of \<^verbatim>\<open>src/kernel/syscalls.cc\<close> on files, with the descriptor tables of
  \<^verbatim>\<open>src/kernel/proc/process.cc\<close> and the file handles of \<^verbatim>\<open>src/kernel/fs/file_handle.cc\<close>. A process
  of the system has one thread; a call that blocks leaves what it waits for in its process and goes on when the
  scheduler finds that its blocker is satisfied. References to files are counted as in
  \<^verbatim>\<open>src/ustd/shared_ptr.hh\<close>: by the handles in the tables, the bindings of inodes, the backlogs of
  server sockets, and the local variables of a running or waiting call.
\<close>

section \<open>State\<close>

text \<open>The classes of files apart from sockets, which are in the store of \<open>Ipc\<close>. The flag of the log device says that it is connected.\<close>

datatype kfile = InodeF nat | PipeF pipe | ServerF server_socket | LogF bool

record handle =
  hd_file :: nat
  hd_direction :: attach_direction
  hd_offset :: nat

text \<open>
  What a process waits for: a connection to a server, the acceptance of its socket by a server, a read of so many bytes or a
  write through a descriptor on a file at an offset, a poll, or the end of a process.
\<close>

datatype pending =
    PendAccept nat
  | PendConnect nat nat
  | PendRead nat nat nat nat
  | PendWrite nat nat nat "u8 list"
  | PendPoll "poll_fd list" "nat option"
  | PendWait "nat option"

record process =
  p_fds :: "handle option list"
  p_cwd :: "nat option"
  p_pending :: "pending option"
  p_running :: bool

record kernel =
  k_vfs :: vfs
  k_ipc :: ipc
  k_files :: "kfile shared"
  k_log :: "char ring_buffer"
  k_procs :: "nat \<rightharpoonup> process"
  k_pid_counter :: nat
  k_time :: nat

datatype reply =
    Error kerror
  | Value nat
  | Bytes "u8 list"
  | Fds nat nat
  | Chars string
  | Revents "(bool \<times> bool) list"
  | Blocks

section \<open>Files\<close>

text \<open>Files have addresses from the same supply as sockets. A new file has the reference of the variable that holds it.\<close>

definition new_file :: "kfile \<Rightarrow> kernel \<Rightarrow> nat \<times> kernel" where
  "new_file f k =
     (let p = ipc_next (k_ipc k)
      in (p, k\<lparr>k_files := (k_files k)(p \<mapsto> (f, 1)), k_ipc := (k_ipc k)\<lparr>ipc_next := p + 1\<rparr>\<rparr>))"

definition is_socket :: "nat \<Rightarrow> kernel \<Rightarrow> bool" where
  "is_socket p k \<longleftrightarrow> ipc_socks (k_ipc k) p \<noteq> None"

definition file_at :: "nat \<Rightarrow> kernel \<Rightarrow> kfile option" where
  "file_at p k = map_option fst (k_files k p)"

definition set_file :: "nat \<Rightarrow> kfile \<Rightarrow> kernel \<Rightarrow> kernel" where
  "set_file p f k = (case k_files k p of None \<Rightarrow> k | Some (g, n) \<Rightarrow> k\<lparr>k_files := (k_files k)(p \<mapsto> (f, n))\<rparr>)"

definition file_add_ref :: "nat \<Rightarrow> kernel \<Rightarrow> kernel option" where
  "file_add_ref p k =
     (if is_socket p k then do { socks \<leftarrow> add_ref p (ipc_socks (k_ipc k)); Some (k\<lparr>k_ipc := (k_ipc k)\<lparr>ipc_socks := socks\<rparr>\<rparr>) }
      else do { files \<leftarrow> add_ref p (k_files k); Some (k\<lparr>k_files := files\<rparr>) })"

text \<open>The destructor of a server socket drops the sockets of its backlog.\<close>

definition destroy_file :: "kfile \<Rightarrow> kernel \<Rightarrow> kernel option" where
  "destroy_file f k =
     (case f of
        ServerF ss \<Rightarrow> do { st \<leftarrow> for_each drop_socket (ss_queue ss) (k_ipc k); Some (k\<lparr>k_ipc := st\<rparr>) }
      | _ \<Rightarrow> Some k)"

definition file_sub_ref :: "nat \<Rightarrow> kernel \<Rightarrow> kernel option" where
  "file_sub_ref p k =
     (if is_socket p k then do { st \<leftarrow> drop_socket p (k_ipc k); Some (k\<lparr>k_ipc := st\<rparr>) }
      else case k_files k p of
        None \<Rightarrow> None
      | Some (f, n) \<Rightarrow>
          if n = 1 then destroy_file f (k\<lparr>k_files := (k_files k)(p := None)\<rparr>)
          else Some (k\<lparr>k_files := (k_files k)(p \<mapsto> (f, n - 1))\<rparr>))"

definition is_pipe :: "nat \<Rightarrow> kernel \<Rightarrow> bool" where
  "is_pipe p k = (case file_at p k of Some (PipeF _) \<Rightarrow> True | _ \<Rightarrow> False)"

text \<open>The virtual functions \<open>attach\<close> and \<open>detach\<close>: only a pipe does something.\<close>

definition file_attach :: "attach_direction \<Rightarrow> nat \<Rightarrow> kernel \<Rightarrow> kernel option" where
  "file_attach d p k =
     (case file_at p k of
        Some (PipeF pp) \<Rightarrow> do { pp' \<leftarrow> pipe_attach d pp; Some (set_file p (PipeF pp') k) }
      | _ \<Rightarrow> Some k)"

definition file_detach :: "attach_direction \<Rightarrow> nat \<Rightarrow> kernel \<Rightarrow> kernel option" where
  "file_detach d p k =
     (case file_at p k of
        Some (PipeF pp) \<Rightarrow> do { pp' \<leftarrow> pipe_detach d pp; Some (set_file p (PipeF pp') k) }
      | _ \<Rightarrow> Some k)"

definition file_read_would_block :: "nat \<Rightarrow> kernel \<Rightarrow> bool option" where
  "file_read_would_block p k =
     (if is_socket p k then socket_read_would_block p (k_ipc k)
      else map_option (\<lambda>f. case f of
             InodeF i \<Rightarrow> False | PipeF pp \<Rightarrow> pipe_read_would_block pp | ServerF ss \<Rightarrow> accept_would_block ss | LogF c \<Rightarrow> False)
           (file_at p k))"

definition file_write_would_block :: "nat \<Rightarrow> kernel \<Rightarrow> bool option" where
  "file_write_would_block p k =
     (if is_socket p k then socket_write_would_block p (k_ipc k)
      else map_option (\<lambda>f. case f of
             InodeF i \<Rightarrow> False | PipeF pp \<Rightarrow> pipe_write_would_block pp | ServerF ss \<Rightarrow> False | LogF c \<Rightarrow> False)
           (file_at p k))"

definition file_valid :: "nat \<Rightarrow> kernel \<Rightarrow> bool option" where
  "file_valid p k =
     (if is_socket p k then Some True
      else map_option (\<lambda>f. case f of LogF c \<Rightarrow> c | _ \<Rightarrow> True) (file_at p k))"

definition kfile_read :: "nat \<Rightarrow> nat \<Rightarrow> nat \<Rightarrow> kernel \<Rightarrow> ((kerror + u8 list) \<times> kernel) option" where
  "kfile_read p n offset k =
     (if is_socket p k then do { (out, st) \<leftarrow> socket_read p n (k_ipc k); Some (Inr out, k\<lparr>k_ipc := st\<rparr>) }
      else do {
        f \<leftarrow> file_at p k;
        (case f of
           InodeF i \<Rightarrow> do { out \<leftarrow> inode_read (k_vfs k) i n offset; Some (Inr out, k) }
         | PipeF pp \<Rightarrow> (let (out, pp') = pipe_read n pp in Some (Inr out, set_file p (PipeF pp') k))
         | ServerF ss \<Rightarrow> Some (Inl Invalid, k)
         | LogF c \<Rightarrow> do { out \<leftarrow> dmesg_read (k_log k) n offset; Some (Inr (map of_char out), k) })
      })"

definition kfile_write :: "nat \<Rightarrow> u8 list \<Rightarrow> nat \<Rightarrow> kernel \<Rightarrow> ((kerror + nat) \<times> kernel) option" where
  "kfile_write p bytes offset k =
     (if is_socket p k then do { (m, st) \<leftarrow> socket_write p bytes (k_ipc k); Some (Inr m, k\<lparr>k_ipc := st\<rparr>) }
      else do {
        f \<leftarrow> file_at p k;
        (case f of
           InodeF i \<Rightarrow> do { (m, fs) \<leftarrow> inode_write i bytes offset (k_vfs k); Some (Inr m, k\<lparr>k_vfs := fs\<rparr>) }
         | PipeF pp \<Rightarrow> (let (m, pp') = pipe_write bytes pp in Some (Inr m, set_file p (PipeF pp') k))
         | ServerF ss \<Rightarrow> Some (Inl Invalid, k)
         | LogF c \<Rightarrow> Some (Inr 0, k))
      })"

section \<open>Handles and descriptors\<close>

definition handle_new :: "nat \<Rightarrow> attach_direction \<Rightarrow> kernel \<Rightarrow> (handle \<times> kernel) option" where
  "handle_new p d k = do {
     k1 \<leftarrow> file_add_ref p k;
     k2 \<leftarrow> file_attach d p k1;
     Some (\<lparr>hd_file = p, hd_direction = d, hd_offset = 0\<rparr>, k2)
   }"

definition handle_copy :: "handle \<Rightarrow> kernel \<Rightarrow> (handle \<times> kernel) option" where
  "handle_copy other k = do {
     (h, k') \<leftarrow> handle_new (hd_file other) (hd_direction other) k;
     Some (h\<lparr>hd_offset := hd_offset other\<rparr>, k')
   }"

definition handle_destroy :: "handle \<Rightarrow> kernel \<Rightarrow> kernel option" where
  "handle_destroy h k = do { k' \<leftarrow> file_detach (hd_direction h) (hd_file h) k; file_sub_ref (hd_file h) k' }"

definition set_fds :: "nat \<Rightarrow> handle option list \<Rightarrow> kernel \<Rightarrow> kernel" where
  "set_fds pid fds k = k\<lparr>k_procs := (k_procs k)(pid := map_option (\<lambda>p. p\<lparr>p_fds := fds\<rparr>) (k_procs k pid))\<rparr>"

definition fds_of :: "nat \<Rightarrow> kernel \<Rightarrow> handle option list" where
  "fds_of pid k = (case k_procs k pid of None \<Rightarrow> [] | Some p \<Rightarrow> p_fds p)"

text \<open>\<open>m_fds[fd]\<close> with the checks \<open>fd >= m_fds.size() || !m_fds[fd]\<close> of the calls.\<close>

definition fd_handle :: "nat \<Rightarrow> nat \<Rightarrow> kernel \<Rightarrow> handle option" where
  "fd_handle pid fd k = (if fd < length (fds_of pid k) then fds_of pid k ! fd else None)"

definition set_fd :: "nat \<Rightarrow> nat \<Rightarrow> handle option \<Rightarrow> kernel \<Rightarrow> kernel" where
  "set_fd pid fd h k = set_fds pid ((fds_of pid k)[fd := h]) k"

definition clear_fd :: "nat \<Rightarrow> nat \<Rightarrow> kernel \<Rightarrow> kernel option" where
  "clear_fd pid fd k = do {
     ensure (fd < length (fds_of pid k));
     (case fds_of pid k ! fd of
        None \<Rightarrow> Some k
      | Some h \<Rightarrow> do { k' \<leftarrow> handle_destroy h k; Some (set_fd pid fd None k') })
   }"

definition emplace_fd :: "nat \<Rightarrow> nat \<Rightarrow> (kernel \<Rightarrow> (handle \<times> kernel) option) \<Rightarrow> kernel \<Rightarrow> kernel option" where
  "emplace_fd pid fd mk k = do {
     k1 \<leftarrow> clear_fd pid fd k;
     (h, k2) \<leftarrow> mk k1;
     Some (set_fd pid fd (Some h) k2)
   }"

fun free_fd :: "handle option list \<Rightarrow> nat" where
  "free_fd [] = 0"
| "free_fd (None # fds) = 0"
| "free_fd (Some h # fds) = free_fd fds + 1"

definition allocate_fd :: "nat \<Rightarrow> kernel \<Rightarrow> nat \<times> kernel" where
  "allocate_fd pid k =
     (let fds = fds_of pid k; fd = free_fd fds
      in if fd < length fds then (fd, k) else (length fds, set_fds pid (fds @ [None]) k))"

text \<open>\<open>m_fds.ensure_size(size)\<close>.\<close>

definition ensure_fds :: "nat \<Rightarrow> nat \<Rightarrow> kernel \<Rightarrow> kernel" where
  "ensure_fds pid n k = set_fds pid (fds_of pid k @ replicate (n - length (fds_of pid k)) None) k"

definition set_pending :: "nat \<Rightarrow> pending option \<Rightarrow> kernel \<Rightarrow> kernel" where
  "set_pending pid w k = k\<lparr>k_procs := (k_procs k)(pid := map_option (\<lambda>p. p\<lparr>p_pending := w\<rparr>) (k_procs k pid))\<rparr>"

section \<open>Blocking\<close>

text \<open>The files as the blockers of the scheduler see them, and the number of threads of a process.\<close>

definition view_of :: "kernel \<Rightarrow> kernel_view" where
  "view_of k =
     \<lparr>kv_ns_since_boot = k_time k,
      kv_accept_would_block = (\<lambda>p. file_read_would_block p k = Some True),
      kv_connected = (\<lambda>p. socket_connected p (k_ipc k) = Some True),
      kv_valid = (\<lambda>p. file_valid p k = Some True),
      kv_read_would_block = (\<lambda>p _. file_read_would_block p k = Some True),
      kv_write_would_block = (\<lambda>p _. file_write_would_block p k = Some True),
      kv_file_handle = (\<lambda>pid fd. map_option (\<lambda>h. (hd_file h, hd_offset h)) (fd_handle pid fd k))\<rparr>"

definition thread_counts :: "kernel \<Rightarrow> nat \<Rightarrow> nat" where
  "thread_counts k pid = (case k_procs k pid of None \<Rightarrow> 0 | Some p \<Rightarrow> if p_running p then 1 else 0)"

fun blocker_of :: "nat \<Rightarrow> pending \<Rightarrow> blocker" where
  "blocker_of pid (PendAccept server) = AcceptBlocker server"
| "blocker_of pid (PendConnect sock server) = ConnectBlocker sock"
| "blocker_of pid (PendRead p offset fd n) = ReadBlocker p offset"
| "blocker_of pid (PendWrite p offset fd bytes) = WriteBlocker p offset"
| "blocker_of pid (PendPoll fds deadline) = PollBlocker fds pid deadline"
| "blocker_of pid (PendWait q) = WaitBlocker q"

definition may_resume :: "nat \<Rightarrow> kernel \<Rightarrow> bool" where
  "may_resume pid k =
     (case k_procs k pid \<bind> p_pending of
        None \<Rightarrow> False
      | Some w \<Rightarrow> should_unblock (view_of k) (thread_counts k) (blocker_of pid w) = Some True)"

section \<open>Descriptors\<close>

definition sys_close :: "nat \<Rightarrow> nat \<Rightarrow> kernel \<Rightarrow> (reply \<times> kernel) option" where
  "sys_close pid fd k =
     (case fd_handle pid fd k of
        None \<Rightarrow> Some (Error BadFd, k)
      | Some h \<Rightarrow> do { k' \<leftarrow> clear_fd pid fd k; Some (Value 0, k') })"

definition sys_dup_fd :: "nat \<Rightarrow> nat \<Rightarrow> nat \<Rightarrow> kernel \<Rightarrow> (reply \<times> kernel) option" where
  "sys_dup_fd pid src dst k =
     (case fd_handle pid src k of
        None \<Rightarrow> Some (Error BadFd, k)
      | Some h \<Rightarrow>
          if src = dst then Some (Value 0, k)
          else do {
            k' \<leftarrow> emplace_fd pid dst (handle_copy h) (ensure_fds pid (add32 dst 1) k);
            Some (Value 0, k')
          })"

definition sys_create_pipe :: "nat \<Rightarrow> kernel \<Rightarrow> (reply \<times> kernel) option" where
  "sys_create_pipe pid k =
     (let (p, k1) = new_file (PipeF pipe_new) k; (read_fd, k2) = allocate_fd pid k1 in do {
        k3 \<leftarrow> emplace_fd pid read_fd (handle_new p ReadDir) k2;
        let (write_fd, k4) = allocate_fd pid k3;
        k5 \<leftarrow> emplace_fd pid write_fd (handle_new p WriteDir) k4;
        k6 \<leftarrow> file_sub_ref p k5;
        Some (Fds read_fd write_fd, k6)
      })"

definition sys_seek_fd :: "nat \<Rightarrow> nat \<Rightarrow> nat \<Rightarrow> ub_seek_mode \<Rightarrow> kernel \<Rightarrow> (reply \<times> kernel) option" where
  "sys_seek_fd pid fd offset mode k =
     (case fd_handle pid fd k of
        None \<Rightarrow> Some (Error BadFd, k)
      | Some h \<Rightarrow> do {
          v \<leftarrow> file_valid (hd_file h) k;
          if \<not> v then do { k' \<leftarrow> clear_fd pid fd k; Some (Error BrokenHandle, k') }
          else let o' = (case mode of SeekAdd \<Rightarrow> add64 (hd_offset h) offset | SeekSet \<Rightarrow> offset)
               in Some (Value o', set_fd pid fd (Some (h\<lparr>hd_offset := o'\<rparr>)) k)
        })"

definition sys_size :: "nat \<Rightarrow> nat \<Rightarrow> kernel \<Rightarrow> (reply \<times> kernel) option" where
  "sys_size pid fd k =
     (case fd_handle pid fd k of
        None \<Rightarrow> Some (Error BadFd, k)
      | Some h \<Rightarrow> do {
          v \<leftarrow> file_valid (hd_file h) k;
          if \<not> v then do { k' \<leftarrow> clear_fd pid fd k; Some (Error BrokenHandle, k') }
          else Some (case file_at (hd_file h) k of Some (InodeF i) \<Rightarrow> Value (inode_size (k_vfs k) i) | _ \<Rightarrow> Error Invalid, k)
        })"

text \<open>None of the files here overrides \<open>File::ioctl\<close> or \<open>File::mmap\<close>.\<close>

definition sys_ioctl :: "nat \<Rightarrow> nat \<Rightarrow> kernel \<Rightarrow> (reply \<times> kernel) option" where
  "sys_ioctl pid fd k = Some (case fd_handle pid fd k of None \<Rightarrow> Error BadFd | Some h \<Rightarrow> Error Invalid, k)"

definition sys_mmap :: "nat \<Rightarrow> nat \<Rightarrow> kernel \<Rightarrow> (reply \<times> kernel) option" where
  "sys_mmap pid fd k = Some (case fd_handle pid fd k of None \<Rightarrow> Error BadFd | Some h \<Rightarrow> Value 0, k)"

section \<open>Reading, writing and polling\<close>

definition read_finish :: "nat \<Rightarrow> nat \<Rightarrow> nat \<Rightarrow> kernel \<Rightarrow> (reply \<times> kernel) option" where
  "read_finish pid fd n k = do {
     h \<leftarrow> fd_handle pid fd k;
     (r, k') \<leftarrow> kfile_read (hd_file h) n (hd_offset h) k;
     Some (case r of
             Inl e \<Rightarrow> (Error e, k')
           | Inr bytes \<Rightarrow> (Bytes bytes, set_fd pid fd (Some (h\<lparr>hd_offset := add64 (hd_offset h) (length bytes)\<rparr>)) k'))
   }"

definition sys_read_fd :: "nat \<Rightarrow> nat \<Rightarrow> nat \<Rightarrow> kernel \<Rightarrow> (reply \<times> kernel) option" where
  "sys_read_fd pid fd n k =
     (case fd_handle pid fd k of
        None \<Rightarrow> Some (Error BadFd, k)
      | Some h \<Rightarrow> do {
          v \<leftarrow> file_valid (hd_file h) k;
          if \<not> v then do { k' \<leftarrow> clear_fd pid fd k; Some (Error BrokenHandle, k') }
          else do {
            b \<leftarrow> file_read_would_block (hd_file h) k;
            if b then do {
              k' \<leftarrow> file_add_ref (hd_file h) k;
              Some (Blocks, set_pending pid (Some (PendRead (hd_file h) (hd_offset h) fd n)) k')
            } else read_finish pid fd n k
          }
        })"

definition write_finish :: "nat \<Rightarrow> nat \<Rightarrow> u8 list \<Rightarrow> kernel \<Rightarrow> (reply \<times> kernel) option" where
  "write_finish pid fd bytes k = do {
     h \<leftarrow> fd_handle pid fd k;
     (r, k') \<leftarrow> kfile_write (hd_file h) bytes (hd_offset h) k;
     Some (case r of
             Inl e \<Rightarrow> (Error e, k')
           | Inr m \<Rightarrow> (Value m, set_fd pid fd (Some (h\<lparr>hd_offset := add64 (hd_offset h) m\<rparr>)) k'))
   }"

definition sys_write_fd :: "nat \<Rightarrow> nat \<Rightarrow> u8 list \<Rightarrow> kernel \<Rightarrow> (reply \<times> kernel) option" where
  "sys_write_fd pid fd bytes k =
     (case fd_handle pid fd k of
        None \<Rightarrow> Some (Error BadFd, k)
      | Some h \<Rightarrow> do {
          v \<leftarrow> file_valid (hd_file h) k;
          if \<not> v then do { k' \<leftarrow> clear_fd pid fd k; Some (Error BrokenHandle, k') }
          else do {
            b \<leftarrow> file_write_would_block (hd_file h) k;
            if b then do {
              k' \<leftarrow> file_add_ref (hd_file h) k;
              Some (Blocks, set_pending pid (Some (PendWrite (hd_file h) (hd_offset h) fd bytes)) k')
            } else write_finish pid fd bytes k
          }
        })"

fun poll_revents :: "nat \<Rightarrow> poll_fd list \<Rightarrow> kernel \<Rightarrow> (bool \<times> bool) list option" where
  "poll_revents pid [] k = Some []"
| "poll_revents pid (pf # pfs) k = do {
     ensure (pf_fd pf < length (fds_of pid k));
     let ready = (\<lambda>event would_block.
       if event then do { h \<leftarrow> fd_handle pid (pf_fd pf) k; b \<leftarrow> would_block (hd_file h) k; Some (\<not> b) } else Some False);
     r \<leftarrow> ready (pf_read pf) file_read_would_block;
     w \<leftarrow> ready (pf_write pf) file_write_would_block;
     rest \<leftarrow> poll_revents pid pfs k;
     Some ((r, w) # rest)
   }"

definition sys_poll :: "nat \<Rightarrow> poll_fd list \<Rightarrow> int \<Rightarrow> kernel \<Rightarrow> (reply \<times> kernel) option" where
  "sys_poll pid fds timeout k =
     Some (Blocks, set_pending pid
       (Some (PendPoll fds (if timeout > 0 then Some (add64 (k_time k) (nat timeout)) else None))) k)"

definition poll_finish :: "nat \<Rightarrow> poll_fd list \<Rightarrow> kernel \<Rightarrow> (reply \<times> kernel) option" where
  "poll_finish pid fds k = do { rs \<leftarrow> poll_revents pid fds k; Some (Revents rs, k) }"

section \<open>Paths\<close>

definition cwd_of :: "nat \<Rightarrow> kernel \<Rightarrow> nat option" where
  "cwd_of pid k = k_procs k pid \<bind> p_cwd"

text \<open>The reference to an opened file: a new file on an inode, or another reference to the file bound to it.\<close>

definition hold_file :: "open_file \<Rightarrow> kernel \<Rightarrow> (nat \<times> kernel) option" where
  "hold_file f k =
     (case f of
        InodeFile i \<Rightarrow> Some (new_file (InodeF i) k)
      | BoundFile p \<Rightarrow> do { k' \<leftarrow> file_add_ref p k; Some (p, k') })"

definition sys_open :: "nat \<Rightarrow> string \<Rightarrow> bool \<Rightarrow> bool \<Rightarrow> kernel \<Rightarrow> (reply \<times> kernel) option" where
  "sys_open pid path create trunc k = do {
     (r, fs) \<leftarrow> vfs_open path create trunc (cwd_of pid k) (k_vfs k);
     let k1 = k\<lparr>k_vfs := fs\<rparr>;
     (case r of
        Inl e \<Rightarrow> Some (Error e, k1)
      | Inr f \<Rightarrow> do {
          (p, k2) \<leftarrow> hold_file f k1;
          let (fd, k3) = allocate_fd pid k2;
          k4 \<leftarrow> emplace_fd pid fd (handle_new p (if is_pipe p k3 then ReadDir else ReadWriteDir)) k3;
          k5 \<leftarrow> file_sub_ref p k4;
          Some (Value fd, k5)
        })
   }"

definition sys_chdir :: "nat \<Rightarrow> string \<Rightarrow> kernel \<Rightarrow> (reply \<times> kernel) option" where
  "sys_chdir pid path k = do {
     r \<leftarrow> open_directory path (cwd_of pid k) (k_vfs k);
     Some (case r of
             Inl e \<Rightarrow> (Error e, k)
           | Inr i \<Rightarrow> (Value 0, k\<lparr>k_procs := (k_procs k)(pid := map_option (\<lambda>p. p\<lparr>p_cwd := Some i\<rparr>) (k_procs k pid))\<rparr>))
   }"

definition sys_mkdir :: "nat \<Rightarrow> string \<Rightarrow> kernel \<Rightarrow> (reply \<times> kernel) option" where
  "sys_mkdir pid path k = do {
     (r, fs) \<leftarrow> vfs_mkdir path (cwd_of pid k) (k_vfs k);
     Some (case r of Inl e \<Rightarrow> Error e | Inr _ \<Rightarrow> Value 0, k\<lparr>k_vfs := fs\<rparr>)
   }"

definition sys_mount :: "string \<Rightarrow> string \<Rightarrow> kernel \<Rightarrow> (reply \<times> kernel) option" where
  "sys_mount target fs_type k =
     (if fs_type = ''ram'' then do {
        (r, fs) \<leftarrow> vfs_mount target RamFsDirectoryInode (k_vfs k);
        Some (case r of Inl e \<Rightarrow> Error e | Inr _ \<Rightarrow> Value 0, k\<lparr>k_vfs := fs\<rparr>)
      } else Some (Error Invalid, k))"

text \<open>
  The inodes from the working directory up to the root, and their names as a path. Called without a buffer this call and
  the next one return the length of what they copy.
\<close>

partial_function (option) up_to_root :: "vfs \<Rightarrow> nat option \<Rightarrow> nat list \<Rightarrow> nat list option" where
  "up_to_root fs inode inodes =
     (if inode = root_inode fs then Some inodes
      else do { i \<leftarrow> inode; up_to_root fs (i_parent (inode_at fs i)) (inodes @ [i]) })"

definition path_characters :: "vfs \<Rightarrow> nat list \<Rightarrow> string" where
  "path_characters fs inodes =
     (let cs = concat (map (\<lambda>i. CHR ''/'' # i_name (inode_at fs i)) (rev inodes)) in if cs = [] then ''/'' else cs)"

definition sys_getcwd :: "nat \<Rightarrow> kernel \<Rightarrow> (reply \<times> kernel) option" where
  "sys_getcwd pid k = do {
     inodes \<leftarrow> up_to_root (k_vfs k) (cwd_of pid k) [];
     Some (Chars (path_characters (k_vfs k) inodes), k)
   }"

text \<open>The names of a directory, each with its terminator.\<close>

fun read_names :: "vfs \<Rightarrow> nat \<Rightarrow> nat list \<Rightarrow> (kerror + string) option" where
  "read_names fs dir [] = Some (Inr [])"
| "read_names fs dir (i # is') = do {
     c \<leftarrow> inode_child fs dir i;
     (case c of
        Inl e \<Rightarrow> Some (Inl e)
      | Inr child \<Rightarrow> do {
          rest \<leftarrow> read_names fs dir is';
          Some (map_sum id (\<lambda>cs. i_name (inode_at fs child) @ CHR 0x00 # cs) rest)
        })
   }"

definition sys_read_directory :: "nat \<Rightarrow> string \<Rightarrow> kernel \<Rightarrow> (reply \<times> kernel) option" where
  "sys_read_directory pid path k = do {
     r \<leftarrow> open_directory path (cwd_of pid k) (k_vfs k);
     (case r of
        Inl e \<Rightarrow> Some (Error e, k)
      | Inr dir \<Rightarrow> do {
          names \<leftarrow> read_names (k_vfs k) dir [0..<inode_size (k_vfs k) dir];
          Some (case names of Inl e \<Rightarrow> Error e | Inr cs \<Rightarrow> Chars cs, k)
        })
   }"

section \<open>Sockets\<close>

definition sys_bind :: "nat \<Rightarrow> nat \<Rightarrow> string \<Rightarrow> kernel \<Rightarrow> (reply \<times> kernel) option" where
  "sys_bind pid fd path k = do {
     (r, fs) \<leftarrow> vfs_create path (cwd_of pid k) AnonymousFile (k_vfs k);
     let k1 = k\<lparr>k_vfs := fs\<rparr>;
     (case r of
        Inl e \<Rightarrow> Some (Error e, k1)
      | Inr i \<Rightarrow> do {
          h \<leftarrow> fd_handle pid fd k1;
          k2 \<leftarrow> file_add_ref (hd_file h) k1;
          fs' \<leftarrow> bind_anonymous_file i (hd_file h) (k_vfs k2);
          Some (Value fd, k2\<lparr>k_vfs := fs'\<rparr>)
        })
   }"

definition sys_create_server_socket :: "nat \<Rightarrow> nat \<Rightarrow> kernel \<Rightarrow> (reply \<times> kernel) option" where
  "sys_create_server_socket pid backlog_limit k =
     (let (p, k1) = new_file (ServerF (server_socket_new backlog_limit)) k; (fd, k2) = allocate_fd pid k1 in do {
        k3 \<leftarrow> emplace_fd pid fd (handle_new p ReadWriteDir) k2;
        k4 \<leftarrow> file_sub_ref p k3;
        Some (Value fd, k4)
      })"

definition server_at :: "nat \<Rightarrow> kernel \<Rightarrow> server_socket option" where
  "server_at p k = (case file_at p k of Some (ServerF ss) \<Rightarrow> Some ss | _ \<Rightarrow> None)"

definition accept_finish :: "nat \<Rightarrow> nat \<Rightarrow> kernel \<Rightarrow> (reply \<times> kernel) option" where
  "accept_finish pid server k = do {
     ss \<leftarrow> server_at server k;
     (sock, ss', st) \<leftarrow> accept ss (k_ipc k);
     let (fd, k1) = allocate_fd pid (set_file server (ServerF ss') (k\<lparr>k_ipc := st\<rparr>));
     k2 \<leftarrow> emplace_fd pid fd (handle_new sock ReadWriteDir) k1;
     k3 \<leftarrow> file_sub_ref sock k2;
     Some (Value fd, k3)
   }"

definition sys_accept :: "nat \<Rightarrow> nat \<Rightarrow> kernel \<Rightarrow> (reply \<times> kernel) option" where
  "sys_accept pid fd k =
     (case fd_handle pid fd k of
        None \<Rightarrow> Some (Error BadFd, k)
      | Some h \<Rightarrow>
          (case server_at (hd_file h) k of
             None \<Rightarrow> Some (Error Invalid, k)
           | Some ss \<Rightarrow>
               if accept_would_block ss then do {
                 k' \<leftarrow> file_add_ref (hd_file h) k;
                 Some (Blocks, set_pending pid (Some (PendAccept (hd_file h))) k')
               } else accept_finish pid (hd_file h) k))"

definition sys_connect :: "nat \<Rightarrow> string \<Rightarrow> kernel \<Rightarrow> (reply \<times> kernel) option" where
  "sys_connect pid path k = do {
     (r, fs) \<leftarrow> vfs_open path False False (cwd_of pid k) (k_vfs k);
     let k1 = k\<lparr>k_vfs := fs\<rparr>;
     (case r of
        Inl e \<Rightarrow> Some (Error e, k1)
      | Inr f \<Rightarrow> do {
          (p, k2) \<leftarrow> hold_file f k1;
          (case server_at p k2 of
             None \<Rightarrow> do { k3 \<leftarrow> file_sub_ref p k2; Some (Error Invalid, k3) }
           | Some ss \<Rightarrow> do {
               (client, st) \<leftarrow> new_client (k_ipc k2);
               let k3 = k2\<lparr>k_ipc := st\<rparr>;
               rc \<leftarrow> queue_connection_from client ss st;
               (case rc of
                  Inl e \<Rightarrow> do { k4 \<leftarrow> file_sub_ref client k3; k5 \<leftarrow> file_sub_ref p k4; Some (Error e, k5) }
                | Inr (ss', st') \<Rightarrow> do {
                    k4 \<leftarrow> file_add_ref client (set_file p (ServerF ss') (k3\<lparr>k_ipc := st'\<rparr>));
                    Some (Blocks, set_pending pid (Some (PendConnect client p)) k4)
                  })
             })
        })
   }"

definition connect_finish :: "nat \<Rightarrow> nat \<Rightarrow> nat \<Rightarrow> kernel \<Rightarrow> (reply \<times> kernel) option" where
  "connect_finish pid client p k =
     (let (fd, k1) = allocate_fd pid k in do {
        k2 \<leftarrow> emplace_fd pid fd (handle_new client ReadWriteDir) k1;
        k3 \<leftarrow> file_sub_ref client k2;
        k4 \<leftarrow> file_sub_ref p k3;
        Some (Value fd, k4)
      })"

section \<open>Processes\<close>

definition copy_fd :: "nat \<Rightarrow> nat \<Rightarrow> nat \<Rightarrow> kernel \<Rightarrow> kernel option" where
  "copy_fd pid child i k =
     (case fds_of pid k ! i of None \<Rightarrow> Some k | Some h \<Rightarrow> emplace_fd child i (handle_copy h) k)"

definition copy_pair :: "nat \<Rightarrow> nat \<Rightarrow> nat \<times> nat \<Rightarrow> kernel \<Rightarrow> kernel option" where
  "copy_pair pid child pair k = do {
     h \<leftarrow> fd_handle pid (fst pair) k;
     emplace_fd child (snd pair) (handle_copy h) (ensure_fds child (add32 (snd pair) 1) k)
   }"

definition new_process :: "nat option \<Rightarrow> nat \<Rightarrow> kernel \<Rightarrow> nat \<times> kernel" where
  "new_process cwd n k =
     (let child = k_pid_counter k
      in (child, k\<lparr>k_procs := (k_procs k)(child \<mapsto> \<lparr>p_fds = replicate n None, p_cwd = cwd, p_pending = None, p_running = True\<rparr>),
                   k_pid_counter := child + 1\<rparr>))"

definition destroy_process :: "nat \<Rightarrow> kernel \<Rightarrow> kernel option" where
  "destroy_process pid k = do {
     k' \<leftarrow> for_each (clear_fd pid) [0..<length (fds_of pid k)] k;
     Some (k'\<lparr>k_procs := (k_procs k')(pid := None)\<rparr>)
   }"

text \<open>
  Loading the program into the address space of the new thread is the argument \<open>exec\<close>: an error, or none. When it
  fails, the new thread is destroyed and with it the new process.
\<close>

definition sys_create_process ::
    "(string \<Rightarrow> string list \<Rightarrow> kernel \<Rightarrow> kerror option) \<Rightarrow> nat \<Rightarrow> string \<Rightarrow> string list \<Rightarrow> (nat \<times> nat) list \<Rightarrow> kernel \<Rightarrow> (reply \<times> kernel) option" where
  "sys_create_process exec pid path argv copy_fds k =
     (let (child, k1) = new_process (cwd_of pid k) (length (fds_of pid k)) k in do {
        k2 \<leftarrow> for_each (copy_fd pid child) [0..<length (fds_of pid k)] k1;
        k3 \<leftarrow> for_each (copy_pair pid child) (takeWhile (\<lambda>pair. pair \<noteq> (0, 0)) copy_fds) k2;
        (case exec path argv k3 of
           Some e \<Rightarrow> do { k4 \<leftarrow> destroy_process child k3; Some (Error e, k4) }
         | None \<Rightarrow> Some (Value child, k3))
      })"

definition waits_for :: "nat \<Rightarrow> nat \<Rightarrow> kernel \<Rightarrow> bool" where
  "waits_for q pid k = (case k_procs k q of Some p \<Rightarrow> p_pending p = Some (PendWait (Some pid)) | None \<Rightarrow> False)"

text \<open>A process goes away when its thread is dead and nothing waits for it.\<close>

definition reap :: "nat \<Rightarrow> kernel \<Rightarrow> kernel option" where
  "reap pid k =
     (case k_procs k pid of
        None \<Rightarrow> Some k
      | Some p \<Rightarrow>
          if p_running p \<or> list_ex (\<lambda>q. waits_for q pid k) [0..<k_pid_counter k] then Some k else destroy_process pid k)"

definition sys_exit :: "nat \<Rightarrow> kernel \<Rightarrow> kernel option" where
  "sys_exit pid k = reap pid (k\<lparr>k_procs := (k_procs k)(pid := map_option (\<lambda>p. p\<lparr>p_running := False\<rparr>) (k_procs k pid))\<rparr>)"

definition sys_wait_pid :: "nat \<Rightarrow> nat \<Rightarrow> kernel \<Rightarrow> (reply \<times> kernel) option" where
  "sys_wait_pid pid q k =
     Some (Blocks, set_pending pid (Some (PendWait (if thread_counts k q = 0 then None else Some q))) k)"

section \<open>Calls and their resumption\<close>

definition resume :: "nat \<Rightarrow> kernel \<Rightarrow> (reply \<times> kernel) option" where
  "resume pid k = do {
     w \<leftarrow> k_procs k pid \<bind> p_pending;
     let k1 = set_pending pid None k;
     (case w of
        PendAccept server \<Rightarrow> do { k2 \<leftarrow> file_sub_ref server k1; accept_finish pid server k2 }
      | PendConnect client p \<Rightarrow> do { k2 \<leftarrow> file_sub_ref client k1; connect_finish pid client p k2 }
      | PendRead p offset fd n \<Rightarrow> do { k2 \<leftarrow> file_sub_ref p k1; read_finish pid fd n k2 }
      | PendWrite p offset fd bytes \<Rightarrow> do { k2 \<leftarrow> file_sub_ref p k1; write_finish pid fd bytes k2 }
      | PendPoll fds deadline \<Rightarrow> poll_finish pid fds k1
      | PendWait q \<Rightarrow> do { k2 \<leftarrow> (case q of None \<Rightarrow> Some k1 | Some q' \<Rightarrow> reap q' k1); Some (Value 0, k2) })
   }"

datatype syscall =
    Accept nat
  | Bind nat string
  | Chdir string
  | Close nat
  | Connect string
  | CreatePipe
  | CreateProcess string "string list" "(nat \<times> nat) list"
  | CreateServerSocket nat
  | DupFd nat nat
  | Getcwd
  | Getpid
  | Gettime
  | Ioctl nat
  | Mkdir string
  | Mmap nat
  | MountFs string string
  | OpenFile string bool bool
  | Poll "poll_fd list" int
  | ReadFd nat nat
  | ReadDirectory string
  | Seek nat nat ub_seek_mode
  | SizeOf nat
  | WaitPid nat
  | WriteFd nat "u8 list"

text \<open>The table of \<^verbatim>\<open>kernel/api/syscalls.in\<close>, for the calls modelled here that return.\<close>

fun syscall_table ::
    "(string \<Rightarrow> string list \<Rightarrow> kernel \<Rightarrow> kerror option) \<Rightarrow> nat \<Rightarrow> syscall \<Rightarrow> kernel \<Rightarrow> (reply \<times> kernel) option" where
  "syscall_table exec pid (Accept fd) k = sys_accept pid fd k"
| "syscall_table exec pid (Bind fd path) k = sys_bind pid fd path k"
| "syscall_table exec pid (Chdir path) k = sys_chdir pid path k"
| "syscall_table exec pid (Close fd) k = sys_close pid fd k"
| "syscall_table exec pid (Connect path) k = sys_connect pid path k"
| "syscall_table exec pid CreatePipe k = sys_create_pipe pid k"
| "syscall_table exec pid (CreateProcess path argv pairs) k = sys_create_process exec pid path argv pairs k"
| "syscall_table exec pid (CreateServerSocket limit) k = sys_create_server_socket pid limit k"
| "syscall_table exec pid (DupFd src dst) k = sys_dup_fd pid src dst k"
| "syscall_table exec pid Getcwd k = sys_getcwd pid k"
| "syscall_table exec pid Getpid k = Some (Value pid, k)"
| "syscall_table exec pid Gettime k = Some (Value (k_time k), k)"
| "syscall_table exec pid (Ioctl fd) k = sys_ioctl pid fd k"
| "syscall_table exec pid (Mkdir path) k = sys_mkdir pid path k"
| "syscall_table exec pid (Mmap fd) k = sys_mmap pid fd k"
| "syscall_table exec pid (MountFs target fs_type) k = sys_mount target fs_type k"
| "syscall_table exec pid (OpenFile path create trunc) k = sys_open pid path create trunc k"
| "syscall_table exec pid (Poll fds timeout) k = sys_poll pid fds timeout k"
| "syscall_table exec pid (ReadFd fd n) k = sys_read_fd pid fd n k"
| "syscall_table exec pid (ReadDirectory path) k = sys_read_directory pid path k"
| "syscall_table exec pid (Seek fd offset mode) k = sys_seek_fd pid fd offset mode k"
| "syscall_table exec pid (SizeOf fd) k = sys_size pid fd k"
| "syscall_table exec pid (WaitPid q) k = sys_wait_pid pid q k"
| "syscall_table exec pid (WriteFd fd bytes) k = sys_write_fd pid fd bytes k"

text \<open>
  One step of the system: a process that runs makes a call, ends, or goes on with a call whose blocker is satisfied; or time
  passes.
\<close>

inductive sys_step :: "(string \<Rightarrow> string list \<Rightarrow> kernel \<Rightarrow> kerror option) \<Rightarrow> kernel \<Rightarrow> kernel \<Rightarrow> bool" for exec where
  call: "k_procs k pid = Some p \<Longrightarrow> p_running p \<Longrightarrow> p_pending p = None \<Longrightarrow> syscall_table exec pid c k = Some (r, k') \<Longrightarrow>
    sys_step exec k k'"
| exit: "k_procs k pid = Some p \<Longrightarrow> p_running p \<Longrightarrow> p_pending p = None \<Longrightarrow> sys_exit pid k = Some k' \<Longrightarrow> sys_step exec k k'"
| goes_on: "may_resume pid k \<Longrightarrow> resume pid k = Some (r, k') \<Longrightarrow> sys_step exec k k'"
| tick: "sys_step exec k (k\<lparr>k_time := t\<rparr>)"

inductive sys_steps :: "(string \<Rightarrow> string list \<Rightarrow> kernel \<Rightarrow> kerror option) \<Rightarrow> kernel \<Rightarrow> kernel \<Rightarrow> bool" for exec where
  no_step: "sys_steps exec k k"
| one_more: "sys_steps exec k k' \<Longrightarrow> sys_step exec k' k'' \<Longrightarrow> sys_steps exec k k''"

text \<open>The system when its first process starts: a file system with a root, and no other file.\<close>

definition boot_kernel :: kernel where
  "boot_kernel =
     \<lparr>k_vfs = the (mount_root RamFsDirectoryInode empty_vfs), k_ipc = \<lparr>ipc_bufs = Map.empty, ipc_socks = Map.empty, ipc_next = 0\<rparr>,
      k_files = Map.empty, k_log = rb_new (CHR 0x00) (KiB 128),
      k_procs = [1 \<mapsto> \<lparr>p_fds = [], p_cwd = Some 0, p_pending = None, p_running = True\<rparr>], k_pid_counter = 2, k_time = 0\<rparr>"

end
