(* ===== verification/References.thy ===== *)
theory References
  imports Syscalls "HOL-Library.Multiset"
begin

text \<open>
  Who refers to a file: the handles in the descriptor tables of all processes, the calls that wait, the backlogs of server
  sockets and the bindings of inodes. The lemmas show that every system call keeps the reference counts and the
  reader and writer counts of pipes equal to the references and handles that there are.
\<close>

section \<open>The references to files\<close>

fun slot_attach :: "handle option \<Rightarrow> (nat \<times> attach_direction) multiset" where
  "slot_attach None = {#}"
| "slot_attach (Some h) = {#(hd_file h, hd_direction h)#}"

definition fds_attach :: "handle option list \<Rightarrow> (nat \<times> attach_direction) multiset" where
  "fds_attach fds = sum_list (map slot_attach fds)"

fun pend_refs :: "pending \<Rightarrow> nat multiset" where
  "pend_refs (PendAccept server) = {#server#}"
| "pend_refs (PendConnect client p) = {#client, client, p#}"
| "pend_refs (PendRead p offset fd n) = {#p#}"
| "pend_refs (PendWrite p offset fd bytes) = {#p#}"
| "pend_refs (PendPoll fds deadline) = {#}"
| "pend_refs (PendWait q) = {#}"

definition proc_wait :: "process \<Rightarrow> nat multiset" where
  "proc_wait p = (case p_pending p of None \<Rightarrow> {#} | Some w \<Rightarrow> pend_refs w)"

definition over_map :: "('b \<Rightarrow> 'a multiset) \<Rightarrow> ('i \<rightharpoonup> 'b) \<Rightarrow> 'a multiset" where
  "over_map F m = (\<Sum>i\<in>dom m. F (the (m i)))"

definition queue_of :: "kfile \<times> nat \<Rightarrow> nat multiset" where
  "queue_of f = (case fst f of ServerF ss \<Rightarrow> mset (ss_queue ss) | _ \<Rightarrow> {#})"

definition attaches :: "kernel \<Rightarrow> (nat \<times> attach_direction) multiset" where
  "attaches k = over_map (\<lambda>p. fds_attach (p_fds p)) (k_procs k)"

definition waits :: "kernel \<Rightarrow> nat multiset" where
  "waits k = over_map proc_wait (k_procs k)"

definition bound_refs :: "vfs \<Rightarrow> nat multiset" where
  "bound_refs fs = (\<Sum>i<next_inode fs. case i_anonymous_file (inode_at fs i) of None \<Rightarrow> {#} | Some p \<Rightarrow> {#p#})"

definition fresh_inodes :: "vfs \<Rightarrow> bool" where
  "fresh_inodes fs \<longleftrightarrow> (\<forall>i. next_inode fs \<le> i \<longrightarrow> i_anonymous_file (inode_at fs i) = None)"

definition same_bound :: "vfs \<Rightarrow> vfs \<Rightarrow> bool" where
  "same_bound fs fs' \<longleftrightarrow> (fresh_inodes fs \<longrightarrow> fresh_inodes fs' \<and> bound_refs fs' = bound_refs fs)"

lemma same_bound_refl [simp]: "same_bound fs fs"
  by (simp add: same_bound_def)

lemma over_map_insert:
  "finite (dom m) \<Longrightarrow> m i = None \<Longrightarrow> over_map F (m(i \<mapsto> x)) = F x + over_map F m"
  unfolding over_map_def by (simp add: domIff) (rule sum.cong, auto)

lemma over_map_delete:
  assumes "finite (dom m)" "m i = Some x"
  shows "over_map F m = F x + over_map F (m(i := None))"
proof -
  have "m = (m(i := None))(i \<mapsto> x)"
    using assms(2) by (simp add: fun_upd_idem)
  then show ?thesis
    using over_map_insert [of "m(i := None)" i F x] assms(1) by simp
qed

lemma over_map_update:
  assumes "finite (dom m)" "m i = Some x"
  shows "over_map F (m(i \<mapsto> y)) + F x = over_map F m + F y"
  using over_map_delete [OF assms, of F] over_map_insert [of "m(i := None)" i F y] assms(1) by simp

lemma over_map_update_same:
  "finite (dom m) \<Longrightarrow> m i = Some x \<Longrightarrow> F y = F x \<Longrightarrow> over_map F (m(i \<mapsto> y)) = over_map F m"
  using over_map_update [of m i x F y] by simp

lemma in_over_map: "finite (dom m) \<Longrightarrow> m i = Some x \<Longrightarrow> F x \<subseteq># over_map F m"
  by (simp add: over_map_delete)

lemma over_map_mem:
  "finite (dom m) \<Longrightarrow> a \<in># over_map F m \<longleftrightarrow> (\<exists>i x. m i = Some x \<and> a \<in># F x)"
  unfolding over_map_def by (auto simp: dom_def set_mset_sum) blast+

lemma fds_attach_update:
  "fd < length fds \<Longrightarrow> fds_attach (fds[fd := x]) + slot_attach (fds ! fd) = fds_attach fds + slot_attach x"
  by (induction fds arbitrary: fd) (auto simp: fds_attach_def nth_Cons' add.assoc add.commute add.left_commute split: nat.splits)

lemma fds_attach_append [simp]: "fds_attach (xs @ ys) = fds_attach xs + fds_attach ys"
  by (simp add: fds_attach_def)

lemma fds_attach_None [simp]: "fds_attach (replicate n None) = {#}" "fds_attach [None] = {#}" "fds_attach [] = {#}"
  by (induction n) (simp_all add: fds_attach_def)

lemma fds_attach_mem: "(p, d) \<in># fds_attach fds \<Longrightarrow> \<exists>fd h. fd < length fds \<and> fds ! fd = Some h \<and> hd_file h = p \<and> hd_direction h = d"
proof (induction fds)
  case (Cons x fds)
  have "fds_attach (x # fds) = slot_attach x + fds_attach fds"
    by (simp add: fds_attach_def)
  with Cons.prems consider "(p, d) \<in># slot_attach x" | "(p, d) \<in># fds_attach fds"
    by auto
  then show ?case
  proof cases
    case 1
    then show ?thesis
      by (cases x) force+
  next
    case 2
    then obtain fd h where "fd < length fds" "fds ! fd = Some h" "hd_file h = p" "hd_direction h = d"
      using Cons.IH by blast
    then show ?thesis
      by (intro exI [of _ "Suc fd"] exI [of _ h]) simp
  qed
qed (simp add: fds_attach_def)

lemma subset_add_mset: "M \<subseteq># N \<Longrightarrow> M \<subseteq># add_mset x N"
  by (simp add: subseteq_mset_def le_SucI)

section \<open>The store of files\<close>

text \<open>\<open>R\<close> are the references from outside the store, \<open>T\<close> the attached handles.\<close>

definition counts :: "kernel \<Rightarrow> nat \<Rightarrow> nat" where
  "counts k p = ref_count (ipc_socks (k_ipc k)) p + ref_count (k_files k) p"

definition pipe_counts :: "(nat \<times> attach_direction) multiset \<Rightarrow> kernel \<Rightarrow> bool" where
  "pipe_counts T k \<longleftrightarrow> (\<forall>p pp n. k_files k p = Some (PipeF pp, n) \<longrightarrow>
     pipe_inv pp \<and> pipe_reader_count pp = count T (p, ReadDir) \<and> pipe_writer_count pp = count T (p, WriteDir) \<and> count T (p, ReadWriteDir) = 0)"

definition store_inv :: "nat multiset \<Rightarrow> (nat \<times> attach_direction) multiset \<Rightarrow> kernel \<Rightarrow> bool" where
  "store_inv R T k \<longleftrightarrow>
     ipc_inv (k_ipc k) \<and> finite (dom (k_files k)) \<and> (\<forall>p. ipc_next (k_ipc k) \<le> p \<longrightarrow> k_files k p = None) \<and>
     dom (k_files k) \<inter> dom (ipc_socks (k_ipc k)) = {} \<and> (\<forall>p f n. k_files k p = Some (f, n) \<longrightarrow> 0 < n) \<and>
     (\<forall>p. counts k p = count (R + over_map queue_of (k_files k)) p) \<and> pipe_counts T k \<and>
     (\<forall>q\<in>#over_map queue_of (k_files k). is_socket q k) \<and> image_mset fst T \<subseteq># R"

definition store_only :: "kernel \<Rightarrow> kernel \<Rightarrow> bool" where
  "store_only k k' \<longleftrightarrow> k' = k\<lparr>k_ipc := k_ipc k', k_files := k_files k'\<rparr>"

lemma store_only_refl [simp]: "store_only k k"
  by (simp add: store_only_def)

lemma store_only_trans [trans]: "store_only a b \<Longrightarrow> store_only b c \<Longrightarrow> store_only a c"
  by (cases a; cases b; cases c) (simp add: store_only_def)

lemma store_only_fields:
  assumes "store_only k k'"
  shows "k_vfs k' = k_vfs k" "k_procs k' = k_procs k" "k_pid_counter k' = k_pid_counter k" "k_log k' = k_log k" "k_time k' = k_time k"
    "fds_of pid k' = fds_of pid k" "fd_handle pid fd k' = fd_handle pid fd k" "cwd_of pid k' = cwd_of pid k"
proof -
  have "k_vfs k' = k_vfs k \<and> k_procs k' = k_procs k \<and> k_pid_counter k' = k_pid_counter k \<and> k_log k' = k_log k \<and> k_time k' = k_time k"
    using assms by (cases k; cases k') (simp add: store_only_def)
  then show "k_vfs k' = k_vfs k" "k_procs k' = k_procs k" "k_pid_counter k' = k_pid_counter k" "k_log k' = k_log k" "k_time k' = k_time k"
    "fds_of pid k' = fds_of pid k" "fd_handle pid fd k' = fd_handle pid fd k" "cwd_of pid k' = cwd_of pid k"
    by (simp_all add: fds_of_def fd_handle_def cwd_of_def)
qed

lemma ref_count_upd: "ref_count (h(p \<mapsto> (x, n))) q = (if q = p then n else ref_count h q)"
  "ref_count (h(p := None)) q = (if q = p then 0 else ref_count h q)"
  by (auto simp: ref_count_def)

lemma ref_count_eq: "h p = Some (x, n) \<Longrightarrow> ref_count h p = n" "h p = None \<Longrightarrow> ref_count h p = 0"
  by (auto simp: ref_count_def)

lemma store_invD:
  assumes "store_inv R T k"
  shows "ipc_inv (k_ipc k)" "finite (dom (k_files k))" "\<And>p. ipc_next (k_ipc k) \<le> p \<Longrightarrow> k_files k p = None"
    "\<And>p. k_files k p \<noteq> None \<Longrightarrow> ipc_socks (k_ipc k) p = None" "\<And>p f n. k_files k p = Some (f, n) \<Longrightarrow> 0 < n"
    "\<And>p. counts k p = count R p + count (over_map queue_of (k_files k)) p" "pipe_counts T k"
    "\<And>q. q \<in># over_map queue_of (k_files k) \<Longrightarrow> is_socket q k" "image_mset fst T \<subseteq># R"
proof -
  show "\<And>p. k_files k p \<noteq> None \<Longrightarrow> ipc_socks (k_ipc k) p = None"
    using assms unfolding store_inv_def by (metis disjoint_iff domIff)
qed (use assms in \<open>auto simp: store_inv_def\<close>)

lemma live_cases:
  assumes "store_inv R T k" "p \<in># R"
  obtains s n where "is_socket p k" "ipc_socks (k_ipc k) p = Some (s, n)" "k_files k p = None" "0 < n"
    | f n where "\<not> is_socket p k" "ipc_socks (k_ipc k) p = None" "k_files k p = Some (f, n)" "0 < n"
proof -
  note D = store_invD [OF assms(1)]
  have "counts k p \<noteq> 0"
    using D(6) assms(2) by (metis add_is_0 not_in_iff)
  then show thesis
    using that D(4) [of p] D(5) [of p] ipc_invD(5) [OF D(1)]
    by (cases "ipc_socks (k_ipc k) p"; cases "k_files k p") (fastforce simp: counts_def ref_count_def is_socket_def)+
qed

lemma queue_of_count [simp]: "queue_of (f, n) = queue_of (f, m)"
  by (simp add: queue_of_def)

lemma file_add_ref_store:
  assumes inv: "store_inv R T k" and p: "p \<in># R"
  shows "\<exists>k'. file_add_ref p k = Some k' \<and> store_inv (add_mset p R) T k' \<and> store_only k k' \<and> (\<forall>q. file_at q k' = file_at q k)"
  using inv p
proof (cases rule: live_cases)
  case (1 s n)
  note D = store_invD [OF inv]
  let ?socks = "(ipc_socks (k_ipc k))(p \<mapsto> (s, n + 1))"
  let ?k' = "k\<lparr>k_ipc := (k_ipc k)\<lparr>ipc_socks := ?socks\<rparr>\<rparr>"
  have add: "add_ref p (ipc_socks (k_ipc k)) = Some ?socks"
    by (simp add: add_ref_def 1)
  have "ipc_inv (k_ipc ?k')"
    using add_socket_ref_inv [OF D(1) add] by simp
  moreover have "counts ?k' q = count (add_mset p R) q + count (over_map queue_of (k_files k)) q" for q
    using D(6) [of q] 1 ref_count_eq(1) [of "ipc_socks (k_ipc k)" p, OF 1(2)] by (auto simp: counts_def ref_count_upd)
  moreover have "pipe_counts T ?k'"
    using D(7) by (simp add: pipe_counts_def)
  ultimately have "store_inv (add_mset p R) T ?k'"
    using D inv 1 by (auto simp: store_inv_def is_socket_def subset_mset.trans)
  then show ?thesis
    using 1 add by (simp add: file_add_ref_def store_only_def file_at_def)
next
  case (2 f n)
  note D = store_invD [OF inv]
  let ?k' = "k\<lparr>k_files := (k_files k)(p \<mapsto> (f, n + 1))\<rparr>"
  have q: "over_map queue_of (k_files ?k') = over_map queue_of (k_files k)"
    using over_map_update_same [OF D(2) 2(3), of queue_of "(f, n + 1)"] by simp
  have "counts ?k' r = count (add_mset p R) r + count (over_map queue_of (k_files k)) r" for r
    using D(6) [of r] 2 ref_count_eq(1) [of "k_files k" p, OF 2(3)] by (auto simp: counts_def ref_count_upd)
  moreover have "pipe_counts T ?k'"
    using D(7) 2 by (auto simp: pipe_counts_def)
  moreover have "k_files ?k' r = None" if "ipc_next (k_ipc k) \<le> r" for r
    using D(3) [OF that] 2 by auto
  ultimately have "store_inv (add_mset p R) T ?k'"
    using D inv 2 unfolding store_inv_def q by (auto simp: is_socket_def subset_mset.trans split: if_splits)
  then show ?thesis
    using 2 by (simp add: file_add_ref_def add_ref_def store_only_def file_at_def)
qed

lemma drop_socket_socks:
  assumes "drop_socket p st = Some st'" "ipc_socks st p = Some (s, n)"
  shows "ipc_socks st' = (if n = 1 then (ipc_socks st)(p := None) else (ipc_socks st)(p \<mapsto> (s, n - 1)))" "ipc_next st' = ipc_next st"
  using assms by (auto simp: drop_socket_def split: Option.bind_splits if_splits)

lemma drop_socket_store:
  assumes inv: "store_inv (add_mset p R) T k" and T: "image_mset fst T \<subseteq># R" and p: "k_files k p = None"
  shows "\<exists>st. drop_socket p (k_ipc k) = Some st \<and> store_inv R T (k\<lparr>k_ipc := st\<rparr>)"
proof -
  note D = store_invD [OF inv]
  obtain s n where s: "ipc_socks (k_ipc k) p = Some (s, n)" "0 < n"
    using p by (cases rule: live_cases [OF inv, of p]) auto
  obtain st where st: "drop_socket p (k_ipc k) = Some st" "ipc_inv st"
    using drop_socket_inv [OF D(1) s(1)] by blast
  let ?k' = "k\<lparr>k_ipc := st\<rparr>"
  note socks = drop_socket_socks [OF st(1) s(1)]
  have rc: "ref_count (ipc_socks (k_ipc k)) p = n" "ref_count (k_files k) p = 0"
    using s p by (simp_all add: ref_count_def)
  have cnt: "counts ?k' q = count R q + count (over_map queue_of (k_files k)) q" for q
    using D(6) [of q] rc s(2) by (auto simp: counts_def socks ref_count_upd)
  have "is_socket q ?k'" if q: "q \<in># over_map queue_of (k_files k)" for q
  proof (cases "q = p")
    case True
    then have "n \<noteq> 1"
      using D(6) [of p] q rc by (auto simp: counts_def)
    then show ?thesis
      using True by (simp add: is_socket_def socks)
  next
    case False
    then show ?thesis
      using D(8) [OF q] by (simp add: is_socket_def socks)
  qed
  moreover have "dom (k_files k) \<inter> dom (ipc_socks st) = {}"
    using D(4) p unfolding socks by (auto simp: dom_def)
  moreover have "pipe_counts T ?k'"
    using D(7) by (simp add: pipe_counts_def)
  ultimately have "store_inv R T ?k'"
    unfolding store_inv_def using D(2,3,5) T st(2) cnt socks(2) by (simp add: is_socket_def)
  then show ?thesis
    using st(1) by blast
qed

lemma drop_sockets_store:
  "store_inv (R + mset qs) T k \<Longrightarrow> image_mset fst T \<subseteq># R \<Longrightarrow> \<forall>q\<in>set qs. k_files k q = None \<Longrightarrow>
   \<exists>st. for_each drop_socket qs (k_ipc k) = Some st \<and> store_inv R T (k\<lparr>k_ipc := st\<rparr>)"
proof (induction qs arbitrary: k)
  case (Cons q qs)
  have "image_mset fst T \<subseteq># R + mset qs"
    using Cons.prems(2) by (simp add: subset_mset.add_increasing2)
  then obtain st where st: "drop_socket q (k_ipc k) = Some st" "store_inv (R + mset qs) T (k\<lparr>k_ipc := st\<rparr>)"
    using drop_socket_store [of q "R + mset qs" T k] Cons.prems by auto
  then show ?case
    using Cons.IH [OF st(2)] Cons.prems by auto
qed simp

lemma file_sub_ref_store:
  assumes inv: "store_inv (add_mset p R) T k" and T: "image_mset fst T \<subseteq># R"
  shows "\<exists>k'. file_sub_ref p k = Some k' \<and> store_inv R T k' \<and> store_only k k' \<and> (\<forall>q\<in>#R. file_at q k' = file_at q k)"
  using inv union_single_eq_member [OF HOL.refl]
proof (cases rule: live_cases)
  case (1 s n)
  then show ?thesis
    using drop_socket_store [OF inv T 1(3)] by (auto simp: file_sub_ref_def store_only_def file_at_def)
next
  case (2 f n)
  note D = store_invD [OF inv]
  have rc: "ref_count (k_files k) p = n" "ref_count (ipc_socks (k_ipc k)) p = 0"
    using 2 by (simp_all add: ref_count_def)
  show ?thesis
  proof (cases "n = 1")
    case False
    let ?k' = "k\<lparr>k_files := (k_files k)(p \<mapsto> (f, n - 1))\<rparr>"
    have q: "over_map queue_of (k_files ?k') = over_map queue_of (k_files k)"
      using over_map_update_same [OF D(2) 2(3), of queue_of "(f, n - 1)"] by simp
    have "counts ?k' r = count R r + count (over_map queue_of (k_files k)) r" for r
      using D(6) [of r] 2 rc by (auto simp: counts_def ref_count_upd)
    moreover have "pipe_counts T ?k'"
      using D(7) 2 by (auto simp: pipe_counts_def)
    moreover have "k_files ?k' r = None" if "ipc_next (k_ipc k) \<le> r" for r
      using D(3) [OF that] 2 by auto
    moreover have "1 < n"
      using D(5) [OF 2(3)] False by simp
    ultimately have "store_inv R T ?k'"
      using D inv 2 T unfolding store_inv_def q by (auto simp: is_socket_def split: if_splits)
    then show ?thesis
      using 2 False by (auto simp: file_sub_ref_def store_only_def file_at_def)
  next
    case True
    let ?k1 = "k\<lparr>k_files := (k_files k)(p := None)\<rparr>"
    define qs where "qs = (case f of ServerF ss \<Rightarrow> ss_queue ss | _ \<Rightarrow> [])"
    have q: "over_map queue_of (k_files k) = mset qs + over_map queue_of (k_files ?k1)"
      using over_map_delete [OF D(2) 2(3), of queue_of] by (simp add: queue_of_def qs_def split: kfile.splits)
    have Rp: "count R p = 0"
      using D(6) [of p] rc True by (simp add: counts_def)
    have "counts ?k1 r = count (R + mset qs) r + count (over_map queue_of (k_files ?k1)) r" for r
      using D(6) [of r] q rc True by (auto simp: counts_def ref_count_upd)
    moreover have "pipe_counts T ?k1"
      using D(7) by (auto simp: pipe_counts_def)
    ultimately have "store_inv (R + mset qs) T ?k1"
      using D inv T q unfolding store_inv_def by (auto simp: is_socket_def subset_mset.add_increasing2)
    moreover have "k_files ?k1 q = None" if "q \<in> set qs" for q
    proof -
      have "is_socket q k"
        using that by (intro D(8)) (simp add: q)
      then show ?thesis
        using D(4) [of q] by (cases "k_files k q") (auto simp: is_socket_def)
    qed
    ultimately obtain st where "for_each drop_socket qs (k_ipc ?k1) = Some st" "store_inv R T (?k1\<lparr>k_ipc := st\<rparr>)"
      using drop_sockets_store [OF _ T] by blast
    moreover from this have "destroy_file f ?k1 = Some (?k1\<lparr>k_ipc := st\<rparr>)"
      by (cases f) (auto simp: destroy_file_def qs_def)
    ultimately show ?thesis
      using 2 True Rp by (auto simp: file_sub_ref_def store_only_def file_at_def count_eq_zero_iff)
  qed
qed

lemma set_file_store:
  assumes inv: "store_inv R T k" and f: "k_files k p = Some (f, n)" and g: "queue_of (g, n) = queue_of (f, n)"
    and T': "image_mset fst T' \<subseteq># R" and pc: "pipe_counts T' (set_file p g k)"
  shows "store_inv R T' (set_file p g k)" "store_only k (set_file p g k)"
proof -
  note D = store_invD [OF inv]
  have k': "set_file p g k = k\<lparr>k_files := (k_files k)(p \<mapsto> (g, n))\<rparr>"
    by (simp add: set_file_def f)
  have q: "over_map queue_of (k_files (set_file p g k)) = over_map queue_of (k_files k)"
    using over_map_update_same [OF D(2) f, of queue_of "(g, n)"] g by (simp add: k')
  have "counts (set_file p g k) r = counts k r" for r
    using f by (simp add: counts_def k' ref_count_upd) (simp add: ref_count_def)
  moreover have "k_files (set_file p g k) r = None" if "ipc_next (k_ipc k) \<le> r" for r
    using D(3) [OF that] f by (auto simp: k')
  ultimately show "store_inv R T' (set_file p g k)"
    using D inv f T' pc unfolding store_inv_def q by (auto simp: k' is_socket_def split: if_splits)
  show "store_only k (set_file p g k)"
    by (simp add: k' store_only_def)
qed

lemma pipe_countsD:
  "pipe_counts T k \<Longrightarrow> k_files k p = Some (PipeF pp, n) \<Longrightarrow>
   pipe_inv pp \<and> pipe_reader_count pp = count T (p, ReadDir) \<and> pipe_writer_count pp = count T (p, WriteDir) \<and> count T (p, ReadWriteDir) = 0"
  unfolding pipe_counts_def by blast

lemma pipe_counts_set_file:
  assumes "pipe_counts T k" and "k_files k p = Some (f, n)" and "\<And>r d. r \<noteq> p \<Longrightarrow> count T' (r, d) = count T (r, d)"
    and "\<And>pp. g = PipeF pp \<Longrightarrow> pipe_inv pp \<and> pipe_reader_count pp = count T' (p, ReadDir) \<and>
      pipe_writer_count pp = count T' (p, WriteDir) \<and> count T' (p, ReadWriteDir) = 0"
  shows "pipe_counts T' (set_file p g k)"
  using assms by (auto simp: pipe_counts_def set_file_def)

lemma store_inv_mono_T:
  assumes "store_inv R T k" "image_mset fst T' \<subseteq># R" "\<And>p d pp n. k_files k p = Some (PipeF pp, n) \<Longrightarrow> count T' (p, d) = count T (p, d)"
  shows "store_inv R T' k"
proof -
  have "pipe_counts T' k"
    using store_invD(7) [OF assms(1)] assms(3) unfolding pipe_counts_def by (metis (no_types))
  then show ?thesis
    using assms(1,2) by (simp add: store_inv_def)
qed

lemma file_attach_store:
  assumes inv: "store_inv (add_mset p R) T k" and T: "image_mset fst T \<subseteq># R" and d: "is_pipe p k \<Longrightarrow> d \<noteq> ReadWriteDir"
  shows "\<exists>k'. file_attach d p k = Some k' \<and> store_inv (add_mset p R) (add_mset (p, d) T) k' \<and> store_only k k' \<and>
    (\<forall>q. q \<noteq> p \<longrightarrow> file_at q k' = file_at q k)"
proof (cases "is_pipe p k")
  case True
  note D = store_invD [OF inv]
  obtain pp n where pp: "k_files k p = Some (PipeF pp, n)"
    using True by (auto simp: is_pipe_def file_at_def split: option.splits kfile.splits)
  obtain pp' where pp': "pipe_attach d pp = Some pp'" "pipe_inv pp' \<and> pipe_reader_count pp' = count (add_mset (p, d) T) (p, ReadDir) \<and>
      pipe_writer_count pp' = count (add_mset (p, d) T) (p, WriteDir) \<and> count (add_mset (p, d) T) (p, ReadWriteDir) = 0"
    using d [OF True] pipe_countsD [OF D(7) pp] by (cases d) (auto simp: pipe_attach_def)
  have "pipe_counts (add_mset (p, d) T) (set_file p (PipeF pp') k)"
    using pp' by (intro pipe_counts_set_file [OF D(7) pp]) auto
  then have "store_inv (add_mset p R) (add_mset (p, d) T) (set_file p (PipeF pp') k)"
    using T by (intro set_file_store(1) [OF inv pp]) (simp_all add: queue_of_def)
  then show ?thesis
    using pp pp'(1) by (auto simp: file_attach_def file_at_def set_file_def store_only_def)
next
  case False
  then have "store_inv (add_mset p R) (add_mset (p, d) T) k"
    using T by (intro store_inv_mono_T [OF inv]) (auto simp: is_pipe_def file_at_def split: option.splits)
  moreover have "file_attach d p k = Some k"
    using False by (auto simp: file_attach_def is_pipe_def split: option.splits kfile.splits)
  ultimately show ?thesis
    by simp
qed

lemma file_detach_store:
  assumes inv: "store_inv (add_mset p R) (add_mset (p, d) T) k"
  shows "\<exists>k'. file_detach d p k = Some k' \<and> store_inv (add_mset p R) T k' \<and> store_only k k' \<and>
    (\<forall>q. q \<noteq> p \<longrightarrow> file_at q k' = file_at q k)"
proof (cases "is_pipe p k")
  case True
  note D = store_invD [OF inv]
  obtain pp n where pp: "k_files k p = Some (PipeF pp, n)"
    using True by (auto simp: is_pipe_def file_at_def split: option.splits kfile.splits)
  obtain pp' where pp': "pipe_detach d pp = Some pp'" "pipe_inv pp' \<and> pipe_reader_count pp' = count T (p, ReadDir) \<and>
      pipe_writer_count pp' = count T (p, WriteDir) \<and> count T (p, ReadWriteDir) = 0"
    using pipe_countsD [OF D(7) pp] by (cases d) (auto simp: pipe_detach_def)
  have T: "image_mset fst T \<subseteq># add_mset p R"
    using D(9) by (simp add: subset_add_mset)
  have "pipe_counts T (set_file p (PipeF pp') k)"
    using pp' by (intro pipe_counts_set_file [OF D(7) pp]) auto
  then have "store_inv (add_mset p R) T (set_file p (PipeF pp') k)"
    using T by (intro set_file_store(1) [OF inv pp]) (simp_all add: queue_of_def)
  then show ?thesis
    using pp pp'(1) by (auto simp: file_detach_def file_at_def set_file_def store_only_def)
next
  case False
  have "image_mset fst T \<subseteq># add_mset p R"
    using store_invD(9) [OF inv] by (simp add: subset_add_mset)
  then have "store_inv (add_mset p R) T k"
    using False by (intro store_inv_mono_T [OF inv]) (auto simp: is_pipe_def file_at_def split: option.splits)
  moreover have "file_detach d p k = Some k"
    using False by (auto simp: file_detach_def is_pipe_def split: option.splits kfile.splits)
  ultimately show ?thesis
    by simp
qed

lemma handle_new_store:
  assumes inv: "store_inv R T k" and p: "p \<in># R" and d: "is_pipe p k \<Longrightarrow> d \<noteq> ReadWriteDir"
  shows "\<exists>k'. handle_new p d k = Some (\<lparr>hd_file = p, hd_direction = d, hd_offset = 0\<rparr>, k') \<and>
    store_inv (add_mset p R) (add_mset (p, d) T) k' \<and> store_only k k'"
proof -
  obtain k1 where k1: "file_add_ref p k = Some k1" "store_inv (add_mset p R) T k1" "store_only k k1" "\<forall>q. file_at q k1 = file_at q k"
    using file_add_ref_store [OF inv p] by blast
  have "is_pipe p k1 \<Longrightarrow> d \<noteq> ReadWriteDir"
    using d k1(4) by (simp add: is_pipe_def)
  then obtain k2 where "file_attach d p k1 = Some k2" "store_inv (add_mset p R) (add_mset (p, d) T) k2" "store_only k1 k2"
    using file_attach_store [OF k1(2) store_invD(9) [OF inv]] by blast
  then show ?thesis
    using k1 store_only_trans by (auto simp: handle_new_def)
qed

lemma handle_destroy_store:
  assumes inv: "store_inv (add_mset (hd_file h) R) (add_mset (hd_file h, hd_direction h) T) k"
  shows "\<exists>k'. handle_destroy h k = Some k' \<and> store_inv R T k' \<and> store_only k k'"
proof -
  obtain k1 where k1: "file_detach (hd_direction h) (hd_file h) k = Some k1" "store_inv (add_mset (hd_file h) R) T k1" "store_only k k1"
    using file_detach_store [OF inv] by blast
  have "image_mset fst T \<subseteq># R"
    using store_invD(9) [OF inv] by simp
  then obtain k2 where "file_sub_ref (hd_file h) k1 = Some k2" "store_inv R T k2" "store_only k1 k2"
    using file_sub_ref_store [OF k1(2)] by blast
  then show ?thesis
    using k1 store_only_trans by (auto simp: handle_destroy_def)
qed

lemma new_file_store:
  assumes inv: "store_inv R T k" and f: "queue_of (f, 1) = {#}" and pipe: "\<And>pp. f = PipeF pp \<Longrightarrow> pp = pipe_new"
    and nf: "new_file f k = (p, k')"
  shows "store_inv (add_mset p R) T k'" "store_only k k'" "file_at p k' = Some f" "p \<notin># R"
proof -
  note D = store_invD [OF inv]
  have p: "p = ipc_next (k_ipc k)" and k': "k' = k\<lparr>k_files := (k_files k)(p \<mapsto> (f, 1)), k_ipc := (k_ipc k)\<lparr>ipc_next := p + 1\<rparr>\<rparr>"
    using nf by (auto simp: new_file_def Let_def)
  have fresh: "k_files k p = None" "ipc_socks (k_ipc k) p = None"
    using D(3) ipc_invD(2) [OF D(1)] by (auto simp: p)
  have q: "over_map queue_of (k_files k') = over_map queue_of (k_files k)"
    using over_map_insert [OF D(2) fresh(1), of queue_of "(f, 1)"] f by (simp add: k')
  have R: "count R p = 0"
    using D(6) [of p] fresh by (simp add: counts_def ref_count_def)
  then show "p \<notin># R"
    by (simp add: count_eq_zero_iff)
  have T: "count T (p, d) = 0" for d
  proof (rule ccontr)
    assume "count T (p, d) \<noteq> 0"
    then have "p \<in># image_mset fst T"
      by (force simp: count_eq_zero_iff)
    then show False
      using D(9) R by (meson count_eq_zero_iff mset_subset_eqD)
  qed
  have cnt: "counts k' r = count (add_mset p R) r + count (over_map queue_of (k_files k)) r" for r
    using D(6) [of r] fresh R by (auto simp: counts_def k' ref_count_upd) (simp_all add: ref_count_def)
  have "pipe_counts T k'"
    using D(7) T pipe pipe_new_inv by (auto simp: pipe_counts_def k' pipe_new_def)
  moreover have "ipc_inv ((k_ipc k)\<lparr>ipc_next := p + 1\<rparr>)"
    using D(1) by (auto simp: ipc_inv_def p less_SucI)
  moreover have "image_mset fst T \<subseteq># add_mset p R"
    using D(9) by (rule subset_add_mset)
  ultimately show "store_inv (add_mset p R) T k'"
    using D cnt q fresh unfolding store_inv_def q by (auto simp: k' is_socket_def p)
  show "store_only k k'" "file_at p k' = Some f"
    by (simp_all add: k' store_only_def file_at_def)
qed

section \<open>The whole kernel\<close>

text \<open>\<open>L\<close> are the references of local variables of a call, \<open>A\<close> its handles that are in no table.\<close>

definition outer_refs :: "nat multiset \<Rightarrow> (nat \<times> attach_direction) multiset \<Rightarrow> kernel \<Rightarrow> nat multiset" where
  "outer_refs L A k = image_mset fst (attaches k + A) + (waits k + bound_refs (k_vfs k)) + L"

definition sys_inv :: "nat multiset \<Rightarrow> (nat \<times> attach_direction) multiset \<Rightarrow> kernel \<Rightarrow> bool" where
  "sys_inv L A k \<longleftrightarrow> store_inv (outer_refs L A k) (attaches k + A) k \<and> finite (dom (k_procs k)) \<and>
     (\<forall>pid. k_pid_counter k \<le> pid \<longrightarrow> k_procs k pid = None) \<and> fresh_inodes (k_vfs k) \<and>
     (\<forall>pid p. k_procs k pid = Some p \<longrightarrow> p_running p \<or> p_pending p = None)"

lemma store_only_refs:
  "store_only k k' \<Longrightarrow> attaches k' = attaches k \<and> waits k' = waits k \<and> outer_refs L A k' = outer_refs L A k"
  by (simp add: attaches_def waits_def outer_refs_def store_only_fields)

lemma sys_inv_store:
  assumes "sys_inv L A k" "store_only k k'" "store_inv (outer_refs L' A' k) (attaches k + A') k'"
  shows "sys_inv L' A' k'"
  using assms by (simp add: sys_inv_def store_only_refs store_only_fields)

lemma sys_invD:
  assumes "sys_inv L A k"
  shows "store_inv (outer_refs L A k) (attaches k + A) k" "finite (dom (k_procs k))"
    "\<And>pid. k_pid_counter k \<le> pid \<Longrightarrow> k_procs k pid = None" "fresh_inodes (k_vfs k)"
    "\<And>pid p. k_procs k pid = Some p \<Longrightarrow> p_running p \<or> p_pending p = None"
  using assms by (auto simp: sys_inv_def)

lemma sys_add_ref:
  assumes inv: "sys_inv L A k" and p: "p \<in># outer_refs L A k"
  shows "\<exists>k'. file_add_ref p k = Some k' \<and> sys_inv (add_mset p L) A k' \<and> store_only k k' \<and> (\<forall>q. file_at q k' = file_at q k)"
proof -
  obtain k' where k': "file_add_ref p k = Some k'" "store_inv (add_mset p (outer_refs L A k)) (attaches k + A) k'" "store_only k k'"
      "\<forall>q. file_at q k' = file_at q k"
    using file_add_ref_store [OF sys_invD(1) [OF inv] p] by blast
  then have "sys_inv (add_mset p L) A k'"
    by (intro sys_inv_store [OF inv]) (simp_all add: outer_refs_def)
  then show ?thesis
    using k' by blast
qed

lemma sys_sub_ref:
  assumes inv: "sys_inv (add_mset p L) A k"
  shows "\<exists>k'. file_sub_ref p k = Some k' \<and> sys_inv L A k' \<and> store_only k k' \<and> (\<forall>q\<in>#outer_refs L A k. file_at q k' = file_at q k)"
proof -
  have "store_inv (add_mset p (outer_refs L A k)) (attaches k + A) k"
    using sys_invD(1) [OF inv] by (simp add: outer_refs_def)
  moreover have "image_mset fst (attaches k + A) \<subseteq># outer_refs L A k"
    unfolding outer_refs_def by (simp add: subseteq_mset_def)
  ultimately obtain k' where k': "file_sub_ref p k = Some k'" "store_inv (outer_refs L A k) (attaches k + A) k'" "store_only k k'"
      "\<forall>q\<in>#outer_refs L A k. file_at q k' = file_at q k"
    using file_sub_ref_store by blast
  then show ?thesis
    using sys_inv_store [OF inv] by blast
qed

lemma sys_handle_new:
  assumes inv: "sys_inv L A k" and p: "p \<in># outer_refs L A k" and d: "is_pipe p k \<Longrightarrow> d \<noteq> ReadWriteDir"
  shows "\<exists>k'. handle_new p d k = Some (\<lparr>hd_file = p, hd_direction = d, hd_offset = 0\<rparr>, k') \<and> sys_inv L (add_mset (p, d) A) k' \<and> store_only k k'"
proof -
  obtain k' where k': "handle_new p d k = Some (\<lparr>hd_file = p, hd_direction = d, hd_offset = 0\<rparr>, k')"
      "store_inv (add_mset p (outer_refs L A k)) (add_mset (p, d) (attaches k + A)) k'" "store_only k k'"
    using handle_new_store [OF sys_invD(1) [OF inv] p d] by blast
  then have "sys_inv L (add_mset (p, d) A) k'"
    by (intro sys_inv_store [OF inv]) (simp_all add: outer_refs_def)
  then show ?thesis
    using k' by blast
qed

lemma sys_inv_move:
  assumes inv: "sys_inv L A k" and same: "k_ipc k' = k_ipc k" "k_files k' = k_files k"
    and A: "attaches k' + A' = attaches k + A"
    and L: "waits k' + bound_refs (k_vfs k') + L' = waits k + bound_refs (k_vfs k) + L"
    and procs: "finite (dom (k_procs k'))" "\<And>pid. k_pid_counter k' \<le> pid \<Longrightarrow> k_procs k' pid = None"
    and fresh: "fresh_inodes (k_vfs k')" "\<And>pid p. k_procs k' pid = Some p \<Longrightarrow> p_running p \<or> p_pending p = None"
  shows "sys_inv L' A' k'"
proof -
  have "outer_refs L' A' k' = outer_refs L A k"
    unfolding outer_refs_def A using L by (simp only: add.assoc)
  then show ?thesis
    using inv procs same fresh unfolding sys_inv_def A
    by (simp add: store_inv_def counts_def pipe_counts_def is_socket_def)
qed

lemma fds_of_Some: "fd < length (fds_of pid k) \<Longrightarrow> \<exists>p. k_procs k pid = Some p \<and> fds_of pid k = p_fds p"
  by (auto simp: fds_of_def split: option.splits)

lemma set_fds_procs: "k_procs k pid = Some p \<Longrightarrow> k_procs (set_fds pid fds k) = (k_procs k)(pid \<mapsto> p\<lparr>p_fds := fds\<rparr>)"
  by (simp add: set_fds_def)

lemma set_fds_fields [simp]:
  "k_ipc (set_fds pid fds k) = k_ipc k" "k_files (set_fds pid fds k) = k_files k" "k_vfs (set_fds pid fds k) = k_vfs k"
  "k_pid_counter (set_fds pid fds k) = k_pid_counter k" "k_log (set_fds pid fds k) = k_log k" "k_time (set_fds pid fds k) = k_time k"
  by (simp_all add: set_fds_def)

lemma set_fds_refs:
  assumes "finite (dom (k_procs k))" "k_procs k pid = Some p"
  shows "attaches (set_fds pid fds k) + fds_attach (p_fds p) = attaches k + fds_attach fds" "waits (set_fds pid fds k) = waits k"
proof -
  show "attaches (set_fds pid fds k) + fds_attach (p_fds p) = attaches k + fds_attach fds"
    using over_map_update [OF assms, of "\<lambda>p. fds_attach (p_fds p)" "p\<lparr>p_fds := fds\<rparr>"]
    unfolding attaches_def set_fds_procs [OF assms(2)] by simp
  show "waits (set_fds pid fds k) = waits k"
    unfolding waits_def set_fds_procs [OF assms(2)] by (rule over_map_update_same [OF assms]) (simp add: proc_wait_def)
qed

lemma set_fds_idle:
  assumes "sys_inv L A k" "k_procs (set_fds pid fds k) q = Some p"
  shows "p_running p \<or> p_pending p = None"
proof -
  obtain p0 where "k_procs k q = Some p0" "p_running p = p_running p0" "p_pending p = p_pending p0"
    using assms(2) by (auto simp: set_fds_def split: if_splits)
  then show ?thesis
    using sys_invD(5) [OF assms(1)] by simp
qed

lemma set_fd_inv:
  assumes inv: "sys_inv L (A + slot_attach x) k" and fd: "fd < length (fds_of pid k)"
  shows "sys_inv L (A + slot_attach (fds_of pid k ! fd)) (set_fd pid fd x k)"
proof -
  obtain p where p: "k_procs k pid = Some p" "fds_of pid k = p_fds p"
    using fds_of_Some [OF fd] by blast
  note D = sys_invD [OF inv]
  note r = set_fds_refs [OF D(2) p(1), of "(p_fds p)[fd := x]"]
  have "attaches (set_fds pid ((p_fds p)[fd := x]) k) + slot_attach (p_fds p ! fd) = attaches k + slot_attach x"
  proof -
    have "attaches (set_fds pid ((p_fds p)[fd := x]) k) + fds_attach (p_fds p) + slot_attach (p_fds p ! fd) =
        attaches k + (fds_attach ((p_fds p)[fd := x]) + slot_attach (p_fds p ! fd))"
      using r(1) by (simp add: add.assoc)
    also have "\<dots> = attaches k + (fds_attach (p_fds p) + slot_attach x)"
      using fds_attach_update [of fd "p_fds p" x] fd p(2) by simp
    finally have "fds_attach (p_fds p) + (attaches (set_fds pid ((p_fds p)[fd := x]) k) + slot_attach (p_fds p ! fd)) =
        fds_attach (p_fds p) + (attaches k + slot_attach x)"
      by (simp only: ac_simps)
    then show ?thesis
      by (simp only: add_left_cancel)
  qed
  note eq = this
  show ?thesis
    unfolding set_fd_def p(2)
  proof (rule sys_inv_move [OF inv])
    show "p_running y \<or> p_pending y = None" if "k_procs (set_fds pid ((p_fds p)[fd := x]) k) q = Some y" for q y
      using set_fds_idle [OF inv that] .
  qed (use eq r(2) D(1-4) p(1) in \<open>auto simp: set_fds_procs [OF p(1)] add.commute add.left_commute\<close>)
qed

lemma fds_of_set_fds: "k_procs k pid \<noteq> None \<Longrightarrow> fds_of q (set_fds pid fds k) = (if q = pid then fds else fds_of q k)"
  by (auto simp: fds_of_def set_fds_def)

lemma fds_of_set_fd: "fds_of q (set_fd pid fd x k) = (if q = pid then (fds_of q k)[fd := x] else fds_of q k)"
  by (auto simp: fds_of_def set_fd_def set_fds_def split: option.splits)

lemma set_fd_id: "fds_of pid k ! fd = x \<Longrightarrow> set_fd pid fd x k = k"
proof -
  assume "fds_of pid k ! fd = x"
  then have "(fds_of pid k)[fd := x] = fds_of pid k"
    by auto
  moreover have "(k_procs k)(pid := map_option (\<lambda>p. p\<lparr>p_fds := fds_of pid k\<rparr>) (k_procs k pid)) = k_procs k"
    by (cases "k_procs k pid") (auto simp: fds_of_def)
  ultimately show ?thesis
    by (simp add: set_fd_def set_fds_def)
qed

lemma store_only_set_fds: "store_only k k' \<Longrightarrow> store_only (set_fds pid fds k) (set_fds pid fds k')"
  by (cases k; cases k') (simp add: store_only_def set_fds_def)

lemma store_only_set_fd: "store_only k k' \<Longrightarrow> store_only (set_fd pid fd x k) (set_fd pid fd x k')"
  using store_only_set_fds store_only_fields(6) by (simp add: set_fd_def)

lemma store_inv_same: "k_ipc k' = k_ipc k \<Longrightarrow> k_files k' = k_files k \<Longrightarrow> store_inv R T k' = store_inv R T k"
  by (simp add: store_inv_def counts_def pipe_counts_def is_socket_def)

lemma set_fd_fields [simp]:
  "k_ipc (set_fd pid fd x k) = k_ipc k" "k_files (set_fd pid fd x k) = k_files k" "k_vfs (set_fd pid fd x k) = k_vfs k"
  "k_pid_counter (set_fd pid fd x k) = k_pid_counter k" "file_at p (set_fd pid fd x k) = file_at p k" "file_at p (set_fds pid fds k) = file_at p k"
  by (simp_all add: set_fd_def file_at_def)

lemma clear_fd_inv:
  assumes inv: "sys_inv L A k" and fd: "fd < length (fds_of pid k)"
  shows "\<exists>k'. clear_fd pid fd k = Some k' \<and> sys_inv L A k' \<and> store_only (set_fd pid fd None k) k'"
proof (cases "fds_of pid k ! fd")
  case None
  then show ?thesis
    using inv fd set_fd_id [OF None] by (simp add: clear_fd_def)
next
  case (Some h)
  let ?kk = "set_fd pid fd None k"
  have kk: "sys_inv L (add_mset (hd_file h, hd_direction h) A) ?kk"
    using set_fd_inv [of L A None k fd pid] inv fd Some by simp
  have "store_inv (add_mset (hd_file h) (outer_refs L A ?kk)) (add_mset (hd_file h, hd_direction h) (attaches ?kk + A)) ?kk"
    using sys_invD(1) [OF kk] by (simp add: outer_refs_def)
  then have "store_inv (add_mset (hd_file h) (outer_refs L A ?kk)) (add_mset (hd_file h, hd_direction h) (attaches ?kk + A)) k"
    by (simp add: store_inv_same [of k ?kk])
  then obtain k' where k': "handle_destroy h k = Some k'" "store_inv (outer_refs L A ?kk) (attaches ?kk + A) k'" "store_only k k'"
    using handle_destroy_store by blast
  have so: "store_only ?kk (set_fd pid fd None k')"
    using store_only_set_fd [OF k'(3)] .
  have "sys_inv L A (set_fd pid fd None k')"
    using sys_inv_store [OF kk so, of L A] k'(2) by (simp add: store_inv_same [of "set_fd pid fd None k'" k'])
  then show ?thesis
    using Some fd k'(1) so by (simp add: clear_fd_def)
qed

lemma emplace_fd_inv:
  assumes inv: "sys_inv L A k" and fd: "fd < length (fds_of pid k)"
    and mk: "\<And>k1. sys_inv L A k1 \<Longrightarrow> store_only (set_fd pid fd None k) k1 \<Longrightarrow>
      \<exists>h k2. mk k1 = Some (h, k2) \<and> sys_inv L (add_mset (hd_file h, hd_direction h) A) k2 \<and> store_only k1 k2"
  shows "\<exists>h k'. emplace_fd pid fd mk k = Some k' \<and> sys_inv L A k' \<and> store_only (set_fd pid fd (Some h) k) k'"
proof -
  obtain k1 where k1: "clear_fd pid fd k = Some k1" "sys_inv L A k1" "store_only (set_fd pid fd None k) k1"
    using clear_fd_inv [OF inv fd] by blast
  then obtain h k2 where k2: "mk k1 = Some (h, k2)" "sys_inv L (add_mset (hd_file h, hd_direction h) A) k2" "store_only k1 k2"
    using mk by blast
  have so: "store_only (set_fd pid fd None k) k2"
    using k1(3) k2(3) store_only_trans by blast
  have fds: "fds_of pid k2 = (fds_of pid k)[fd := None]"
    using store_only_fields(6) [OF so] by (simp add: fds_of_set_fd)
  have "sys_inv L (A + slot_attach (fds_of pid k2 ! fd)) (set_fd pid fd (Some h) k2)"
    using k2(2) fd by (intro set_fd_inv) (simp_all add: fds)
  then have "sys_inv L A (set_fd pid fd (Some h) k2)"
    using fd by (simp add: fds)
  moreover have "set_fd pid fd (Some h) (set_fd pid fd None k) = set_fd pid fd (Some h) k"
    by (cases "k_procs k pid") (simp_all add: set_fd_def set_fds_def fds_of_def)
  then have "store_only (set_fd pid fd (Some h) k) (set_fd pid fd (Some h) k2)"
    using store_only_set_fd [OF so, of pid fd "Some h"] by simp
  ultimately show ?thesis
    using k1(1) k2(1) by (auto simp: emplace_fd_def)
qed

lemma grow_fds_inv:
  assumes inv: "sys_inv L A k" and fds: "fds_attach fds = fds_attach (fds_of pid k)" and p: "k_procs k pid \<noteq> None"
  shows "sys_inv L A (set_fds pid fds k)"
proof -
  obtain q where q: "k_procs k pid = Some q"
    using p by auto
  note D = sys_invD [OF inv]
  have "attaches (set_fds pid fds k) = attaches k"
    using set_fds_refs(1) [OF D(2) q, of fds] fds by (simp add: fds_of_def q)
  note eq = this
  show ?thesis
  proof (rule sys_inv_move [OF inv])
    show "p_running y \<or> p_pending y = None" if "k_procs (set_fds pid fds k) r = Some y" for r y
      using set_fds_idle [OF inv that] .
  qed (use eq set_fds_refs(2) [OF D(2) q, of fds] D(1-4) q in \<open>auto simp: set_fds_procs [OF q]\<close>)
qed

lemma free_fd_free: "free_fd fds < length fds \<Longrightarrow> fds ! free_fd fds = None"
  by (induction fds rule: free_fd.induct) auto

lemma allocate_fd_inv:
  assumes inv: "sys_inv L A k" and p: "k_procs k pid \<noteq> None" and fd: "allocate_fd pid k = (fd, k')"
  shows "sys_inv L A k'" "fd < length (fds_of pid k')" "fds_of pid k' ! fd = None" "k_procs k' pid \<noteq> None"
    "k_ipc k' = k_ipc k" "k_files k' = k_files k"
proof -
  have "sys_inv L A (set_fds pid (fds_of pid k @ [None]) k)"
    by (rule grow_fds_inv [OF inv _ p]) simp
  then show "sys_inv L A k'" "fd < length (fds_of pid k')" "fds_of pid k' ! fd = None" "k_procs k' pid \<noteq> None"
    "k_ipc k' = k_ipc k" "k_files k' = k_files k"
    using fd inv p free_fd_free by (auto simp: allocate_fd_def Let_def fds_of_set_fds set_fds_procs split: if_splits)
qed

lemma open_fd_inv:
  assumes inv: "sys_inv L A k" and p: "p \<in># L" and d: "is_pipe p k \<Longrightarrow> d \<noteq> ReadWriteDir" and pid: "k_procs k pid \<noteq> None"
    and fd: "allocate_fd pid k = (fd, k1)"
  shows "\<exists>k2. emplace_fd pid fd (handle_new p d) k1 = Some k2 \<and> sys_inv L A k2 \<and> k_procs k2 pid \<noteq> None"
proof -
  note a = allocate_fd_inv [OF inv pid fd]
  have clear: "clear_fd pid fd k1 = Some k1"
    using a(2,3) by (simp add: clear_fd_def)
  have "p \<in># outer_refs L A k1" "is_pipe p k1 \<Longrightarrow> d \<noteq> ReadWriteDir"
    using p d a(6) by (simp_all add: outer_refs_def is_pipe_def file_at_def)
  then obtain k2 where k2: "handle_new p d k1 = Some (\<lparr>hd_file = p, hd_direction = d, hd_offset = 0\<rparr>, k2)"
      "sys_inv L (add_mset (p, d) A) k2" "store_only k1 k2"
    using sys_handle_new [OF a(1)] by blast
  let ?h = "\<lparr>hd_file = p, hd_direction = d, hd_offset = 0\<rparr>"
  have fds: "fds_of pid k2 = fds_of pid k1" "k_procs k2 = k_procs k1"
    using store_only_fields [OF k2(3)] by auto
  have "sys_inv L (A + slot_attach (fds_of pid k2 ! fd)) (set_fd pid fd (Some ?h) k2)"
    using k2(2) a(2) by (intro set_fd_inv) (simp_all add: fds)
  moreover have "k_procs (set_fd pid fd (Some ?h) k2) pid \<noteq> None"
    using a(4) fds(2) by (simp add: set_fd_def set_fds_def)
  ultimately show ?thesis
    using a(3) clear k2(1) fds(1) by (simp add: emplace_fd_def)
qed

lemma outer_handle:
  assumes inv: "sys_inv L A k" and h: "fd_handle pid fd k = Some h"
  shows "hd_file h \<in># outer_refs L A k" "(hd_file h, hd_direction h) \<in># attaches k"
proof -
  have fd: "fd < length (fds_of pid k)" "fds_of pid k ! fd = Some h"
    using h by (auto simp: fd_handle_def split: if_splits)
  then obtain p where p: "k_procs k pid = Some p" "fds_of pid k = p_fds p"
    using fds_of_Some by blast
  have "(hd_file h, hd_direction h) \<in># fds_attach (p_fds p)"
    using fds_attach_update [of fd "p_fds p" None] fd p(2) by (metis add_0_right slot_attach.simps union_iff union_single_eq_member multi_member_last)
  then show "(hd_file h, hd_direction h) \<in># attaches k"
    unfolding attaches_def using over_map_mem [OF sys_invD(2) [OF inv]] p(1) by fast
  then show "hd_file h \<in># outer_refs L A k"
    by (force simp: outer_refs_def)
qed

lemma attached_handle:
  assumes inv: "sys_inv L A k" and "(p, d) \<in># attaches k"
  shows "\<exists>pid fd h. fd_handle pid fd k = Some h \<and> hd_file h = p \<and> hd_direction h = d"
proof -
  obtain pid q where "k_procs k pid = Some q" "(p, d) \<in># fds_attach (p_fds q)"
    using assms(2) over_map_mem [OF sys_invD(2) [OF inv], of "(p, d)" "\<lambda>p. fds_attach (p_fds p)"] by (auto simp: attaches_def)
  then obtain fd h where "fd < length (fds_of pid k)" "fds_of pid k ! fd = Some h" "hd_file h = p" "hd_direction h = d"
    using fds_attach_mem [of p d "p_fds q"] by (auto simp: fds_of_def)
  then have "fd_handle pid fd k = Some h"
    by (simp add: fd_handle_def)
  then show ?thesis
    using \<open>hd_file h = p\<close> \<open>hd_direction h = d\<close> by blast
qed

lemma handle_not_both:
  assumes inv: "sys_inv L A k" and h: "(p, d) \<in># attaches k" and pipe: "is_pipe p k"
  shows "d \<noteq> ReadWriteDir"
proof -
  obtain pp n where "k_files k p = Some (PipeF pp, n)"
    using pipe by (auto simp: is_pipe_def file_at_def split: option.splits kfile.splits)
  then have "count (attaches k + A) (p, ReadWriteDir) = 0"
    using pipe_countsD [OF store_invD(7) [OF sys_invD(1) [OF inv]]] by blast
  then show ?thesis
    using h by (auto simp: count_eq_zero_iff)
qed

lemma copy_handle_inv:
  assumes inv: "sys_inv L A k" and h: "fd_handle q src k = Some h" and other: "(q, src) \<noteq> (pid, dst)" and dst: "dst < length (fds_of pid k)"
  shows "\<exists>k' h'. emplace_fd pid dst (handle_copy h) k = Some k' \<and> sys_inv L A k' \<and> store_only (set_fd pid dst (Some h') k) k'"
proof -
  have "\<exists>h' k2. handle_copy h k1 = Some (h', k2) \<and> sys_inv L (add_mset (hd_file h', hd_direction h') A) k2 \<and> store_only k1 k2"
    if k1: "sys_inv L A k1" and so: "store_only (set_fd pid dst None k) k1" for k1
  proof -
    have "fds_of q k1 = (if q = pid then (fds_of q k)[dst := None] else fds_of q k)"
      using store_only_fields(6) [OF so] by (simp add: fds_of_set_fd)
    then have "fd_handle q src k1 = Some h"
      using h other by (auto simp: fd_handle_def split: if_splits)
    note live = outer_handle [OF k1 this]
    obtain k2 where "handle_new (hd_file h) (hd_direction h) k1 =
        Some (\<lparr>hd_file = hd_file h, hd_direction = hd_direction h, hd_offset = 0\<rparr>, k2)"
        "sys_inv L (add_mset (hd_file h, hd_direction h) A) k2" "store_only k1 k2"
      using sys_handle_new [OF k1 live(1) handle_not_both [OF k1 live(2)]] by blast
    then show ?thesis
      by (simp add: handle_copy_def)
  qed
  then show ?thesis
    using emplace_fd_inv [OF inv dst] by blast
qed

section \<open>File systems and waiting\<close>

lemma bound_refs_update:
  "i_anonymous_file node = i_anonymous_file (inode_at fs i) \<Longrightarrow> same_bound fs (fs\<lparr>inode_at := (inode_at fs)(i := node)\<rparr>)"
  unfolding same_bound_def bound_refs_def fresh_inodes_def by (auto intro!: sum.cong)

lemma bound_refs_new:
  assumes "next_inode fs' = next_inode fs + 1" "\<And>i. i \<noteq> next_inode fs \<Longrightarrow> i_anonymous_file (inode_at fs' i) = i_anonymous_file (inode_at fs i)"
    "i_anonymous_file (inode_at fs' (next_inode fs)) = None \<or>
     i_anonymous_file (inode_at fs' (next_inode fs)) = i_anonymous_file (inode_at fs (next_inode fs))"
  shows "same_bound fs fs'"
  using assms by (auto simp: same_bound_def bound_refs_def fresh_inodes_def)

lemma add_child_bound:
  "add_child i node fs = (n, fs') \<Longrightarrow> i_anonymous_file node = None \<Longrightarrow> same_bound fs fs' \<and> n < next_inode fs'"
  by (auto simp: add_child_def Let_def intro!: bound_refs_new split: if_splits)

lemma inode_create_bound: "inode_create i nm ty fs = (r, fs') \<Longrightarrow> same_bound fs fs' \<and> (\<forall>n. r = Inr n \<longrightarrow> n < next_inode fs')"
  using add_child_bound
  by (fastforce simp: inode_create_defs new_inode_def Let_def split: inode_class.splits inode_type.splits prod.splits)

lemma vfs_create_bound:
  "vfs_create path base ty fs = Some (r, fs') \<Longrightarrow> same_bound fs fs' \<and> (\<forall>n. r = Inr n \<longrightarrow> n < next_inode fs')"
  using inode_create_bound by (auto simp: vfs_create_def split: Option.bind_splits option.splits if_splits)

lemma vfs_open_bound:
  "vfs_open path create trunc base fs = Some (r, fs') \<Longrightarrow> same_bound fs fs'"
  using vfs_create_bound
  by (auto simp: vfs_open_def inode_truncate_def bound_refs_update split: Option.bind_splits option.splits if_splits sum.splits prod.splits)

lemma vfs_mount_bound: "vfs_mount path c fs = Some (r, fs') \<Longrightarrow> same_bound fs fs'"
  by (auto simp: vfs_mount_def fs_mount_def Let_def new_inode_def intro!: bound_refs_new split: Option.bind_splits option.splits)

lemma set_vfs_inv:
  assumes inv: "sys_inv L A k" and same: "same_bound (k_vfs k) fs"
  shows "sys_inv L A (k\<lparr>k_vfs := fs\<rparr>)"
proof -
  have "fresh_inodes fs" "bound_refs fs = bound_refs (k_vfs k)"
    using same sys_invD(4) [OF inv] by (auto simp: same_bound_def)
  then show ?thesis
    using sys_invD(2,3,5) [OF inv] by (intro sys_inv_move [OF inv]) (simp_all add: attaches_def waits_def)
qed

lemma pending_refs:
  assumes "finite (dom (k_procs k))" "k_procs k pid = Some p"
  shows "waits (set_pending pid w k) + proc_wait p = waits k + (case w of None \<Rightarrow> {#} | Some w \<Rightarrow> pend_refs w)"
    "attaches (set_pending pid w k) = attaches k"
proof -
  have procs: "k_procs (set_pending pid w k) = (k_procs k)(pid \<mapsto> p\<lparr>p_pending := w\<rparr>)"
    using assms(2) by (simp add: set_pending_def)
  show "waits (set_pending pid w k) + proc_wait p = waits k + (case w of None \<Rightarrow> {#} | Some w \<Rightarrow> pend_refs w)"
    using over_map_update [OF assms, of proc_wait "p\<lparr>p_pending := w\<rparr>"] unfolding waits_def procs by (simp add: proc_wait_def)
  show "attaches (set_pending pid w k) = attaches k"
    unfolding attaches_def procs by (rule over_map_update_same [OF assms]) simp
qed

lemma set_pending_fields [simp]:
  "k_ipc (set_pending pid w k) = k_ipc k" "k_files (set_pending pid w k) = k_files k" "k_vfs (set_pending pid w k) = k_vfs k"
  "k_pid_counter (set_pending pid w k) = k_pid_counter k" "fds_of q (set_pending pid w k) = fds_of q k"
  "k_procs (set_pending pid w k) q = None \<longleftrightarrow> k_procs k q = None"
  by (auto simp: set_pending_def fds_of_def split: option.splits)

lemma block_inv:
  assumes inv: "sys_inv (L + pend_refs w) A k" and p: "k_procs k pid = Some p" "p_pending p = None" "p_running p"
  shows "sys_inv L A (set_pending pid (Some w) k)"
proof -
  note D = sys_invD [OF inv]
  have "waits (set_pending pid (Some w) k) = waits k + pend_refs w"
    using pending_refs(1) [OF D(2) p(1), of "Some w"] p(2) by (simp add: proc_wait_def)
  moreover have "finite (dom (k_procs (set_pending pid (Some w) k)))"
    using D(2) p(1) by (simp add: set_pending_def)
  moreover have "p_running q \<or> p_pending q = None" if "k_procs (set_pending pid (Some w) k) r = Some q" for r q
    using that D(5) [of r] p(1,3) by (auto simp: set_pending_def split: if_splits)
  ultimately show ?thesis
    using D(1-4) pending_refs(2) [OF D(2) p(1)] by (intro sys_inv_move [OF inv]) (simp_all add: ac_simps)
qed

lemma unblock_inv:
  assumes inv: "sys_inv L A k" and p: "k_procs k pid = Some p" "p_pending p = Some w"
  shows "sys_inv (L + pend_refs w) A (set_pending pid None k)"
proof -
  note D = sys_invD [OF inv]
  have "waits (set_pending pid None k) + pend_refs w = waits k"
    using pending_refs(1) [OF D(2) p(1), of None] p(2) by (simp add: proc_wait_def)
  moreover have "finite (dom (k_procs (set_pending pid None k)))"
    using D(2) p(1) by (simp add: set_pending_def)
  moreover have "p_running q \<or> p_pending q = None" if "k_procs (set_pending pid None k) r = Some q" for r q
    using that D(5) [of r] p(1) by (auto simp: set_pending_def split: if_splits)
  ultimately show ?thesis
    using D(1-4) pending_refs(2) [OF D(2) p(1)] by (intro sys_inv_move [OF inv]) (simp_all add: ac_simps)
qed

end
