(* ===== verification/Kernel_Invariant.thy ===== *)
theory Kernel_Invariant
  imports References
begin

text \<open>
  Every system call of \<^verbatim>\<open>src/kernel/syscalls.cc\<close> keeps the references of \<open>References\<close>: no file is
  used after it was freed, no reference is lost, and a pipe counts as readers and writers the handles that
  are open. The properties at the end are those of the whole system over any interleaving of processes.
\<close>

section \<open>The calls keep the references\<close>

abbreviation kernel_inv :: "kernel \<Rightarrow> bool" where
  "kernel_inv k \<equiv> sys_inv {#} {#} k"

lemma sys_close_inv:
  assumes "kernel_inv k"
  shows "\<exists>r k'. sys_close pid fd k = Some (r, k') \<and> kernel_inv k'"
proof (cases "fd_handle pid fd k")
  case (Some h)
  then have "fd < length (fds_of pid k)"
    by (auto simp: fd_handle_def split: if_splits)
  then show ?thesis
    using clear_fd_inv [OF assms] Some by (force simp: sys_close_def)
qed (use assms in \<open>simp add: sys_close_def\<close>)

lemma ensure_fds_inv:
  assumes "sys_inv L A k" "k_procs k pid \<noteq> None"
  shows "sys_inv L A (ensure_fds pid n k)" "n \<le> length (fds_of pid (ensure_fds pid n k))"
    "fd_handle q fd (ensure_fds pid n k) = fd_handle q fd k"
  using grow_fds_inv [OF assms(1) _ assms(2)] assms(2)
  by (auto simp: ensure_fds_def fds_of_set_fds fd_handle_def nth_append)

lemma sys_dup_fd_inv:
  assumes inv: "kernel_inv k" and dst: "dst + 1 < 2 ^ 32"
  shows "\<exists>r k'. sys_dup_fd pid src dst k = Some (r, k') \<and> kernel_inv k'"
proof (cases "fd_handle pid src k")
  case (Some h)
  have p: "k_procs k pid \<noteq> None"
    using Some by (auto simp: fd_handle_def fds_of_def split: if_splits option.splits)
  show ?thesis
  proof (cases "src = dst")
    case False
    note e = ensure_fds_inv [OF inv p]
    have "add32 dst 1 = dst + 1"
      using dst by (simp add: add32_def)
    then obtain k' where "emplace_fd pid dst (handle_copy h) (ensure_fds pid (add32 dst 1) k) = Some k'" "kernel_inv k'"
      using copy_handle_inv [OF e(1) [of "dst + 1"], of pid src h pid dst] e(2) [of "dst + 1"] e(3) [of pid src "dst + 1"] Some False by auto
    then show ?thesis
      using Some False by (simp add: sys_dup_fd_def)
  qed (use inv Some in \<open>simp add: sys_dup_fd_def\<close>)
qed (use inv in \<open>simp add: sys_dup_fd_def\<close>)

lemma copy_handle_some:
  assumes inv: "sys_inv L A k" and h: "fd_handle q src k = Some h" and other: "(q, src) \<noteq> (pid, dst)"
    and em: "emplace_fd pid dst (handle_copy h) k = Some k'"
  shows "sys_inv L A k'" "\<exists>h'. store_only (set_fd pid dst (Some h') k) k'"
proof -
  have "dst < length (fds_of pid k)"
    using em by (auto simp: emplace_fd_def clear_fd_def split: Option.bind_splits)
  then show "sys_inv L A k'" "\<exists>h'. store_only (set_fd pid dst (Some h') k) k'"
    using copy_handle_inv [OF inv h other] em by auto
qed

lemma dup_fd_some_inv:
  assumes inv: "kernel_inv k" and dup: "sys_dup_fd pid src dst k = Some (r, k')"
  shows "kernel_inv k'"
proof (cases "fd_handle pid src k = None \<or> src = dst")
  case True
  then show ?thesis
    using inv dup by (auto simp: sys_dup_fd_def split: option.splits)
next
  case False
  then obtain h where h: "fd_handle pid src k = Some h" "src \<noteq> dst"
    by auto
  have p: "k_procs k pid \<noteq> None"
    using h by (auto simp: fd_handle_def fds_of_def split: if_splits option.splits)
  have "emplace_fd pid dst (handle_copy h) (ensure_fds pid (add32 dst 1) k) = Some k'"
    using dup h by (auto simp: sys_dup_fd_def split: Option.bind_splits)
  then show ?thesis
    using copy_handle_some(1) [OF ensure_fds_inv(1) [OF inv p], of pid src "add32 dst 1" h pid dst k'] ensure_fds_inv(3) [OF inv p] h by simp
qed

lemma sys_create_pipe_inv:
  assumes inv: "kernel_inv k" and pid: "k_procs k pid \<noteq> None"
  shows "\<exists>r k'. sys_create_pipe pid k = Some (r, k') \<and> kernel_inv k'"
proof -
  obtain p k1 where nf: "new_file (PipeF pipe_new) k = (p, k1)"
    by force
  note n = new_file_store [OF sys_invD(1) [OF inv] _ _ nf, simplified]
  have k1: "sys_inv {#p#} {#} k1"
    using sys_inv_store [OF inv n(2), of "{#p#}" "{#}"] n(1) by (simp add: queue_of_def outer_refs_def)
  have pid1: "k_procs k1 pid \<noteq> None"
    using pid n(2) by (simp add: store_only_fields queue_of_def)
  obtain rfd k2 where k2: "allocate_fd pid k1 = (rfd, k2)"
    by force
  obtain k3 where k3: "emplace_fd pid rfd (handle_new p ReadDir) k2 = Some k3" "sys_inv {#p#} {#} k3" "k_procs k3 pid \<noteq> None"
    using open_fd_inv [OF k1 _ _ pid1 k2, of p ReadDir] by auto
  obtain wfd k4 where k4: "allocate_fd pid k3 = (wfd, k4)"
    by force
  obtain k5 where k5: "emplace_fd pid wfd (handle_new p WriteDir) k4 = Some k5" "sys_inv {#p#} {#} k5" "k_procs k5 pid \<noteq> None"
    using open_fd_inv [OF k3(2) _ _ k3(3) k4, of p WriteDir] by auto
  obtain k6 where "file_sub_ref p k5 = Some k6" "kernel_inv k6"
    using sys_sub_ref [OF k5(2)] by blast
  then show ?thesis
    using nf k2 k3(1) k4 k5(1) by (simp add: sys_create_pipe_def)
qed

lemma new_file_inv:
  assumes inv: "kernel_inv k" and nf: "new_file f k = (p, k1)" and f: "queue_of (f, 1) = {#}" and pipe: "\<And>pp. f = PipeF pp \<Longrightarrow> pp = pipe_new"
  shows "sys_inv {#p#} {#} k1" "k_procs k1 = k_procs k" "file_at p k1 = Some f"
proof -
  note n = new_file_store [OF sys_invD(1) [OF inv] f pipe nf]
  show "sys_inv {#p#} {#} k1"
    using sys_inv_store [OF inv n(2), of "{#p#}" "{#}"] n(1) by (simp add: outer_refs_def)
  show "k_procs k1 = k_procs k" "file_at p k1 = Some f"
    using n by (simp_all add: store_only_fields)
qed

text \<open>A call that puts a file it holds into a new descriptor and drops its own reference.\<close>

lemma publish_inv:
  assumes inv: "sys_inv (add_mset p L) {#} k" and d: "is_pipe p k \<Longrightarrow> d \<noteq> ReadWriteDir" and pid: "k_procs k pid \<noteq> None"
    and fd: "allocate_fd pid k = (fd, k1)"
  shows "\<exists>k2 k3. emplace_fd pid fd (handle_new p d) k1 = Some k2 \<and> file_sub_ref p k2 = Some k3 \<and> sys_inv L {#} k3"
proof -
  obtain k2 where k2: "emplace_fd pid fd (handle_new p d) k1 = Some k2" "sys_inv (add_mset p L) {#} k2"
    using open_fd_inv [OF inv _ d pid fd, of p] by auto
  then show ?thesis
    using sys_sub_ref [OF k2(2)] by blast
qed

lemma sys_create_server_socket_inv:
  assumes inv: "kernel_inv k" and pid: "k_procs k pid \<noteq> None"
  shows "\<exists>r k'. sys_create_server_socket pid limit k = Some (r, k') \<and> kernel_inv k'"
proof -
  obtain p k1 where nf: "new_file (ServerF (server_socket_new limit)) k = (p, k1)"
    by force
  note n = new_file_inv [OF inv nf]
  have k1: "sys_inv {#p#} {#} k1" "k_procs k1 pid \<noteq> None" "\<not> is_pipe p k1"
    using n pid by (simp_all add: queue_of_def server_socket_new_def is_pipe_def)
  obtain fd k2 where k2: "allocate_fd pid k1 = (fd, k2)"
    by force
  then show ?thesis
    using publish_inv [OF k1(1) _ k1(2) k2, of ReadWriteDir] k1(3) nf by (auto simp: sys_create_server_socket_def)
qed

lemma hold_file_inv:
  assumes inv: "kernel_inv k" and hold: "hold_file f k = Some (p, k1)" and f: "\<And>q. f = BoundFile q \<Longrightarrow> q \<in># bound_refs (k_vfs k)"
  shows "sys_inv {#p#} {#} k1" "k_procs k1 = k_procs k"
proof -
  have "sys_inv {#p#} {#} k1 \<and> k_procs k1 = k_procs k"
  proof (cases f)
    case (InodeFile i)
    then show ?thesis
      using new_file_inv [OF inv, of "InodeF i" p k1] hold by (simp add: hold_file_def queue_of_def)
  next
    case (BoundFile q)
    then have "q \<in># outer_refs {#} {#} k"
      using f by (simp add: outer_refs_def)
    then show ?thesis
      using sys_add_ref [OF inv, of q] hold BoundFile by (auto simp: hold_file_def store_only_fields split: Option.bind_splits)
  qed
  then show "sys_inv {#p#} {#} k1" "k_procs k1 = k_procs k"
    by auto
qed

lemma in_bound_refs: "i < next_inode fs \<Longrightarrow> i_anonymous_file (inode_at fs i) = Some p \<Longrightarrow> p \<in># bound_refs fs"
  unfolding bound_refs_def by (subst sum.remove [of _ i]) auto

lemma inode_open_bound: "fresh_inodes fs \<Longrightarrow> inode_open fs i = Inr (BoundFile q) \<Longrightarrow> q \<in># bound_refs fs"
  by (rule in_bound_refs [of i]) (auto simp: inode_open_def fresh_inodes_def not_less [symmetric] split: if_splits option.splits)

lemma vfs_open_file:
  assumes "vfs_open path create trunc base fs = Some (Inr (BoundFile q), fs')" "fresh_inodes fs"
  shows "q \<in># bound_refs fs'"
proof -
  have fresh: "fresh_inodes fs'"
    using vfs_open_bound [OF assms(1)] assms(2) by (simp add: same_bound_def)
  have "\<exists>i. inode_open fs' i = Inr (BoundFile q)"
    using assms(1) by (auto simp: vfs_open_def split: Option.bind_splits option.splits if_splits sum.splits prod.splits)
  then show ?thesis
    using inode_open_bound [OF fresh] by blast
qed

lemma sys_open_inv:
  assumes inv: "kernel_inv k" and pid: "k_procs k pid \<noteq> None" and op: "sys_open pid path create trunc k = Some (r, k')"
  shows "kernel_inv k'"
proof -
  obtain res fs where vo: "vfs_open path create trunc (cwd_of pid k) (k_vfs k) = Some (res, fs)"
    using op by (auto simp: sys_open_def split: Option.bind_splits)
  have k1: "kernel_inv (k\<lparr>k_vfs := fs\<rparr>)"
    using set_vfs_inv [OF inv vfs_open_bound [OF vo]] .
  show ?thesis
  proof (cases res)
    case (Inl e)
    then show ?thesis
      using op vo k1 by (simp add: sys_open_def)
  next
    case (Inr f)
    have f: "q \<in># bound_refs (k_vfs (k\<lparr>k_vfs := fs\<rparr>))" if "f = BoundFile q" for q
      using vfs_open_file [of path create trunc _ _ q fs] vo Inr that sys_invD(4) [OF inv] by simp
    obtain p k2 where k2: "hold_file f (k\<lparr>k_vfs := fs\<rparr>) = Some (p, k2)"
      using op vo Inr by (auto simp: sys_open_def split: Option.bind_splits)
    note h = hold_file_inv [OF k1 k2 f]
    obtain fd k3 where k3: "allocate_fd pid k2 = (fd, k3)"
      by force
    have pipe: "is_pipe p k3 = is_pipe p k2"
      using k3 by (auto simp: allocate_fd_def Let_def is_pipe_def split: if_splits)
    have "\<exists>k4 k5. emplace_fd pid fd (handle_new p (if is_pipe p k3 then ReadDir else ReadWriteDir)) k3 = Some k4 \<and>
        file_sub_ref p k4 = Some k5 \<and> kernel_inv k5"
      using h pid pipe by (intro publish_inv [OF _ _ _ k3]) (simp_all split: if_splits)
    then show ?thesis
      using op vo Inr k2 k3 by (auto simp: sys_open_def)
  qed
qed

lemma set_fd_offset_inv:
  assumes inv: "sys_inv L A k" and h: "fd_handle pid fd k = Some h" and x: "slot_attach x = slot_attach (Some h)"
  shows "sys_inv L A (set_fd pid fd x k)"
proof -
  have fd: "fd < length (fds_of pid k)" "fds_of pid k ! fd = Some h"
    using h by (auto simp: fd_handle_def split: if_splits)
  have "fds_attach ((fds_of pid k)[fd := x]) = fds_attach (fds_of pid k)"
    using fds_attach_update [OF fd(1), of x] x fd(2) by simp
  moreover have "k_procs k pid \<noteq> None"
    using fd(1) by (auto simp: fds_of_def split: option.splits)
  ultimately show ?thesis
    unfolding set_fd_def by (intro grow_fds_inv [OF inv])
qed

lemma set_ipc_inv:
  assumes inv: "sys_inv L A k" and st: "ipc_inv st" "ipc_socks st = ipc_socks (k_ipc k)" "ipc_next st = ipc_next (k_ipc k)"
  shows "sys_inv L A (k\<lparr>k_ipc := st\<rparr>)"
proof (rule sys_inv_store [OF inv])
  show "store_inv (outer_refs L A k) (attaches k + A) (k\<lparr>k_ipc := st\<rparr>)"
    using sys_invD(1) [OF inv] st unfolding store_inv_def by (simp add: counts_def pipe_counts_def is_socket_def)
qed (simp add: store_only_def)

lemma socket_live:
  assumes "store_inv R T k" "is_socket p k"
  shows "\<exists>s. find_socket (k_ipc k) p = Some s"
  using assms by (auto simp: is_socket_def find_socket_def)

lemma socket_read_inv:
  assumes inv: "sys_inv L A k" and rd: "socket_read p n (k_ipc k) = Some (out, st)"
  shows "sys_inv L A (k\<lparr>k_ipc := st\<rparr>)"
proof -
  note I = store_invD(1) [OF sys_invD(1) [OF inv]]
  obtain s where s: "find_socket (k_ipc k) p = Some s"
    using rd by (auto simp: socket_read_def split: Option.bind_splits)
  obtain b m b' where b: "ipc_bufs (k_ipc k) (sock_read_buffer s) = Some (b, m)" "db_inv b'"
    and st: "st = (k_ipc k)\<lparr>ipc_bufs := (ipc_bufs (k_ipc k))(sock_read_buffer s \<mapsto> (b', m))\<rparr>"
    using rd by (cases rule: socket_read_step [OF I s, of n]) auto
  show ?thesis
    using ipc_inv_buffer_update [OF I b] by (intro set_ipc_inv [OF inv]) (simp_all add: st)
qed

lemma socket_write_inv:
  assumes inv: "sys_inv L A k" and wr: "socket_write p bytes (k_ipc k) = Some (m, st)"
  shows "sys_inv L A (k\<lparr>k_ipc := st\<rparr>)"
proof -
  note I = store_invD(1) [OF sys_invD(1) [OF inv]]
  obtain s where s: "find_socket (k_ipc k) p = Some s"
    using wr by (auto simp: socket_write_def split: Option.bind_splits)
  obtain b n b' where b: "ipc_bufs (k_ipc k) (sock_write_buffer s) = Some (b, n)" "db_inv b'"
    and st: "st = (k_ipc k)\<lparr>ipc_bufs := (ipc_bufs (k_ipc k))(sock_write_buffer s \<mapsto> (b', n))\<rparr>"
    using wr by (cases rule: socket_write_step [OF I s, of bytes]) auto
  show ?thesis
    using ipc_inv_buffer_update [OF I b] by (intro set_ipc_inv [OF inv]) (simp_all add: st)
qed

lemma pipe_update_inv:
  assumes inv: "sys_inv L A k" and p: "file_at p k = Some (PipeF pp)" and pp': "pipe_inv pp \<Longrightarrow> pipe_inv pp'"
      "pipe_reader_count pp' = pipe_reader_count pp" "pipe_writer_count pp' = pipe_writer_count pp"
  shows "sys_inv L A (set_file p (PipeF pp') k)" "store_only k (set_file p (PipeF pp') k)"
proof -
  obtain n where n: "k_files k p = Some (PipeF pp, n)"
    using p by (auto simp: file_at_def)
  note S = sys_invD(1) [OF inv]
  have "pipe_counts (attaches k + A) (set_file p (PipeF pp') k)"
    using pipe_countsD [OF store_invD(7) [OF S] n] pp' by (intro pipe_counts_set_file [OF store_invD(7) [OF S] n]) auto
  then have "store_inv (outer_refs L A k) (attaches k + A) (set_file p (PipeF pp') k) \<and> store_only k (set_file p (PipeF pp') k)"
    using set_file_store [OF S n, of "PipeF pp'" "attaches k + A"] store_invD(9) [OF S] by (simp add: queue_of_def)
  then show "sys_inv L A (set_file p (PipeF pp') k)" "store_only k (set_file p (PipeF pp') k)"
    using sys_inv_store [OF inv] by blast+
qed

lemma kfile_read_inv:
  assumes inv: "sys_inv L A k" and rd: "kfile_read p n offset k = Some (r, k')"
  shows "sys_inv L A k' \<and> store_only k k'"
proof (cases "is_socket p k")
  case True
  then show ?thesis
    using rd socket_read_inv [OF inv, of p n] by (auto simp: kfile_read_def store_only_def split: Option.bind_splits)
next
  case False
  then obtain f where f: "file_at p k = Some f"
    using rd by (auto simp: kfile_read_def split: Option.bind_splits)
  show ?thesis
  proof (cases f)
    case (PipeF pp)
    obtain out pp' where pr: "pipe_read n pp = (out, pp')"
      by force
    have "pipe_inv pp \<Longrightarrow> pipe_inv pp'" "pipe_reader_count pp' = pipe_reader_count pp" "pipe_writer_count pp' = pipe_writer_count pp"
      using pipe.recv_law [OF _ pr] pr by (auto simp: pipe_read_def split: prod.splits)
    note u = pipe_update_inv [OF inv f [unfolded PipeF] this]
    have "k' = set_file p (PipeF pp') k"
      using rd False f PipeF pr by (simp add: kfile_read_def)
    then show ?thesis
      using u by simp
  qed (use rd False f inv in \<open>auto simp: kfile_read_def split: Option.bind_splits\<close>)
qed

lemma kfile_write_inv:
  assumes inv: "sys_inv L A k" and wr: "kfile_write p bytes offset k = Some (r, k')"
  shows "sys_inv L A k'" "fd_handle pid fd k' = fd_handle pid fd k"
proof -
  have "sys_inv L A k' \<and> k_procs k' = k_procs k"
  proof (cases "is_socket p k")
    case True
    then show ?thesis
      using wr socket_write_inv [OF inv, of p bytes] by (auto simp: kfile_write_def split: Option.bind_splits)
  next
    case False
    then obtain f where f: "file_at p k = Some f"
      using wr by (auto simp: kfile_write_def split: Option.bind_splits)
    show ?thesis
    proof (cases f)
      case (InodeF i)
      then obtain m fs where iw: "inode_write i bytes offset (k_vfs k) = Some (m, fs)" and k': "k' = k\<lparr>k_vfs := fs\<rparr>"
        using wr False f by (auto simp: kfile_write_def split: Option.bind_splits)
      have "same_bound (k_vfs k) fs"
        using iw by (auto simp: inode_write_def bound_refs_update split: Option.bind_splits)
      then show ?thesis
        using set_vfs_inv [OF inv] by (simp add: k')
    next
      case (PipeF pp)
      obtain m pp' where pw: "pipe_write bytes pp = (m, pp')"
        by force
      have "pipe_inv pp \<Longrightarrow> pipe_inv pp'" "pipe_reader_count pp' = pipe_reader_count pp" "pipe_writer_count pp' = pipe_writer_count pp"
        using pipe.send_law [OF _ pw] pw by (auto simp: pipe_write_def split: prod.splits)
      note u = pipe_update_inv [OF inv f [unfolded PipeF] this]
      have "k' = set_file p (PipeF pp') k"
        using wr False f PipeF pw by (simp add: kfile_write_def)
      then show ?thesis
        using u by (simp add: store_only_fields)
    qed (use wr False f inv in \<open>auto simp: kfile_write_def split: Option.bind_splits\<close>)
  qed
  then show "sys_inv L A k'" "fd_handle pid fd k' = fd_handle pid fd k"
    by (simp_all add: fd_handle_def fds_of_def)
qed

lemma read_finish_inv:
  assumes inv: "kernel_inv k" and rd: "read_finish pid fd n k = Some (r, k')"
  shows "kernel_inv k'"
proof -
  obtain h res k1 where h: "fd_handle pid fd k = Some h" and fr: "kfile_read (hd_file h) n (hd_offset h) k = Some (res, k1)"
    and k': "k' = (case res of Inl e \<Rightarrow> k1 | Inr bytes \<Rightarrow> set_fd pid fd (Some (h\<lparr>hd_offset := add64 (hd_offset h) (length bytes)\<rparr>)) k1)"
    using rd by (auto simp: read_finish_def split: Option.bind_splits sum.splits)
  note k1 = kfile_read_inv [OF inv fr]
  have "fd_handle pid fd k1 = Some h"
    using k1 h store_only_fields(7) [of k k1] by simp
  then show ?thesis
    using k1 set_fd_offset_inv [of "{#}" "{#}" k1 pid fd h] by (auto simp: k' split: sum.splits)
qed

lemma write_finish_inv:
  assumes inv: "kernel_inv k" and wr: "write_finish pid fd bytes k = Some (r, k')"
  shows "kernel_inv k'"
proof -
  obtain h res k1 where h: "fd_handle pid fd k = Some h" and fw: "kfile_write (hd_file h) bytes (hd_offset h) k = Some (res, k1)"
    and k': "k' = (case res of Inl e \<Rightarrow> k1 | Inr m \<Rightarrow> set_fd pid fd (Some (h\<lparr>hd_offset := add64 (hd_offset h) m\<rparr>)) k1)"
    using wr by (auto simp: write_finish_def split: Option.bind_splits sum.splits)
  note k1 = kfile_write_inv [OF inv fw]
  then show ?thesis
    using h set_fd_offset_inv [of "{#}" "{#}" k1 pid fd h] by (auto simp: k' split: sum.splits)
qed

lemma wait_for_file_inv:
  assumes inv: "kernel_inv k" and p: "k_procs k pid = Some p" "p_pending p = None" "p_running p" and f: "f \<in># outer_refs {#} {#} k"
    and add: "file_add_ref f k = Some k1" and w: "pend_refs w = {#f#}"
  shows "kernel_inv (set_pending pid (Some w) k1)"
proof -
  have "sys_inv {#f#} {#} k1" "k_procs k1 = k_procs k"
    using sys_add_ref [OF inv f] add by (auto simp: store_only_fields)
  then show ?thesis
    using block_inv [of "{#}" w "{#}" k1 pid p] p w by simp
qed

lemma clear_fd_handle_inv:
  assumes "kernel_inv k" "fd_handle pid fd k = Some h" "clear_fd pid fd k = Some k'"
  shows "kernel_inv k'"
  using clear_fd_inv [OF assms(1), of fd pid] assms(2,3) by (auto simp: fd_handle_def split: if_splits)

lemma sys_read_fd_inv:
  assumes inv: "kernel_inv k" and p: "k_procs k pid = Some p" "p_pending p = None" "p_running p" and rd: "sys_read_fd pid fd n k = Some (r, k')"
  shows "kernel_inv k'"
proof (cases "fd_handle pid fd k")
  case (Some h)
  show ?thesis
    using rd Some clear_fd_handle_inv [OF inv Some] read_finish_inv [OF inv] wait_for_file_inv [OF inv p outer_handle(1) [OF inv Some]]
    by (auto simp: sys_read_fd_def split: Option.bind_splits if_splits)
qed (use inv rd in \<open>simp add: sys_read_fd_def\<close>)

lemma sys_write_fd_inv:
  assumes inv: "kernel_inv k" and p: "k_procs k pid = Some p" "p_pending p = None" "p_running p" and wr: "sys_write_fd pid fd bytes k = Some (r, k')"
  shows "kernel_inv k'"
proof (cases "fd_handle pid fd k")
  case (Some h)
  show ?thesis
    using wr Some clear_fd_handle_inv [OF inv Some] write_finish_inv [OF inv] wait_for_file_inv [OF inv p outer_handle(1) [OF inv Some]]
    by (auto simp: sys_write_fd_def split: Option.bind_splits if_splits)
qed (use inv wr in \<open>simp add: sys_write_fd_def\<close>)

lemma sys_seek_fd_inv:
  assumes inv: "kernel_inv k" and sk: "sys_seek_fd pid fd offset mode k = Some (r, k')"
  shows "kernel_inv k'"
proof (cases "fd_handle pid fd k")
  case (Some h)
  show ?thesis
    using sk Some clear_fd_handle_inv [OF inv Some] set_fd_offset_inv [OF inv Some]
    by (auto simp: sys_seek_fd_def Let_def split: Option.bind_splits if_splits)
qed (use inv sk in \<open>simp add: sys_seek_fd_def\<close>)

lemma sys_size_inv:
  assumes inv: "kernel_inv k" and sz: "sys_size pid fd k = Some (r, k')"
  shows "kernel_inv k'"
proof (cases "fd_handle pid fd k")
  case (Some h)
  show ?thesis
    using sz Some clear_fd_handle_inv [OF inv Some] inv by (auto simp: sys_size_def split: Option.bind_splits if_splits)
qed (use inv sz in \<open>simp add: sys_size_def\<close>)

lemma set_file_ipc: "set_file p f (k\<lparr>k_ipc := st\<rparr>) = (set_file p f k)\<lparr>k_ipc := st\<rparr>"
  by (auto simp: set_file_def split: option.splits)

lemma new_socket_store:
  assumes inv: "store_inv R T k" and st: "ipc_inv st" "ipc_socks st = (ipc_socks (k_ipc k))(c \<mapsto> (s, 1))"
    and c: "ipc_next (k_ipc k) \<le> c" "c < ipc_next st"
  shows "store_inv (add_mset c R) T (k\<lparr>k_ipc := st\<rparr>)"
proof -
  note D = store_invD [OF inv]
  have fresh: "k_files k c = None" "ipc_socks (k_ipc k) c = None"
    using D(3) ipc_invD(2) [OF D(1)] c(1) by auto
  have "counts (k\<lparr>k_ipc := st\<rparr>) r = count (add_mset c R) r + count (over_map queue_of (k_files k)) r" for r
    using D(6) [of r] fresh ref_count_eq(2) [of "ipc_socks (k_ipc k)" c] by (auto simp: counts_def st(2) ref_count_upd)
  moreover have "dom (k_files k) \<inter> dom (ipc_socks st) = {}"
    using D(4) fresh(1) unfolding st(2) by (auto simp: dom_def)
  moreover have "k_files k r = None" if "ipc_next st \<le> r" for r
    using that c by (intro D(3)) simp
  moreover have "is_socket q (k\<lparr>k_ipc := st\<rparr>)" if "q \<in># over_map queue_of (k_files k)" for q
    using D(8) [OF that] by (simp add: is_socket_def st(2))
  moreover have "pipe_counts T (k\<lparr>k_ipc := st\<rparr>)"
    using D(7) by (simp add: pipe_counts_def)
  ultimately show ?thesis
    using D(2,5) st(1) subset_add_mset [OF D(9)] unfolding store_inv_def by simp
qed

lemma requeue_store:
  assumes inv: "store_inv R T k" and f: "k_files k p = Some (ServerF ss, n)"
    and R': "R' + mset (ss_queue ss') = R + mset (ss_queue ss)" and R: "image_mset fst T \<subseteq># R'" and q: "\<forall>q\<in>set (ss_queue ss'). is_socket q k"
  shows "store_inv R' T (set_file p (ServerF ss') k)" "store_only k (set_file p (ServerF ss') k)"
proof -
  note D = store_invD [OF inv]
  have k': "set_file p (ServerF ss') k = k\<lparr>k_files := (k_files k)(p \<mapsto> (ServerF ss', n))\<rparr>"
    by (simp add: set_file_def f)
  have oq: "over_map queue_of (k_files (set_file p (ServerF ss') k)) + mset (ss_queue ss) = over_map queue_of (k_files k) + mset (ss_queue ss')"
    using over_map_update [OF D(2) f, of queue_of "(ServerF ss', n)"] by (simp add: k' queue_of_def)
  have same: "counts (set_file p (ServerF ss') k) r = counts k r" for r
    using f by (simp add: counts_def k' ref_count_upd) (simp add: ref_count_def)
  have cnt: "counts (set_file p (ServerF ss') k) r =
      count R' r + count (over_map queue_of (k_files (set_file p (ServerF ss') k))) r" for r
  proof -
    have "count (over_map queue_of (k_files (set_file p (ServerF ss') k))) r + count (mset (ss_queue ss)) r =
        count (over_map queue_of (k_files k)) r + count (mset (ss_queue ss')) r"
      using oq by (metis count_union)
    moreover have "count R' r + count (mset (ss_queue ss')) r = count R r + count (mset (ss_queue ss)) r"
      using R' by (metis count_union)
    ultimately show ?thesis
      using D(6) [of r] by (simp add: same)
  qed
  have sock: "is_socket r k" if "r \<in># over_map queue_of (k_files (set_file p (ServerF ss') k))" for r
  proof -
    have "r \<in># over_map queue_of (k_files k) + mset (ss_queue ss')"
      using that unfolding oq [symmetric] by simp
    then show ?thesis
      using D(8) q by auto
  qed
  have "pipe_counts T (set_file p (ServerF ss') k)"
    using D(7) by (auto simp: pipe_counts_def k')
  then show "store_inv R' T (set_file p (ServerF ss') k)"
    using D(1-5) f cnt sock R unfolding store_inv_def by (auto simp: k' is_socket_def split: if_splits)
  show "store_only k (set_file p (ServerF ss') k)"
    by (simp add: k' store_only_def)
qed

lemma accept_store:
  assumes inv: "store_inv R T k" and f: "k_files k p = Some (ServerF ss, n)" and acc: "accept ss (k_ipc k) = Some (sock, ss', st)"
  shows "store_inv (add_mset sock R) T (set_file p (ServerF ss') (k\<lparr>k_ipc := st\<rparr>))" "is_socket sock (k\<lparr>k_ipc := st\<rparr>)"
proof -
  note D = store_invD [OF inv]
  obtain c rest s st1 where q: "ss_queue ss = c # rest" and s: "find_socket (k_ipc k) c = Some s"
    and mk: "make_socket (sock_write_buffer s) (sock_read_buffer s) (k_ipc k) = Some (sock, st1)" and dr: "drop_socket c st1 = Some st"
    and ss': "ss' = ss\<lparr>ss_queue := rest\<rparr>"
    using acc by (auto simp: accept_def split: list.splits Option.bind_splits)
  obtain m where sm: "ipc_socks (k_ipc k) c = Some (s, m)"
    using s by (auto simp: find_socket_def)
  obtain x y where "ipc_bufs (k_ipc k) (sock_write_buffer s) = Some x" "ipc_bufs (k_ipc k) (sock_read_buffer s) = Some y"
    using ipc_invD(6,7) [OF D(1) sm] by blast
  then have st1: "ipc_inv st1"
    using make_socket_inv [OF D(1) _ _ mk] by blast
  have socks: "sock = ipc_next (k_ipc k)" "\<exists>s'. ipc_socks st1 = (ipc_socks (k_ipc k))(sock \<mapsto> (s', 1))" "ipc_next st1 = sock + 1"
    using mk by (auto simp: make_socket_def split: Option.bind_splits)
  let ?k1 = "k\<lparr>k_ipc := st1\<rparr>"
  have k1: "store_inv (add_mset sock R) T ?k1"
    using new_socket_store [OF inv st1] socks by auto
  have T: "image_mset fst T \<subseteq># add_mset sock R"
    using D(9) by (rule subset_add_mset)
  have "over_map queue_of (k_files k) = queue_of (ServerF ss, n) + over_map queue_of ((k_files k)(p := None))"
    using over_map_delete [OF D(2) f] .
  then have "is_socket r ?k1" if "r \<in> set (ss_queue ss')" for r
    using store_invD(8) [OF k1, of r] that by (simp add: ss' q queue_of_def)
  then have k2: "store_inv (add_mset c (add_mset sock R)) T (set_file p (ServerF ss') ?k1)"
    using f T by (intro requeue_store(1) [OF k1, where ss = ss and n = n]) (simp_all add: ss' q subset_add_mset)
  have "k_files k c = None"
    using D(4) [of c] sm by (cases "k_files k c") auto
  moreover have "c \<noteq> p"
    using calculation f by auto
  ultimately have "k_files (set_file p (ServerF ss') ?k1) c = None"
    using f by (simp add: set_file_def)
  then obtain st2 where "drop_socket c (k_ipc (set_file p (ServerF ss') ?k1)) = Some st2"
      "store_inv (add_mset sock R) T ((set_file p (ServerF ss') ?k1)\<lparr>k_ipc := st2\<rparr>)"
    using drop_socket_store [OF k2 T] by blast
  then show inv': "store_inv (add_mset sock R) T (set_file p (ServerF ss') (k\<lparr>k_ipc := st\<rparr>))"
    using dr by (simp add: set_file_ipc)
  have "k_files (set_file p (ServerF ss') (k\<lparr>k_ipc := st\<rparr>)) sock = None"
    using D(3) [of sock] f socks(1) by (auto simp: set_file_def)
  then show "is_socket sock (k\<lparr>k_ipc := st\<rparr>)"
    by (cases rule: live_cases [OF inv', of sock]) (auto simp: is_socket_def set_file_ipc)
qed

lemma server_atD: "server_at p k = Some ss \<Longrightarrow> \<exists>n. k_files k p = Some (ServerF ss, n)"
  by (auto simp: server_at_def file_at_def split: option.splits kfile.splits)

lemma socket_not_pipe:
  assumes "store_inv R T k" "is_socket p k"
  shows "\<not> is_pipe p k"
  using store_invD(4) [OF assms(1), of p] assms(2) by (auto simp: is_pipe_def is_socket_def file_at_def split: option.splits)

lemma accept_finish_inv:
  assumes inv: "kernel_inv k" and pid: "k_procs k pid \<noteq> None" and acc: "accept_finish pid server k = Some (r, k')"
  shows "kernel_inv k'"
proof -
  obtain ss sock ss' st where ss: "server_at server k = Some ss" and ac: "accept ss (k_ipc k) = Some (sock, ss', st)"
    using acc by (auto simp: accept_finish_def split: Option.bind_splits)
  obtain n where n: "k_files k server = Some (ServerF ss, n)"
    using server_atD [OF ss] by blast
  let ?k1 = "set_file server (ServerF ss') (k\<lparr>k_ipc := st\<rparr>)"
  note a = accept_store [OF sys_invD(1) [OF inv] n ac]
  have so: "store_only k ?k1"
    by (simp add: set_file_def n store_only_def)
  have k1: "sys_inv {#sock#} {#} ?k1"
    using sys_inv_store [OF inv so, of "{#sock#}" "{#}"] a(1) by (simp add: outer_refs_def)
  have "is_socket sock ?k1"
    using a(2) by (simp add: is_socket_def set_file_ipc)
  then have np: "\<not> is_pipe sock ?k1"
    using socket_not_pipe [OF sys_invD(1) [OF k1]] by blast
  obtain fd k2 where k2: "allocate_fd pid ?k1 = (fd, k2)"
    by force
  then show ?thesis
    using publish_inv [OF k1 _ _ k2, of ReadWriteDir] np pid store_only_fields(2) [OF so] acc ss ac by (auto simp: accept_finish_def)
qed

lemma sys_accept_inv:
  assumes inv: "kernel_inv k" and p: "k_procs k pid = Some p" "p_pending p = None" "p_running p" and acc: "sys_accept pid fd k = Some (r, k')"
  shows "kernel_inv k'"
proof (cases "fd_handle pid fd k")
  case (Some h)
  show ?thesis
    using acc Some inv accept_finish_inv [OF inv, of pid "hd_file h"] wait_for_file_inv [OF inv p outer_handle(1) [OF inv Some]] p
    by (auto simp: sys_accept_def split: Option.bind_splits if_splits option.splits)
qed (use inv acc in \<open>simp add: sys_accept_def\<close>)

lemma new_client_store:
  assumes inv: "sys_inv L A k" and nc: "new_client (k_ipc k) = Some (c, st)"
  shows "sys_inv (add_mset c L) A (k\<lparr>k_ipc := st\<rparr>)" "is_socket c (k\<lparr>k_ipc := st\<rparr>)"
proof -
  note I = store_invD(1) [OF sys_invD(1) [OF inv]]
  have c: "c = ipc_next (k_ipc k) + 2" "\<exists>s. ipc_socks st = (ipc_socks (k_ipc k))(c \<mapsto> (s, 1))" "ipc_next st = c + 1"
    using nc unfolding new_client_eq Let_def by auto
  then have "store_inv (add_mset c (outer_refs L A k)) (attaches k + A) (k\<lparr>k_ipc := st\<rparr>)"
    using new_socket_store [OF sys_invD(1) [OF inv] new_client_inv [OF I nc]] by auto
  then show "sys_inv (add_mset c L) A (k\<lparr>k_ipc := st\<rparr>)"
    by (intro sys_inv_store [OF inv]) (simp_all add: outer_refs_def store_only_def)
  show "is_socket c (k\<lparr>k_ipc := st\<rparr>)"
    using c(2) by (auto simp: is_socket_def)
qed

lemma queue_client_inv:
  assumes inv: "sys_inv (add_mset c L) {#} k" and c: "is_socket c k" and ss: "server_at p k = Some ss"
    and q: "queue_connection_from c ss (k_ipc k) = Some (Inr (ss', st))"
  shows "sys_inv (add_mset c L) {#} (set_file p (ServerF ss') (k\<lparr>k_ipc := st\<rparr>))" "k_procs (set_file p (ServerF ss') (k\<lparr>k_ipc := st\<rparr>)) = k_procs k"
proof -
  obtain n where n: "k_files k p = Some (ServerF ss, n)"
    using server_atD [OF ss] by blast
  obtain socks where socks: "add_ref c (ipc_socks (k_ipc k)) = Some socks" "ss' = ss\<lparr>ss_queue := ss_queue ss @ [c]\<rparr>"
      "st = (k_ipc k)\<lparr>ipc_socks := socks\<rparr>"
    using q by (auto simp: queue_connection_from_def split: if_splits Option.bind_splits)
  have "file_add_ref c k = Some (k\<lparr>k_ipc := st\<rparr>)"
    using c socks by (simp add: file_add_ref_def)
  then have k1: "sys_inv (add_mset c (add_mset c L)) {#} (k\<lparr>k_ipc := st\<rparr>)"
    using sys_add_ref [OF inv, of c] by (auto simp: outer_refs_def)
  note S = sys_invD(1) [OF k1]
  let ?k1 = "k\<lparr>k_ipc := st\<rparr>"
  have so: "store_only ?k1 (set_file p (ServerF ss') ?k1)"
    by (simp add: set_file_def n store_only_def)
  have "over_map queue_of (k_files k) = queue_of (ServerF ss, n) + over_map queue_of ((k_files k)(p := None))"
    using over_map_delete [OF store_invD(2) [OF sys_invD(1) [OF inv]] n] .
  then have qs: "is_socket r ?k1" if "r \<in> set (ss_queue ss')" for r
    using store_invD(8) [OF S, of r] that c socks(1,3) by (auto simp: socks(2) queue_of_def is_socket_def add_ref_def split: option.splits)
  have "outer_refs (add_mset c (add_mset c L)) {#} ?k1 = add_mset c (outer_refs (add_mset c L) {#} ?k1)"
    by (simp add: outer_refs_def)
  then have "store_inv (outer_refs (add_mset c L) {#} ?k1) (attaches ?k1 + {#}) (set_file p (ServerF ss') ?k1)"
    using n qs by (intro requeue_store(1) [OF S, where ss = ss and n = n]) (simp_all add: socks(2) outer_refs_def subseteq_mset_def)
  then show "sys_inv (add_mset c L) {#} (set_file p (ServerF ss') ?k1)"
    by (intro sys_inv_store [OF k1 so])
  show "k_procs (set_file p (ServerF ss') (k\<lparr>k_ipc := st\<rparr>)) = k_procs k"
    using store_only_fields(2) [OF so] by simp
qed

lemma connect_finish_inv:
  assumes inv: "sys_inv {#c, p#} {#} k" and c: "is_socket c k" and pid: "k_procs k pid \<noteq> None"
    and fin: "connect_finish pid c p k = Some (r, k')"
  shows "kernel_inv k'"
proof -
  obtain fd k1 where k1: "allocate_fd pid k = (fd, k1)"
    by force
  have "\<not> is_pipe c k"
    using socket_not_pipe [OF sys_invD(1) [OF inv] c] .
  then obtain k2 k3 where k3: "emplace_fd pid fd (handle_new c ReadWriteDir) k1 = Some k2" "file_sub_ref c k2 = Some k3" "sys_inv {#p#} {#} k3"
    using publish_inv [OF inv _ pid k1, of ReadWriteDir] by auto
  then show ?thesis
    using sys_sub_ref [OF k3(3)] k1 fin by (auto simp: connect_finish_def)
qed

lemma client_waits_inv:
  assumes inv: "sys_inv {#c, p#} {#} k" and pid: "k_procs k pid = Some q" "p_pending q = None" "p_running q" and add: "file_add_ref c k = Some k1"
  shows "kernel_inv (set_pending pid (Some (PendConnect c p)) k1)"
proof -
  have "sys_inv {#c, c, p#} {#} k1" "k_procs k1 = k_procs k"
    using sys_add_ref [OF inv, of c] add by (auto simp: outer_refs_def store_only_fields)
  then show ?thesis
    using block_inv [of "{#}" "PendConnect c p" "{#}" k1 pid q] pid by simp
qed

lemma sys_connect_inv:
  assumes inv: "kernel_inv k" and q: "k_procs k pid = Some q" "p_pending q = None" "p_running q" and con: "sys_connect pid path k = Some (r, k')"
  shows "kernel_inv k'"
proof -
  obtain res fs where vo: "vfs_open path False False (cwd_of pid k) (k_vfs k) = Some (res, fs)"
    using con by (auto simp: sys_connect_def split: Option.bind_splits)
  let ?k1 = "k\<lparr>k_vfs := fs\<rparr>"
  have k1: "kernel_inv ?k1"
    using set_vfs_inv [OF inv vfs_open_bound [OF vo]] .
  show ?thesis
  proof (cases res)
    case (Inl e)
    then show ?thesis
      using con vo k1 by (simp add: sys_connect_def)
  next
    case (Inr f)
    have f: "x \<in># bound_refs (k_vfs ?k1)" if "f = BoundFile x" for x
      using vfs_open_file [of path False False _ _ x fs] vo Inr that sys_invD(4) [OF inv] by simp
    obtain p k2 where k2: "hold_file f ?k1 = Some (p, k2)"
      using con vo Inr by (auto simp: sys_connect_def split: Option.bind_splits)
    note h = hold_file_inv [OF k1 k2 f]
    show ?thesis
    proof (cases "server_at p k2")
      case None
      then show ?thesis
        using con vo Inr k2 sys_sub_ref [OF h(1)] by (auto simp: sys_connect_def)
    next
      case (Some ss)
      obtain c st rc where nc: "new_client (k_ipc k2) = Some (c, st)" and rc: "queue_connection_from c ss st = Some rc"
        using con vo Inr k2 Some by (auto simp: sys_connect_def split: Option.bind_splits)
      let ?k3 = "k2\<lparr>k_ipc := st\<rparr>"
      note k3 = new_client_store [OF h(1) nc]
      show ?thesis
      proof (cases rc)
        case (Inl e)
        obtain k4 where k4: "file_sub_ref c ?k3 = Some k4" "sys_inv {#p#} {#} k4"
          using sys_sub_ref [OF k3(1)] by blast
        then show ?thesis
          using con vo Inr k2 Some nc rc Inl sys_sub_ref [OF k4(2)] by (auto simp: sys_connect_def)
      next
        case (Inr x)
        obtain ss' st' where x: "x = (ss', st')"
          by force
        have "server_at p ?k3 = Some ss"
          using Some by (simp add: server_at_def file_at_def)
        note k4 = queue_client_inv [OF k3(1) k3(2) this, of ss' st']
        show ?thesis
          using con vo \<open>res = Inr f\<close> k2 Some nc rc Inr x k4 client_waits_inv [of c p _ pid q] q h(2)
          by (auto simp: sys_connect_def split: Option.bind_splits)
      qed
    qed
  qed
qed

lemma bind_bound:
  assumes "bind_anonymous_file i f fs = Some fs'" "i < next_inode fs" "fresh_inodes fs"
  shows "bound_refs fs' = add_mset f (bound_refs fs)" "fresh_inodes fs'"
proof -
  have fs': "fs' = fs\<lparr>inode_at := (inode_at fs)(i := (inode_at fs i)\<lparr>i_anonymous_file := Some f\<rparr>)\<rparr>"
    and free: "i_anonymous_file (inode_at fs i) = None"
    using assms(1) by (auto simp: bind_anonymous_file_def)
  let ?g = "\<lambda>fs j. case i_anonymous_file (inode_at fs j) of None \<Rightarrow> {#} | Some p \<Rightarrow> {#p#}"
  have "sum (?g fs') ({..<next_inode fs} - {i}) = sum (?g fs) ({..<next_inode fs} - {i})"
    by (rule sum.cong) (auto simp: fs')
  then show "bound_refs fs' = add_mset f (bound_refs fs)"
    using assms(2) free unfolding bound_refs_def
    by (simp add: fs' sum.remove [of "{..<next_inode fs}" i])
  show "fresh_inodes fs'"
    using assms(2,3) by (auto simp: fresh_inodes_def fs')
qed

lemma sys_bind_inv:
  assumes inv: "kernel_inv k" and bd: "sys_bind pid fd path k = Some (r, k')"
  shows "kernel_inv k'"
proof -
  obtain res fs where vc: "vfs_create path (cwd_of pid k) AnonymousFile (k_vfs k) = Some (res, fs)"
    using bd by (auto simp: sys_bind_def split: Option.bind_splits)
  let ?k1 = "k\<lparr>k_vfs := fs\<rparr>"
  have k1: "kernel_inv ?k1"
    using set_vfs_inv [OF inv] vfs_create_bound [OF vc] by blast
  show ?thesis
  proof (cases res)
    case (Inl e)
    then show ?thesis
      using bd vc k1 by (simp add: sys_bind_def)
  next
    case (Inr i)
    obtain h k2 fs' where h: "fd_handle pid fd ?k1 = Some h" and k2: "file_add_ref (hd_file h) ?k1 = Some k2"
      and fs': "bind_anonymous_file i (hd_file h) (k_vfs k2) = Some fs'" and k': "k' = k2\<lparr>k_vfs := fs'\<rparr>"
      using bd vc Inr by (auto simp: sys_bind_def Let_def split: Option.bind_splits)
    have i: "sys_inv {#hd_file h#} {#} k2" "store_only ?k1 k2"
      using sys_add_ref [OF k1 outer_handle(1) [OF k1 h]] k2 by auto
    have "i < next_inode (k_vfs k2)"
      using vfs_create_bound [OF vc] Inr store_only_fields(1) [OF i(2)] by simp
    note b = bind_bound [OF fs' this sys_invD(4) [OF i(1)]]
    show ?thesis
      unfolding k'
    proof (rule sys_inv_move [OF i(1)])
      show "p_running q \<or> p_pending q = None" if "k_procs (k2\<lparr>k_vfs := fs'\<rparr>) x = Some q" for x q
        using that sys_invD(5) [OF i(1)] by simp
    qed (use b sys_invD(2,3) [OF i(1)] in \<open>simp_all add: attaches_def waits_def\<close>)
  qed
qed

section \<open>Processes\<close>

lemma add_process_inv:
  assumes inv: "kernel_inv k" and np: "new_process cwd n k = (child, k1)"
  shows "kernel_inv k1" "child = k_pid_counter k" "fds_of child k1 = replicate n None" "q \<noteq> child \<Longrightarrow> fds_of q k1 = fds_of q k"
proof -
  note D = sys_invD [OF inv]
  let ?p = "\<lparr>p_fds = replicate n None, p_cwd = cwd, p_pending = None, p_running = True\<rparr>"
  have c: "child = k_pid_counter k" and k1: "k1 = k\<lparr>k_procs := (k_procs k)(child \<mapsto> ?p), k_pid_counter := child + 1\<rparr>"
    using np by (auto simp: new_process_def Let_def)
  then have fresh: "k_procs k child = None"
    using D(3) by simp
  have "attaches k1 = attaches k" "waits k1 = waits k"
    using over_map_insert [OF D(2) fresh, of "\<lambda>p. fds_attach (p_fds p)" ?p] over_map_insert [OF D(2) fresh, of proc_wait ?p]
    by (simp_all add: attaches_def waits_def k1 proc_wait_def)
  then show "kernel_inv k1"
    using D c by (intro sys_inv_move [OF inv]) (auto simp: k1 split: if_splits)
  show "child = k_pid_counter k" "fds_of child k1 = replicate n None" "q \<noteq> child \<Longrightarrow> fds_of q k1 = fds_of q k"
    using c by (simp_all add: fds_of_def k1)
qed

lemma pending_set_fds: "map_option p_pending (k_procs (set_fds pid fds k) q) = map_option p_pending (k_procs k q)"
  by (cases "k_procs k pid") (auto simp: set_fds_def)

lemma pending_set_fd: "map_option p_pending (k_procs (set_fd pid fd x k) q) = map_option p_pending (k_procs k q)"
  by (simp add: set_fd_def pending_set_fds)

text \<open>The new process is \<open>child\<close>: it waits for nothing while it gets its descriptors.\<close>

lemma copy_step:
  assumes t: "kernel_inv t" and h: "fd_handle pid src t = Some h" and ne: "pid \<noteq> child"
    and em: "emplace_fd child dst (handle_copy h) t = Some t'"
  shows "kernel_inv t'" "fds_of pid t' = fds_of pid t" "map_option p_pending (k_procs t' child) = map_option p_pending (k_procs t child)"
proof -
  note c = copy_handle_some [OF t h _ em]
  obtain h' where so: "store_only (set_fd child dst (Some h') t) t'"
    using c(2) ne by auto
  show "kernel_inv t'"
    using c(1) ne by simp
  show "fds_of pid t' = fds_of pid t"
    using store_only_fields(6) [OF so, of pid] ne by (simp add: fds_of_set_fd)
  show "map_option p_pending (k_procs t' child) = map_option p_pending (k_procs t child)"
    using store_only_fields(2) [OF so] by (simp add: pending_set_fd)
qed

lemma copy_fds_inv:
  assumes "kernel_inv k" "pid \<noteq> child" "\<forall>i\<in>set is'. i < length (fds_of pid k)" "for_each (copy_fd pid child) is' k = Some k'"
  shows "kernel_inv k' \<and> fds_of pid k' = fds_of pid k \<and> map_option p_pending (k_procs k' child) = map_option p_pending (k_procs k child)"
proof (rule for_each_invariant [OF assms(4)])
  fix i t t'
  assume i: "i \<in> set is'" and cp: "copy_fd pid child i t = Some t'"
    and t: "kernel_inv t \<and> fds_of pid t = fds_of pid k \<and> map_option p_pending (k_procs t child) = map_option p_pending (k_procs k child)"
  show "kernel_inv t' \<and> fds_of pid t' = fds_of pid k \<and> map_option p_pending (k_procs t' child) = map_option p_pending (k_procs k child)"
  proof (cases "fds_of pid t ! i")
    case None
    then show ?thesis
      using t cp by (simp add: copy_fd_def)
  next
    case (Some h)
    have "fd_handle pid i t = Some h" "emplace_fd child i (handle_copy h) t = Some t'"
      using Some t cp assms(3) i by (auto simp: fd_handle_def copy_fd_def)
    then show ?thesis
      using copy_step [OF conjunct1 [OF t] _ assms(2)] t by metis
  qed
qed (use assms(1) in simp)

lemma copy_pairs_inv:
  assumes "kernel_inv k" "pid \<noteq> child" "map_option p_pending (k_procs k child) = Some None" "for_each (copy_pair pid child) pairs k = Some k'"
  shows "kernel_inv k' \<and> map_option p_pending (k_procs k' child) = Some None"
proof (rule for_each_invariant [OF assms(4)])
  fix pair t t'
  assume t: "kernel_inv t \<and> map_option p_pending (k_procs t child) = Some None" and cp: "copy_pair pid child pair t = Some t'"
  let ?t = "ensure_fds child (add32 (snd pair) 1) t"
  obtain h where h: "fd_handle pid (fst pair) t = Some h" and em: "emplace_fd child (snd pair) (handle_copy h) ?t = Some t'"
    using cp by (auto simp: copy_pair_def split: Option.bind_splits)
  have "k_procs t child \<noteq> None"
    using t by auto
  note e = ensure_fds_inv [OF conjunct1 [OF t] this]
  have h': "fd_handle pid (fst pair) ?t = Some h"
    using h e(3) by simp
  have "map_option p_pending (k_procs ?t child) = Some None"
    using t by (simp add: ensure_fds_def pending_set_fds)
  then show "kernel_inv t' \<and> map_option p_pending (k_procs t' child) = Some None"
    using copy_step [OF e(1) h' assms(2) em] by simp
qed (use assms in simp)

lemma clear_fds_inv:
  assumes inv: "kernel_inv k"
  shows "m \<le> length (fds_of pid k) \<Longrightarrow> \<exists>t. for_each (clear_fd pid) [0..<m] k = Some t \<and> kernel_inv t \<and>
    fds_of pid t = replicate m None @ drop m (fds_of pid k) \<and> map_option p_pending (k_procs t pid) = map_option p_pending (k_procs k pid)"
proof (induction m)
  case (Suc m)
  then obtain t where t: "for_each (clear_fd pid) [0..<m] k = Some t" "kernel_inv t"
      "fds_of pid t = replicate m None @ drop m (fds_of pid k)" "map_option p_pending (k_procs t pid) = map_option p_pending (k_procs k pid)"
    by auto
  have m: "m < length (fds_of pid t)"
    using Suc.prems t(3) by simp
  obtain t' where t': "clear_fd pid m t = Some t'" "kernel_inv t'" "store_only (set_fd pid m None t) t'"
    using clear_fd_inv [OF t(2) m] by blast
  have "fds_of pid t' = (fds_of pid t)[m := None]"
    using store_only_fields(6) [OF t'(3)] by (simp add: fds_of_set_fd)
  also have "\<dots> = replicate m None @ (drop m (fds_of pid k))[0 := None]"
    using t(3) Suc.prems by (simp add: list_update_append)
  also have "\<dots> = replicate (Suc m) None @ drop (Suc m) (fds_of pid k)"
    using Suc.prems by (simp add: replicate_append_same [symmetric] Cons_nth_drop_Suc [symmetric])
  finally have "fds_of pid t' = replicate (Suc m) None @ drop (Suc m) (fds_of pid k)" .
  moreover have "map_option p_pending (k_procs t' pid) = map_option p_pending (k_procs k pid)"
    using store_only_fields(2) [OF t'(3)] t(4) by (simp add: pending_set_fd)
  ultimately show ?case
    using t(1) t'(1,2) by (simp add: for_each_append)
qed (use inv in simp)

lemma destroy_process_inv:
  assumes inv: "kernel_inv k" and p: "map_option p_pending (k_procs k pid) = Some None"
  shows "\<exists>k'. destroy_process pid k = Some k' \<and> kernel_inv k'"
proof -
  obtain t where t: "for_each (clear_fd pid) [0..<length (fds_of pid k)] k = Some t" "kernel_inv t"
      "fds_of pid t = replicate (length (fds_of pid k)) None" "map_option p_pending (k_procs t pid) = Some None"
    using clear_fds_inv [OF inv, of "length (fds_of pid k)" pid] p by auto
  obtain q where q: "k_procs t pid = Some q" "p_pending q = None"
    using t(4) by auto
  note D = sys_invD [OF t(2)]
  let ?k' = "t\<lparr>k_procs := (k_procs t)(pid := None)\<rparr>"
  have "p_fds q = replicate (length (fds_of pid k)) None"
    using t(3) q(1) by (simp add: fds_of_def)
  then have "attaches ?k' = attaches t" "waits ?k' = waits t"
    using over_map_delete [OF D(2) q(1), of "\<lambda>p. fds_attach (p_fds p)"] over_map_delete [OF D(2) q(1), of proc_wait] q(2)
    by (simp_all add: attaches_def waits_def proc_wait_def)
  then have "kernel_inv ?k'"
    using D by (intro sys_inv_move [OF t(2)]) (auto split: if_splits)
  then show ?thesis
    using t(1) by (simp add: destroy_process_def)
qed

lemma reap_inv:
  assumes inv: "kernel_inv k"
  shows "\<exists>k'. reap pid k = Some k' \<and> kernel_inv k'"
proof (cases "k_procs k pid")
  case (Some p)
  have "p_running p \<or> p_pending p = None"
    using sys_invD(5) [OF inv Some] .
  then show ?thesis
    using inv destroy_process_inv [OF inv, of pid] Some by (auto simp: reap_def)
qed (use inv in \<open>simp add: reap_def\<close>)

lemma sys_exit_inv:
  assumes inv: "kernel_inv k" and p: "k_procs k pid = Some p" "p_pending p = None"
  shows "\<exists>k'. sys_exit pid k = Some k' \<and> kernel_inv k'"
proof -
  note D = sys_invD [OF inv]
  let ?k1 = "k\<lparr>k_procs := (k_procs k)(pid \<mapsto> p\<lparr>p_running := False\<rparr>)\<rparr>"
  have "attaches ?k1 = attaches k" "waits ?k1 = waits k"
    using over_map_update_same [OF D(2) p(1), of "\<lambda>p. fds_attach (p_fds p)" "p\<lparr>p_running := False\<rparr>"]
      over_map_update_same [OF D(2) p(1), of proc_wait "p\<lparr>p_running := False\<rparr>"] by (simp_all add: attaches_def waits_def proc_wait_def)
  moreover have "p_running q \<or> p_pending q = None" if "k_procs ?k1 r = Some q" for q r
    using that D(5) [of r] p by (auto split: if_splits)
  ultimately have "kernel_inv ?k1"
    using D(1-4) p by (intro sys_inv_move [OF inv]) auto
  then show ?thesis
    using reap_inv p(1) by (simp add: sys_exit_def)
qed

lemma sys_create_process_inv:
  assumes inv: "kernel_inv k" and p: "k_procs k pid = Some p" and cp: "sys_create_process exec pid path argv pairs k = Some (r, k')"
  shows "kernel_inv k'"
proof -
  obtain child k1 where np: "new_process (cwd_of pid k) (length (fds_of pid k)) k = (child, k1)"
    by force
  note n = add_process_inv [OF inv np]
  have ne: "pid \<noteq> child"
    using sys_invD(3) [OF inv, of pid] p n(2) by auto
  obtain k2 k3 where k2: "for_each (copy_fd pid child) [0..<length (fds_of pid k)] k1 = Some k2"
    and k3: "for_each (copy_pair pid child) (takeWhile (\<lambda>pair. pair \<noteq> (0, 0)) pairs) k2 = Some k3"
    using cp np by (auto simp: sys_create_process_def split: Option.bind_splits)
  have "map_option p_pending (k_procs k1 child) = Some None"
    using np by (auto simp: new_process_def Let_def)
  then have "kernel_inv k2" "map_option p_pending (k_procs k2 child) = Some None"
    using copy_fds_inv [OF n(1) ne _ k2] n(4) [OF ne] by simp_all
  then have i3: "kernel_inv k3" "map_option p_pending (k_procs k3 child) = Some None"
    using copy_pairs_inv [OF _ ne _ k3] by simp_all
  then show ?thesis
    using destroy_process_inv [OF i3] cp np k2 k3 by (auto simp: sys_create_process_def split: option.splits)
qed

section \<open>The whole system\<close>

lemma wake_connect:
  assumes inv: "sys_inv {#c, c, p#} {#} k1" and c: "is_socket c k1" and sub: "file_sub_ref c k1 = Some k2"
  shows "sys_inv {#c, p#} {#} k2" "is_socket c k2" "k_procs k2 = k_procs k1"
proof -
  have k2: "sys_inv {#c, p#} {#} k2" "store_only k1 k2" "\<forall>q\<in>#outer_refs {#c, p#} {#} k1. file_at q k2 = file_at q k1"
    using sys_sub_ref [OF inv] sub by auto
  show "sys_inv {#c, p#} {#} k2" "k_procs k2 = k_procs k1"
    using k2 by (simp_all add: store_only_fields)
  have "file_at c k1 = None"
    using store_invD(4) [OF sys_invD(1) [OF inv], of c] c by (cases "k_files k1 c") (auto simp: is_socket_def file_at_def)
  then have "k_files k2 c = None"
    using k2(3) by (simp add: outer_refs_def file_at_def)
  then show "is_socket c k2"
    by (cases rule: live_cases [OF sys_invD(1) [OF k2(1)], of c]) (auto simp: outer_refs_def)
qed

lemma resume_inv:
  assumes inv: "kernel_inv k" and may: "may_resume pid k" and res: "resume pid k = Some (r, k')"
  shows "kernel_inv k'"
proof -
  obtain q w where q: "k_procs k pid = Some q" "p_pending q = Some w"
    using may by (auto simp: may_resume_def split: option.splits Option.bind_splits)
  let ?k1 = "set_pending pid None k"
  have k1: "sys_inv (pend_refs w) {#} ?k1"
    using unblock_inv [OF inv q] by simp
  have pid: "k_procs ?k1 pid \<noteq> None"
    using q(1) by (simp add: set_pending_def)
  have wake: "kernel_inv k2 \<and> k_procs k2 pid \<noteq> None" if pr: "pend_refs w = {#p#}" and sub: "file_sub_ref p ?k1 = Some k2" for p k2
  proof -
    have "kernel_inv k2" "store_only ?k1 k2"
      using sys_sub_ref [of p "{#}" "{#}" ?k1] k1 pr sub by auto
    then show ?thesis
      using pid store_only_fields(2) [of ?k1 k2] by simp
  qed
  show ?thesis
  proof (cases w)
    case (PendAccept server)
    then obtain k2 where "file_sub_ref server ?k1 = Some k2" "accept_finish pid server k2 = Some (r, k')"
      using res q by (auto simp: resume_def bind_eq_Some_conv)
    then show ?thesis
      using wake [of server k2] accept_finish_inv [of k2 pid server] PendAccept by simp
  next
    case (PendConnect c p)
    then obtain k2 where k2: "file_sub_ref c ?k1 = Some k2" "connect_finish pid c p k2 = Some (r, k')"
      using res q by (auto simp: resume_def bind_eq_Some_conv)
    have "socket_connected c (k_ipc k) = Some True"
      using may q PendConnect by (simp add: may_resume_def should_unblock_def view_of_def)
    then have "is_socket c ?k1"
      by (auto simp: socket_connected_def find_socket_def is_socket_def bind_eq_Some_conv)
    note w = wake_connect [OF _ this k2(1), of p]
    have "sys_inv {#c, c, p#} {#} ?k1"
      using k1 PendConnect by simp
    then show ?thesis
      using connect_finish_inv [OF w(1,2) _ k2(2)] w(3) pid by simp
  next
    case (PendRead p offset fd n)
    then obtain k2 where "file_sub_ref p ?k1 = Some k2" "read_finish pid fd n k2 = Some (r, k')"
      using res q by (auto simp: resume_def bind_eq_Some_conv)
    then show ?thesis
      using wake [of p k2] read_finish_inv [of k2] PendRead by simp
  next
    case (PendWrite p offset fd bytes)
    then obtain k2 where "file_sub_ref p ?k1 = Some k2" "write_finish pid fd bytes k2 = Some (r, k')"
      using res q by (auto simp: resume_def bind_eq_Some_conv)
    then show ?thesis
      using wake [of p k2] write_finish_inv [of k2] PendWrite by simp
  next
    case (PendPoll fds deadline)
    then show ?thesis
      using res q k1 by (auto simp: resume_def poll_finish_def bind_eq_Some_conv Let_def)
  next
    case (PendWait x)
    then have "kernel_inv ?k1"
      using k1 by simp
    then show ?thesis
      using res q reap_inv [of ?k1 "the x"] PendWait by (cases x) (auto simp: resume_def bind_eq_Some_conv Let_def)
  qed
qed

lemma some_inv: "\<exists>r k'. c = Some (r, k') \<and> kernel_inv k' \<Longrightarrow> c = Some (r, k') \<Longrightarrow> kernel_inv k'"
  by auto

lemma simple_block_inv:
  assumes "kernel_inv k" "k_procs k pid = Some p" "p_pending p = None" "p_running p" "pend_refs w = {#}"
  shows "kernel_inv (set_pending pid (Some w) k)"
  using block_inv [of "{#}" w "{#}" k pid p] assms by simp

lemma sys_chdir_inv:
  assumes inv: "kernel_inv k" and p: "k_procs k pid = Some p" and cd: "sys_chdir pid path k = Some (r, k')"
  shows "kernel_inv k'"
proof -
  note D = sys_invD [OF inv]
  have "kernel_inv (k\<lparr>k_procs := (k_procs k)(pid \<mapsto> p\<lparr>p_cwd := Some i\<rparr>)\<rparr>)" for i
  proof (rule sys_inv_move [OF inv])
    let ?k' = "k\<lparr>k_procs := (k_procs k)(pid \<mapsto> p\<lparr>p_cwd := Some i\<rparr>)\<rparr>"
    show "attaches ?k' + {#} = attaches k + {#}"
      using over_map_update_same [OF D(2) p, of "\<lambda>p. fds_attach (p_fds p)" "p\<lparr>p_cwd := Some i\<rparr>"] by (simp add: attaches_def)
    show "waits ?k' + bound_refs (k_vfs ?k') + {#} = waits k + bound_refs (k_vfs k) + {#}"
      using over_map_update_same [OF D(2) p, of proc_wait "p\<lparr>p_cwd := Some i\<rparr>"] by (simp add: waits_def proc_wait_def)
    show "p_running q \<or> p_pending q = None" if "k_procs ?k' x = Some q" for x q
      using that D(5) [of x] D(5) [OF p] by (auto split: if_splits)
  qed (use D(2-4) p in auto)
  then show ?thesis
    using cd p inv by (auto simp: sys_chdir_def split: Option.bind_splits sum.splits)
qed

lemma path_calls_inv:
  assumes inv: "kernel_inv k"
  shows "sys_mkdir pid path k = Some (r, k') \<Longrightarrow> kernel_inv k'" "sys_mount target fs_type k = Some (r, k') \<Longrightarrow> kernel_inv k'"
    "sys_read_directory pid path k = Some (r, k') \<Longrightarrow> kernel_inv k'" "sys_getcwd pid k = Some (r, k') \<Longrightarrow> kernel_inv k'"
    "sys_ioctl pid fd k = Some (r, k') \<Longrightarrow> kernel_inv k'" "sys_mmap pid fd k = Some (r, k') \<Longrightarrow> kernel_inv k'"
    "Some (r', k) = Some (r, k') \<Longrightarrow> kernel_inv k'"
proof -
  show "kernel_inv k'" if mk: "sys_mkdir pid path k = Some (r, k')"
  proof -
    obtain r' fs where "vfs_create path (cwd_of pid k) Directory (k_vfs k) = Some (r', fs)" "k' = k\<lparr>k_vfs := fs\<rparr>"
      using mk by (auto simp: sys_mkdir_def vfs_mkdir_def bind_eq_Some_conv)
    then show ?thesis
      using set_vfs_inv [OF inv] vfs_create_bound by blast
  qed
  show "kernel_inv k'" if "sys_mount target fs_type k = Some (r, k')"
    using that set_vfs_inv [OF inv] vfs_mount_bound inv by (auto simp: sys_mount_def bind_eq_Some_conv split: if_splits)
qed (use inv in \<open>auto simp: sys_read_directory_def sys_getcwd_def sys_ioctl_def sys_mmap_def split: sum.splits Option.bind_splits\<close>)

lemma block_calls_inv:
  assumes inv: "kernel_inv k" and p: "k_procs k pid = Some p" "p_pending p = None" "p_running p"
  shows "sys_poll pid fds timeout k = Some (r, k') \<Longrightarrow> kernel_inv k'" "sys_wait_pid pid q k = Some (r, k') \<Longrightarrow> kernel_inv k'"
  using simple_block_inv [OF inv p] by (auto simp: sys_poll_def sys_wait_pid_def)

lemma syscall_inv:
  assumes inv: "kernel_inv k" and p: "k_procs k pid = Some p" "p_pending p = None" "p_running p"
    and call: "syscall_table exec pid c k = Some (r, k')"
  shows "kernel_inv k'"
proof -
  have pid: "k_procs k pid \<noteq> None"
    using p by simp
  note rules = sys_accept_inv [OF inv p] sys_bind_inv [OF inv] sys_chdir_inv [OF inv p(1)] some_inv [OF sys_close_inv [OF inv]]
    sys_connect_inv [OF inv p] some_inv [OF sys_create_pipe_inv [OF inv pid]] sys_create_process_inv [OF inv p(1)]
    some_inv [OF sys_create_server_socket_inv [OF inv pid]] dup_fd_some_inv [OF inv] sys_open_inv [OF inv pid] sys_read_fd_inv [OF inv p]
    sys_seek_fd_inv [OF inv] sys_size_inv [OF inv] sys_write_fd_inv [OF inv p] path_calls_inv [OF inv] block_calls_inv [OF inv p]
  show ?thesis
    using call by (cases c) (simp_all only: syscall_table.simps, (elim rules)+)
qed

lemma sys_step_inv: "sys_step exec k k' \<Longrightarrow> kernel_inv k \<Longrightarrow> kernel_inv k'"
proof (induction rule: sys_step.induct)
  case (call k pid p c r k')
  then show ?case
    using syscall_inv by blast
next
  case (exit k pid p k')
  then show ?case
    using sys_exit_inv by fastforce
next
  case (goes_on pid k r k')
  then show ?case
    using resume_inv by blast
next
  case (tick k t)
  show ?case
    using sys_invD(2-5) [OF tick] by (intro sys_inv_move [OF tick]) (auto simp: attaches_def waits_def)
qed

lemma sys_steps_inv: "sys_steps exec k k' \<Longrightarrow> kernel_inv k \<Longrightarrow> kernel_inv k'"
  by (induction rule: sys_steps.induct) (auto intro: sys_step_inv)

lemma boot_kernel_inv: "kernel_inv boot_kernel"
proof -
  have "mount_root RamFsDirectoryInode empty_vfs \<noteq> None"
    by (simp add: mount_root_def empty_vfs_def fs_mount_def Let_def)
  then have fs: "k_vfs boot_kernel = empty_vfs\<lparr>inode_at := (inode_at empty_vfs)(0 := new_inode RamFsDirectoryInode Directory (Some 0) ''/''),
      next_inode := 1, root_inode := Some 0, mounts := [(None, 0)]\<rparr>"
    by (simp add: boot_kernel_def mount_root_def fs_mount_def empty_vfs_def Let_def)
  have "bound_refs (k_vfs boot_kernel) = {#}" "fresh_inodes (k_vfs boot_kernel)"
    unfolding fs by (simp_all add: bound_refs_def fresh_inodes_def empty_vfs_def new_inode_def)
  moreover have "attaches boot_kernel = {#}" "waits boot_kernel = {#}" "over_map queue_of (k_files boot_kernel) = {#}"
    by (simp_all add: attaches_def waits_def over_map_def boot_kernel_def proc_wait_def)
  ultimately show ?thesis
    by (auto simp: sys_inv_def store_inv_def outer_refs_def ipc_inv_def counts_def ref_count_def pipe_counts_def boot_kernel_def split: if_splits)
qed

lemma reachable_inv: "sys_steps exec boot_kernel k \<Longrightarrow> kernel_inv k"
  using sys_steps_inv boot_kernel_inv by blast

text \<open>The state after the first process has made a pipe, for the examples.\<close>

lemma boot_pipe:
  "\<exists>k. sys_create_pipe 1 boot_kernel = Some (Fds 0 1, k) \<and>
     fds_of 1 k = [Some \<lparr>hd_file = 0, hd_direction = ReadDir, hd_offset = 0\<rparr>, Some \<lparr>hd_file = 0, hd_direction = WriteDir, hd_offset = 0\<rparr>] \<and>
     k_files k 0 = Some (PipeF (pipe_new\<lparr>pipe_reader_count := 1, pipe_writer_count := 1\<rparr>), 2) \<and>
     map_option p_pending (k_procs k 1) = Some None"
  by (simp add: sys_create_pipe_def new_file_def boot_kernel_def allocate_fd_def fds_of_def Let_def set_fds_def emplace_fd_def clear_fd_def
      handle_new_def file_add_ref_def is_socket_def add_ref_def file_attach_def file_at_def set_file_def pipe_attach_def set_fd_def
      file_sub_ref_def pipe_new_def)

lemma boot_pipe_reachable: "sys_create_pipe 1 boot_kernel = Some (r, k) \<Longrightarrow> sys_steps exec boot_kernel k"
  using sys_steps.one_more [OF sys_steps.no_step sys_step.call [of boot_kernel 1 _ exec CreatePipe r k]]
  by (simp add: boot_kernel_def)

text \<open>
  C1. However processes interleave their calls, the reference count of every file and socket is the number of handles in the
  descriptor tables, waiting calls, bindings of inodes and entries of backlogs that refer to it; so a file lives exactly as long as
  something refers to it, and no handle dangles.
\<close>

theorem references_exact:
  assumes "sys_steps exec boot_kernel k"
  shows "counts k p = count (image_mset fst (attaches k) + waits k + bound_refs (k_vfs k) + over_map queue_of (k_files k)) p \<and>
    (\<forall>pid fd h. fd_handle pid fd k = Some h \<longrightarrow> is_socket (hd_file h) k \<or> file_at (hd_file h) k \<noteq> None)"
proof -
  have inv: "kernel_inv k"
    using reachable_inv [OF assms] .
  note S = sys_invD(1) [OF inv]
  have "is_socket (hd_file h) k \<or> file_at (hd_file h) k \<noteq> None" if "fd_handle pid fd k = Some h" for pid fd h
    using outer_handle(1) [OF inv that] by (cases rule: live_cases [OF S]) (auto simp: file_at_def)
  then show ?thesis
    using store_invD(6) [OF S, of p] by (simp add: outer_refs_def)
qed

theorem references_exact_witness:
  "\<exists>k h. sys_steps (\<lambda>_ _ _. None) boot_kernel k \<and> fd_handle 1 0 k = Some h \<and> (is_socket (hd_file h) k \<or> file_at (hd_file h) k \<noteq> None)"
proof -
  obtain k where k: "sys_create_pipe 1 boot_kernel = Some (Fds 0 1, k)"
      "fds_of 1 k = [Some \<lparr>hd_file = 0, hd_direction = ReadDir, hd_offset = 0\<rparr>, Some \<lparr>hd_file = 0, hd_direction = WriteDir, hd_offset = 0\<rparr>]"
    using boot_pipe by blast
  have "fd_handle 1 0 k = Some \<lparr>hd_file = 0, hd_direction = ReadDir, hd_offset = 0\<rparr>"
    unfolding fd_handle_def k(2) by simp
  then show ?thesis
    using references_exact [OF boot_pipe_reachable [OF k(1)]] boot_pipe_reachable [OF k(1)] by blast
qed

text \<open>
  C2. A reader of a pipe waits exactly when the pipe is empty and some process still has its writing end open: the end of the file
  is reached neither early, while a writer could still write, nor never, when the last writer has gone, be it by closing, by being
  overwritten with another file, or by the end of its process.
\<close>

theorem pipe_reader_waits_for_writers:
  assumes "sys_steps exec boot_kernel k" and "file_at p k = Some (PipeF pp)"
  shows "file_read_would_block p k = Some True \<longleftrightarrow>
    pipe_contents pp = [] \<and> (\<exists>pid fd h. fd_handle pid fd k = Some h \<and> hd_file h = p \<and> hd_direction h = WriteDir)"
proof -
  have inv: "kernel_inv k"
    using reachable_inv [OF assms(1)] .
  note S = sys_invD(1) [OF inv]
  obtain n where n: "k_files k p = Some (PipeF pp, n)"
    using assms(2) by (auto simp: file_at_def)
  have pc: "pipe_inv pp" "pipe_writer_count pp = count (attaches k) (p, WriteDir)"
    using pipe_countsD [OF store_invD(7) [OF S] n] by auto
  have "(p, WriteDir) \<in># attaches k \<longleftrightarrow> (\<exists>pid fd h. fd_handle pid fd k = Some h \<and> hd_file h = p \<and> hd_direction h = WriteDir)"
    using outer_handle(2) [OF inv] attached_handle [OF inv, of p WriteDir] by metis
  moreover have "\<not> is_socket p k"
    using store_invD(4) [OF S, of p] n by (simp add: is_socket_def)
  ultimately show ?thesis
    using assms(2) pc db_empty_contents [of "pipe_buffer pp"] 
    by (simp add: file_read_would_block_def pipe_read_would_block_def) (metis count_eq_zero_iff)
qed

theorem pipe_reader_waits_for_writers_witness:
  "\<exists>k pp. sys_steps (\<lambda>_ _ _. None) boot_kernel k \<and> file_at 0 k = Some (PipeF pp) \<and> file_read_would_block 0 k = Some True"
proof -
  obtain k where k: "sys_create_pipe 1 boot_kernel = Some (Fds 0 1, k)"
      "fds_of 1 k = [Some \<lparr>hd_file = 0, hd_direction = ReadDir, hd_offset = 0\<rparr>, Some \<lparr>hd_file = 0, hd_direction = WriteDir, hd_offset = 0\<rparr>]"
      "k_files k 0 = Some (PipeF (pipe_new\<lparr>pipe_reader_count := 1, pipe_writer_count := 1\<rparr>), 2)"
    using boot_pipe by blast
  let ?pp = "pipe_new\<lparr>pipe_reader_count := 1, pipe_writer_count := 1\<rparr>"
  have pp: "file_at 0 k = Some (PipeF ?pp)"
    by (simp add: file_at_def k(3))
  have "fd_handle 1 1 k = Some \<lparr>hd_file = 0, hd_direction = WriteDir, hd_offset = 0\<rparr>"
    unfolding fd_handle_def k(2) by simp
  then have w: "\<exists>pid fd h. fd_handle pid fd k = Some h \<and> hd_file h = 0 \<and> hd_direction h = WriteDir"
    by fastforce
  have "pipe_contents ?pp = []"
    by (simp add: pipe_new_def db_new_contents)
  then have "file_read_would_block 0 k = Some True"
    using pipe_reader_waits_for_writers [OF boot_pipe_reachable [OF k(1)] pp] w by blast
  then show ?thesis
    using pp boot_pipe_reachable [OF k(1)] by blast
qed



end
