(* ===== verification/Spec2Isabelle.thy ===== *)
theory Spec2Isabelle
  imports Algorithm Ring_Buffer Ipc Address_Space Cstring Stdio Fs Vectors Heap Shell Line_Editor Console Thread_Ring Kernel_Invariant
begin

text \<open>
  Umbongo is a small operating system in C++: a kernel with its own memory manager, virtual file system,
  inter-process communication and scheduler (\<^verbatim>\<open>src/kernel\<close>), a freestanding standard library (\<^verbatim>\<open>src/ustd\<close>), a C
  library (\<^verbatim>\<open>src/libs/posix\<close>), and a user land of servers and programs. This theory collects the development; the
  definitions follow the sources file by file, with the names of the sources where they are free.

  \<^bold>\<open>How code is read.\<close> A function that changes objects takes the state and returns it. A failed \<^verbatim>\<open>ASSERT\<close> or
  \<^verbatim>\<open>ENSURE\<close>, an access outside an array, and a loop that does not end are all \<open>None\<close>; \<^verbatim>\<open>SysResult\<close> and other error
  returns are a sum with the error on the left. Sizes are natural numbers with the wrap-around of 64 bits written
  out where the code can reach it, and machine words are words where bits matter. Objects that are shared by
  pointer (tree nodes, buffers, sockets, inodes, threads, files) have addresses in a store, and their reference counts
  are part of the state. Code of several processors is a step relation whose steps are the atomic operations.

  \<^bold>\<open>The standard library.\<close>
  \<^item> \<open>Prelude\<close>: the error codes, assertions, loops over ranges and shared lemmas. \<open>Numeric\<close> and \<open>Algorithm\<close>:
    \<^verbatim>\<open>ustd/numeric.hh\<close> and the comb sort of \<^verbatim>\<open>ustd/algorithm.hh\<close>, which ends and sorts.
  \<^item> \<open>Vectors\<close> (\<^verbatim>\<open>ustd/vector.hh\<close>): storage, capacity and the size type; vectors refine lists through the locale
    \<open>growable\<close>, up to the largest size, where growing wraps.
  \<^item> \<open>Splay_Tree\<close> (\<^verbatim>\<open>ustd/splay_tree.hh\<close>): the pointers of the intrusive tree; it refines an ordered sequence, through
    the locales \<open>node_order\<close> and \<open>node_index\<close>, and every loop over it ends. The memory manager keeps its regions in it.
  \<^item> \<open>Ring_Buffer\<close> (\<^verbatim>\<open>ustd/ring_buffer.hh\<close>, \<^verbatim>\<open>kernel/dmesg.cc\<close>, \<^verbatim>\<open>kernel/dev/dmesg_device.cc\<close>): the kernel log keeps the last
    128 KiB, by the locale \<open>bounded_log\<close>.
  \<^item> \<open>Ctype\<close>, \<open>Numbers\<close>, \<open>Cstring\<close>, \<open>Stdio\<close>: formatting and parsing of numbers (\<^verbatim>\<open>ustd/string_builder.hh\<close>,
    \<^verbatim>\<open>ustd/string_cast.hh\<close>, \<^verbatim>\<open>libs/posix/stdlib.cc\<close>), memory and string functions (\<^verbatim>\<open>ustd/builtin.cc\<close>,
    \<^verbatim>\<open>libs/posix/string.cc\<close>), and printf and streams (\<^verbatim>\<open>libs/posix/stdio.cc\<close>), with round trips between them.

  \<^bold>\<open>Memory.\<close> Each theory uses the operations of the one before it.
  \<^item> \<open>Frames\<close> (\<^verbatim>\<open>kernel/mem/memory_manager.cc\<close>): the boot memory map and the frame bit set. The locale
    \<open>frame_provider\<close> is what its clients rely on; clients that interleave never share a frame.
  \<^item> \<open>Vm_Object\<close> (\<^verbatim>\<open>kernel/mem/physical_page.cc\<close>, \<^verbatim>\<open>kernel/mem/vm_object.cc\<close>): pages and memory objects, from creation
    to the return of their frames.
  \<^item> \<open>Paging\<close> (\<^verbatim>\<open>kernel/arch/paging.hh\<close>): the four levels of tables; mapping adds exactly the addresses of the page, and
    unmapping restores the tables.
  \<^item> \<open>Address_Space\<close> (\<^verbatim>\<open>kernel/mem/region.cc\<close>, \<^verbatim>\<open>kernel/mem/address_space.cc\<close>): allocation of ranges, regions over memory objects
    and their translation.
  \<^item> \<open>Heap\<close> (\<^verbatim>\<open>kernel/mem/heap.cc\<close>): regions of chunks, large blocks and the aligned operators; blocks are disjoint.

  \<^bold>\<open>Files and communication.\<close>
  \<^item> \<open>Channel\<close>: the contract \<open>byte_channel\<close> of a byte stream. It is interpreted on \<open>Double_Buffer\<close>
    (\<^verbatim>\<open>kernel/ipc/double_buffer.cc\<close>) and on the pipes and connections of \<open>Ipc\<close> (\<^verbatim>\<open>kernel/ipc\<close>), which adds backlogs,
    acceptance, end of file and hang-up.
  \<^item> \<open>Fs\<close> (\<^verbatim>\<open>kernel/fs\<close>, \<^verbatim>\<open>kernel/dev/dev_fs.cc\<close>): inodes, path resolution, mounts, creation, file handles and the device tree.

  \<^bold>\<open>Threads and system calls.\<close>
  \<^item> \<open>Run_Queue\<close> (\<^verbatim>\<open>kernel/spin_lock.cc\<close>, the queue of \<^verbatim>\<open>kernel/proc/scheduler.cc\<close>): processors interleave their atomic steps;
    the lock excludes, and no thread is lost or handed out twice. Without interleaving the queue is a \<open>bounded_fifo\<close>.
  \<^item> \<open>Scheduler\<close> and \<open>Thread_Ring\<close> (\<^verbatim>\<open>kernel/proc\<close>): blockers, picking, switching, and the ring of threads; picking
    ends when some thread can run, a ready thread is not starved, and the ring stays one ring.
  \<^item> \<open>Syscalls\<close> (\<^verbatim>\<open>kernel/syscalls.cc\<close>, \<^verbatim>\<open>kernel/proc/process.cc\<close>, \<^verbatim>\<open>kernel/fs/file_handle.cc\<close>): descriptor tables over the files of
    \<open>Ipc\<close> and \<open>Fs\<close>, one definition per call, and the step relation \<open>sys_step\<close> of processes that call,
    block and go on. \<open>References\<close> and \<open>Kernel_Invariant\<close> show of every reachable state that reference counts
    and the attach counts of pipes are exact and that calls on descriptors return.

  \<^bold>\<open>User land.\<close> \<open>Shell\<close> and \<open>Line_Editor\<close> (\<^verbatim>\<open>src/shell\<close>): lexer, parser, typed evaluation, jobs, and every
  key. \<open>Console\<close> (\<^verbatim>\<open>src/servers/console\<close>): escape sequences, terminals and drawing.

  \<^bold>\<open>Bounds and loops.\<close> There is no fuel. Loops that may run for ever are partial functions over options, and that
  they return is part of the theorems: for the tree operations from the shape of the tree, for the comb sort from the shrinking
  gap and the number of inversions, for the scheduler from the number of queued threads. Fixed sizes (1024 queue slots,
  64 KiB buffers, 32-byte chunks, 4 KiB frames) are those of the sources.

  \<^bold>\<open>Simplifications.\<close> The scheduler and the system calls are modelled on one processor, and every process has one thread: a
  call runs to its end or to the point where it blocks, which is what the lock of a process gives. Loading a program
  (\<^verbatim>\<open>Thread::exec\<close>) is an argument \<open>exec\<close> of process creation, and what a blocked thread waits for is an argument of the
  scheduler. The statements about references hold for every such argument.

  \<^bold>\<open>Not modelled.\<close> Boot loader, ACPI, PCI, interrupt controllers, timers, processor set-up and the USB server: their
  meaning is that of firmware and devices. Saved registers, stacks, the system call entry, program loading and the dynamic
  linker: machine state. The calls \<^verbatim>\<open>allocate_region\<close>, \<^verbatim>\<open>virt_to_phys\<close> and \<^verbatim>\<open>debug_line\<close> are not in the table of calls. The message
  passing library and its clients (configuration, log and console libraries, the system server), the core library, the core
  utilities and the remaining POSIX shims: thin layers over calls that are modelled. Templates such as \<^verbatim>\<open>Optional\<close> and \<^verbatim>\<open>Result\<close> are
  HOL's types, except where an optional drops a reference.
\<close>

end
